(* ===== verification/Prelude.thy ===== *)
theory Prelude
  imports Main "HOL-Library.Word"
begin

section \<open>Shared types, collections and generic lemmas\<close>

text \<open>
  What every component of the development uses: the machine integers of the Rust source as
  words, the collections that carry the component proofs, generic facts on lists, words and
  maps, and the locale of a machine that is driven by a list of operations.
\<close>

subsection \<open>Machine integers\<close>

type_synonym u8 = "8 word"
type_synonym u16 = "16 word"
type_synonym u32 = "32 word"
type_synonym u64 = "64 word"

text \<open>
  \<open>op_defs\<close> collects the definitions of the operations of a component, \<open>inv_intros\<close> the
  preservation lemmas of its invariant.
\<close>

named_theorems op_defs
named_theorems inv_intros

subsection \<open>Words\<close>

lemma unat_u16_less: "unat (w :: u16) < 65536"
  using unsigned_less [of w, where 'a=nat] by simp

lemma unat_u8_less: "unat (w :: u8) < 256"
  using unsigned_less [of w, where 'a=nat] by simp

lemma unat_of_nat_u16: "n < 65536 \<Longrightarrow> unat (of_nat n :: u16) = n"
  by (simp add: unat_of_nat take_bit_nat_eq_self)

lemma unat_of_nat_u8: "n < 256 \<Longrightarrow> unat (of_nat n :: u8) = n"
  by (simp add: unat_of_nat take_bit_nat_eq_self)

lemma unat_Suc_u16:
  assumes "(p :: u16) < q"
  shows "unat (p + 1) = Suc (unat p)"
proof -
  from assms have "unat p < unat q" by (simp add: word_less_nat_alt)
  with unat_u16_less [of q] have "Suc (unat p) < 65536" by simp
  then show ?thesis by (simp add: unat_word_ariths)
qed

text \<open>The inclusive range \<open>lo..=hi\<close> of the source, as the list of its members.\<close>

definition word_range :: "u16 \<Rightarrow> u16 \<Rightarrow> u16 list" where
  "word_range lo hi = map of_nat [unat lo ..< Suc (unat hi)]"

lemma word_range_member: "p \<in> set (word_range lo hi) \<longleftrightarrow> lo \<le> p \<and> p \<le> hi"
proof
  assume "p \<in> set (word_range lo hi)"
  then obtain n where n: "unat lo \<le> n" "n \<le> unat hi" and p: "p = of_nat n"
    by (auto simp: word_range_def)
  from n(2) unat_u16_less [of hi] have "unat p = n" by (simp add: p unat_of_nat_u16)
  with n show "lo \<le> p \<and> p \<le> hi" by (simp add: word_le_nat_alt)
next
  assume "lo \<le> p \<and> p \<le> hi"
  then have "unat p \<in> {unat lo ..< Suc (unat hi)}" by (simp add: word_le_nat_alt)
  then have "of_nat (unat p) \<in> set (word_range lo hi)"
    unfolding word_range_def by (metis image_eqI list.set_map set_upt)
  then show "p \<in> set (word_range lo hi)" by simp
qed

lemma set_word_range [simp]: "set (word_range lo hi) = {lo..hi}"
  by (auto simp: word_range_member)

lemma length_word_range: "length (word_range lo hi) = Suc (unat hi) - unat lo"
  by (simp add: word_range_def del: upt_Suc)

lemma distinct_word_range [simp]: "distinct (word_range lo hi)"
proof -
  have "inj_on (of_nat :: nat \<Rightarrow> u16) {unat lo ..< Suc (unat hi)}"
  proof (rule inj_onI)
    fix m n
    assume m: "m \<in> {unat lo ..< Suc (unat hi)}" and n: "n \<in> {unat lo ..< Suc (unat hi)}"
      and eq: "(of_nat m :: u16) = of_nat n"
    from m n unat_u16_less [of hi] have "m < 65536" "n < 65536" by auto
    with eq show "m = n" by (metis unat_of_nat_u16)
  qed
  then show ?thesis by (simp add: word_range_def distinct_map del: upt_Suc)
qed

lemma card_u16_range:
  assumes "lo \<le> hi"
  shows "card {lo .. hi :: u16} = unat hi - unat lo + 1"
proof -
  have "card {lo..hi} = length (word_range lo hi)"
    using distinct_card [of "word_range lo hi"] by simp
  with assms show ?thesis by (simp add: length_word_range word_le_nat_alt)
qed

lemma finite_u16 [simp]: "finite (A :: u16 set)"
  by simp

subsection \<open>Lists\<close>

lemma filter_neq_length:
  "distinct xs \<Longrightarrow> x \<in> set xs \<Longrightarrow> length (filter (\<lambda>y. y \<noteq> x) xs) = length xs - 1"
proof (induction xs)
  case Nil
  then show ?case by simp
next
  case (Cons a xs)
  then show ?case
  proof (cases "a = x")
    case True
    with Cons.prems(1) have "filter (\<lambda>y. y \<noteq> x) xs = xs" by (auto simp: filter_id_conv)
    with True show ?thesis by simp
  next
    case False
    with Cons have "x \<in> set xs" and IH: "length (filter (\<lambda>y. y \<noteq> x) xs) = length xs - 1"
      by auto
    from \<open>x \<in> set xs\<close> have "0 < length xs" by (cases xs) auto
    with False IH show ?thesis by simp
  qed
qed

lemma removeAll_filter: "filter (\<lambda>y. y \<noteq> x) xs = removeAll x xs"
  by (induction xs) auto

lemma length_2_iff: "length xs = 2 \<longleftrightarrow> (\<exists>a b. xs = [a, b])"
  by (cases xs; cases "tl xs") auto

subsection \<open>Machines driven by a list of operations\<close>

text \<open>
  A component whose operations all keep an invariant keeps it along every sequence of
  operations. The locale states it once; every stateful component interprets it.
\<close>

locale op_machine =
  fixes apply_op :: "'o \<Rightarrow> 's \<Rightarrow> 's"
    and inv :: "'s \<Rightarrow> bool"
  assumes inv_apply: "inv s \<Longrightarrow> inv (apply_op x s)"
begin

lemma inv_fold: "inv s \<Longrightarrow> inv (fold apply_op xs s)"
  by (induction xs arbitrary: s) (auto intro: inv_apply)

end

end
