(* ===== verification/Rust_Str.thy ===== *)
theory Rust_Str
  imports Prelude
begin

section \<open>Strings, as the source uses them\<close>

text \<open>
  A Rust \<open>String\<close> or \<open>&str\<close> is the list of its UTF-8 code units, a HOL \<open>string\<close> (a HOL
  \<open>char\<close> is one byte), so lengths and slices count bytes as they do in Rust. This theory holds
  the functions of the standard library that the program calls on strings, as their
  documentation defines them: UTF-8 validation and lossy decoding, splitting, trimming, parsing
  of port numbers and printing of numbers and addresses.
\<close>

subsection \<open>Bytes and UTF-8\<close>

definition as_bytes :: "string \<Rightarrow> u8 list" where
  "as_bytes s = map of_char s"

definition str_of_bytes :: "u8 list \<Rightarrow> string" where
  "str_of_bytes bs = map (\<lambda>b. char_of (unat b)) bs"

lemma as_bytes_simps [simp]:
  "as_bytes [] = []"
  "as_bytes (c # s) = of_char c # as_bytes s"
  "as_bytes (s @ t) = as_bytes s @ as_bytes t"
  "length (as_bytes s) = length s"
  by (simp_all add: as_bytes_def)

lemma unat_of_char [simp]: "unat (of_char c :: u8) = of_char c"
proof -
  have "(of_char c :: u8) = of_nat (of_char c)" by (rule of_nat_of_char [symmetric])
  then have "unat (of_char c :: u8) = unat (of_nat (of_char c) :: u8)" by (rule arg_cong)
  then show ?thesis using nat_of_char_less_256 [of c] by (simp only: unat_of_nat_u8)
qed

lemma char_of_of_char_u8 [simp]: "char_of (unat (of_char c :: u8)) = c"
  by simp

lemma of_char_char_of_u8 [simp]: "of_char (char_of (unat (b :: u8))) = b"
proof -
  have "unat (of_char (char_of (unat b)) :: u8) = unat b"
    using unat_u8_less [of b] by simp
  then show ?thesis by (rule word_unat_eq_iff [THEN iffD2])
qed

lemma str_of_as_bytes [simp]: "str_of_bytes (as_bytes s) = s"
  by (simp add: str_of_bytes_def as_bytes_def comp_def)

lemma as_bytes_str_of [simp]: "as_bytes (str_of_bytes bs) = bs"
  by (simp add: str_of_bytes_def as_bytes_def comp_def)

lemma as_bytes_inject [simp]: "as_bytes s = as_bytes t \<longleftrightarrow> s = t"
  by (metis str_of_as_bytes)

text \<open>
  One step of the decoder: the character at the front of the bytes is well formed and has the
  given width, or it is not and the given number of bytes is its longest ill-formed prefix. The
  ranges of the second byte exclude overlong forms, surrogates and code points above 10FFFF.
  A byte past the end reads as 0, as in the standard library's validator.
\<close>

definition byte_at :: "u8 list \<Rightarrow> nat \<Rightarrow> u8" where
  "byte_at bs i = (if i < length bs then bs ! i else 0)"

definition is_cont :: "u8 \<Rightarrow> bool" where
  "is_cont b \<longleftrightarrow> 0x80 \<le> b \<and> b \<le> 0xBF"

definition second_of_three :: "u8 \<Rightarrow> u8 \<Rightarrow> bool" where
  "second_of_three a b \<longleftrightarrow>
     (if a = 0xE0 then 0xA0 \<le> b \<and> b \<le> 0xBF
      else if a = 0xED then 0x80 \<le> b \<and> b \<le> 0x9F
      else is_cont b)"

definition second_of_four :: "u8 \<Rightarrow> u8 \<Rightarrow> bool" where
  "second_of_four a b \<longleftrightarrow>
     (if a = 0xF0 then 0x90 \<le> b \<and> b \<le> 0xBF
      else if a = 0xF4 then 0x80 \<le> b \<and> b \<le> 0x8F
      else is_cont b)"

fun utf8_step :: "u8 list \<Rightarrow> bool \<times> nat" where
  "utf8_step [] = (True, 1)"
| "utf8_step (a # r) =
     (if a < 0x80 then (True, 1)
      else if 0xC2 \<le> a \<and> a \<le> 0xDF then
        (if is_cont (byte_at r 0) then (True, 2) else (False, 1))
      else if 0xE0 \<le> a \<and> a \<le> 0xEF then
        (if second_of_three a (byte_at r 0) then
           (if is_cont (byte_at r 1) then (True, 3) else (False, 2))
         else (False, 1))
      else if 0xF0 \<le> a \<and> a \<le> 0xF4 then
        (if second_of_four a (byte_at r 0) then
           (if is_cont (byte_at r 1) then
              (if is_cont (byte_at r 2) then (True, 4) else (False, 3))
            else (False, 2))
         else (False, 1))
      else (False, 1))"

lemma utf8_step_pos: "0 < snd (utf8_step bs)"
  by (cases bs) auto

text \<open>\<open>core::str::from_utf8\<close>, and \<open>String::from_utf8_lossy\<close>, which puts U+FFFD
  (\<open>EF BF BD\<close>) in the place of every ill-formed prefix.\<close>

function valid_utf8 :: "u8 list \<Rightarrow> bool" where
  "valid_utf8 bs =
     (if bs = [] then True
      else fst (utf8_step bs) \<and> valid_utf8 (drop (snd (utf8_step bs)) bs))"
  by pat_completeness auto
termination
  by (relation "measure length") (auto simp: utf8_step_pos)

declare valid_utf8.simps [simp del]

function utf8_lossy :: "u8 list \<Rightarrow> u8 list" where
  "utf8_lossy bs =
     (if bs = [] then []
      else (if fst (utf8_step bs) then take (snd (utf8_step bs)) bs else [0xEF, 0xBF, 0xBD])
           @ utf8_lossy (drop (snd (utf8_step bs)) bs))"
  by pat_completeness auto
termination
  by (relation "measure length") (auto simp: utf8_step_pos)

declare utf8_lossy.simps [simp del]

definition from_utf8 :: "u8 list \<Rightarrow> string option" where
  "from_utf8 bs = (if valid_utf8 bs then Some (str_of_bytes bs) else None)"

definition from_utf8_lossy :: "u8 list \<Rightarrow> string" where
  "from_utf8_lossy bs = str_of_bytes (utf8_lossy bs)"

lemma from_utf8_Some: "from_utf8 bs = Some s \<Longrightarrow> as_bytes s = bs"
  by (auto simp: from_utf8_def split: if_splits)

lemma from_utf8_inject: "from_utf8 bs = Some s \<Longrightarrow> from_utf8 cs = Some s \<Longrightarrow> bs = cs"
  by (metis from_utf8_Some)

lemma utf8_lossy_valid: "valid_utf8 bs \<Longrightarrow> utf8_lossy bs = bs"
proof (induction bs rule: valid_utf8.induct)
  case (1 bs)
  show ?case
  proof (cases "bs = []")
    case False
    with "1.prems" have "fst (utf8_step bs)" and "valid_utf8 (drop (snd (utf8_step bs)) bs)"
      by (simp_all add: valid_utf8.simps [of bs])
    with "1.IH" [OF False] False show ?thesis by (simp add: utf8_lossy.simps [of bs])
  qed (simp add: utf8_lossy.simps)
qed

text \<open>ASCII strings are well formed.\<close>

definition is_ascii :: "string \<Rightarrow> bool" where
  "is_ascii s \<longleftrightarrow> list_all (\<lambda>c. (of_char c :: nat) < 128) s"

lemma is_ascii_simps [simp]:
  "is_ascii []"
  "is_ascii (c # s) \<longleftrightarrow> (of_char c :: nat) < 128 \<and> is_ascii s"
  "is_ascii (s @ t) \<longleftrightarrow> is_ascii s \<and> is_ascii t"
  by (simp_all add: is_ascii_def)

lemma utf8_step_ascii: "(of_char c :: nat) < 128 \<Longrightarrow> utf8_step (of_char c # r) = (True, 1)"
  by (simp add: word_less_nat_alt)

lemma valid_utf8_ascii: "is_ascii s \<Longrightarrow> valid_utf8 (as_bytes s)"
  by (induction s) (simp_all add: valid_utf8.simps utf8_step_ascii del: utf8_step.simps)

lemma from_utf8_ascii: "is_ascii s \<Longrightarrow> from_utf8 (as_bytes s) = Some s"
  by (simp add: from_utf8_def valid_utf8_ascii)

lemma from_utf8_lossy_ascii: "is_ascii s \<Longrightarrow> from_utf8_lossy (as_bytes s) = s"
  by (simp add: from_utf8_lossy_def utf8_lossy_valid valid_utf8_ascii)

subsection \<open>Prefixes and splitting\<close>

definition starts_with :: "'a list \<Rightarrow> 'a list \<Rightarrow> bool" where
  "starts_with s p \<longleftrightarrow> take (length p) s = p"

lemma starts_with_append [simp]: "starts_with (p @ s) p"
  by (simp add: starts_with_def)

lemma starts_with_iff: "starts_with s p \<longleftrightarrow> (\<exists>t. s = p @ t)"
  unfolding starts_with_def by (metis append_eq_conv_conj append_take_drop_id)

text \<open>\<open>str::split(c)\<close> for an ASCII character, collected: always at least one part.\<close>

fun split_on :: "char \<Rightarrow> string \<Rightarrow> string list" where
  "split_on c [] = [[]]"
| "split_on c (x # xs) =
     (if x = c then [] # split_on c xs
      else case split_on c xs of
             [] \<Rightarrow> [[x]]
           | w # ws \<Rightarrow> (x # w) # ws)"

lemma split_on_nonempty [simp]: "split_on c s \<noteq> []"
  by (cases s) (auto split: list.splits)

lemma split_on_none: "c \<notin> set s \<Longrightarrow> split_on c s = [s]"
  by (induction s) auto

lemma split_on_append:
  "c \<notin> set s \<Longrightarrow> split_on c (s @ c # t) = s # split_on c t"
  by (induction s) auto

lemma length_split_on: "length (split_on c s) = Suc (count_list s c)"
  by (induction s) (auto split: list.splits)

lemma split_on_two:
  assumes "split_on c s = [a, b]"
  shows "s = a @ c # b \<and> c \<notin> set a \<and> c \<notin> set b"
proof -
  from assms have "count_list s c = 1" using length_split_on [of c s] by simp
  then have "c \<in> set s" by (metis count_list_0_iff zero_neq_one)
  then obtain x y where s: "s = x @ c # y" and x: "c \<notin> set x"
    by (meson split_list_first)
  from s \<open>count_list s c = 1\<close> have "count_list y c = 0" by simp
  then have y: "c \<notin> set y" by (simp add: count_list_0_iff)
  from split_on_append [OF x, of y] s split_on_none [OF y] assms x y show ?thesis by simp
qed

text \<open>\<open>str::splitn(2, c)\<close>: the first part, and the rest if the separator occurs.\<close>

definition splitn2 :: "char \<Rightarrow> string \<Rightarrow> string \<times> string option" where
  "splitn2 c s =
     (takeWhile (\<lambda>x. x \<noteq> c) s,
      case dropWhile (\<lambda>x. x \<noteq> c) s of [] \<Rightarrow> None | _ # r \<Rightarrow> Some r)"

lemma splitn2_append: "c \<notin> set s \<Longrightarrow> splitn2 c (s @ c # t) = (s, Some t)"
  by (induction s) (auto simp: splitn2_def)

lemma splitn2_Some: "splitn2 c s = (a, Some b) \<Longrightarrow> s = a @ c # b \<and> c \<notin> set a"
proof -
  assume a: "splitn2 c s = (a, Some b)"
  then have "dropWhile (\<lambda>x. x \<noteq> c) s = c # b"
    by (auto simp: splitn2_def split: list.splits dest: dropWhile_eq_Cons_conv [THEN iffD1])
  moreover from a have "a = takeWhile (\<lambda>x. x \<noteq> c) s" by (simp add: splitn2_def)
  ultimately show ?thesis
    by (metis (mono_tags, lifting) set_takeWhileD takeWhile_dropWhile_id)
qed

text \<open>
  \<open>str::lines\<close>: the parts that end in a line feed, each without it and without one carriage
  return before it; a last part without a line feed counts as a line unless it is empty.
\<close>

definition strip_cr :: "string \<Rightarrow> string" where
  "strip_cr l = (if l \<noteq> [] \<and> last l = CHR 0x0D then butlast l else l)"

definition str_lines :: "string \<Rightarrow> string list" where
  "str_lines s =
     (let parts = split_on (CHR 0x0A) s
      in map strip_cr (butlast parts) @ (if last parts = [] then [] else [last parts]))"

lemma str_lines_line:
  "CHR 0x0A \<notin> set l \<Longrightarrow> str_lines (l @ CHR 0x0D # CHR 0x0A # t) = l # str_lines t"
proof -
  assume "CHR 0x0A \<notin> set l"
  then have "CHR 0x0A \<notin> set (l @ [CHR 0x0D])" by simp
  from split_on_append [OF this, of t]
  have "split_on (CHR 0x0A) (l @ CHR 0x0D # CHR 0x0A # t)
      = (l @ [CHR 0x0D]) # split_on (CHR 0x0A) t"
    by simp
  then show ?thesis by (simp add: str_lines_def Let_def strip_cr_def)
qed

subsection \<open>Characters, white space and case\<close>

text \<open>
  \<open>chars\<close> cuts a string into its characters, each given by its code units. White space is
  Unicode's \<open>White_Space\<close>.
\<close>

function chars :: "string \<Rightarrow> string list" where
  "chars s =
     (if s = [] then []
      else take (snd (utf8_step (as_bytes s))) s # chars (drop (snd (utf8_step (as_bytes s))) s))"
  by pat_completeness auto
termination
  by (relation "measure length") (auto simp: utf8_step_pos)

declare chars.simps [simp del]

lemma chars_Nil [simp]: "chars [] = []"
  by (simp add: chars.simps)

lemma concat_chars [simp]: "concat (chars s) = s"
  by (induction s rule: chars.induct) (simp add: chars.simps)

lemma chars_ascii_Cons:
  "(of_char c :: nat) < 128 \<Longrightarrow> chars (c # s) = [c] # chars s"
  by (simp add: chars.simps [of "c # s"] utf8_step_ascii del: utf8_step.simps)

lemma chars_ascii: "is_ascii s \<Longrightarrow> chars s = map (\<lambda>c. [c]) s"
  by (induction s) (simp_all add: chars_ascii_Cons)

lemma chars_ascii_append: "is_ascii s \<Longrightarrow> chars (s @ t) = map (\<lambda>c. [c]) s @ chars t"
  by (induction s) (simp_all add: chars_ascii_Cons)

definition ascii_ws :: "char \<Rightarrow> bool" where
  "ascii_ws c \<longleftrightarrow> c \<in> {CHR 0x09, CHR 0x0A, CHR 0x0B, CHR 0x0C, CHR 0x0D, CHR 0x20}"

definition is_whitespace :: "string \<Rightarrow> bool" where
  "is_whitespace ch \<longleftrightarrow>
     (case ch of
        [c] \<Rightarrow> ascii_ws c
      | _ \<Rightarrow> as_bytes ch \<in>
          {[0xC2, 0x85], [0xC2, 0xA0], [0xE1, 0x9A, 0x80],
           [0xE2, 0x80, 0x80], [0xE2, 0x80, 0x81], [0xE2, 0x80, 0x82], [0xE2, 0x80, 0x83],
           [0xE2, 0x80, 0x84], [0xE2, 0x80, 0x85], [0xE2, 0x80, 0x86], [0xE2, 0x80, 0x87],
           [0xE2, 0x80, 0x88], [0xE2, 0x80, 0x89], [0xE2, 0x80, 0x8A],
           [0xE2, 0x80, 0xA8], [0xE2, 0x80, 0xA9], [0xE2, 0x80, 0xAF],
           [0xE2, 0x81, 0x9F], [0xE3, 0x80, 0x80]})"

lemma is_whitespace_single [simp]: "is_whitespace [c] = ascii_ws c"
  by (simp add: is_whitespace_def)

definition trim :: "string \<Rightarrow> string" where
  "trim s = concat (rev (dropWhile is_whitespace (rev (dropWhile is_whitespace (chars s)))))"

text \<open>\<open>str::split_whitespace\<close>, collected: the maximal runs of other characters.\<close>

fun words_of :: "string \<Rightarrow> string list \<Rightarrow> string list" where
  "words_of w [] = (if w = [] then [] else [w])"
| "words_of w (ch # cs) =
     (if is_whitespace ch then (if w = [] then words_of [] cs else w # words_of [] cs)
      else words_of (w @ ch) cs)"

definition split_whitespace :: "string \<Rightarrow> string list" where
  "split_whitespace s = words_of [] (chars s)"

text \<open>
  \<open>str::to_lowercase\<close>. ASCII letters map to their lower case. Of the other characters, U+0130
  maps to \<open>i\<close> and U+0307, and U+212A to \<open>k\<close>; the rest have lower-case forms that start
  outside ASCII and are left as they are here: the program only compares the result with an
  ASCII prefix, which cannot tell those forms apart.
\<close>

definition lower_char :: "char \<Rightarrow> char" where
  "lower_char c =
     (if 65 \<le> (of_char c :: nat) \<and> (of_char c :: nat) \<le> 90
      then char_of ((of_char c :: nat) + 32) else c)"

definition lower_ch :: "string \<Rightarrow> string" where
  "lower_ch ch =
     (case ch of
        [c] \<Rightarrow> [lower_char c]
      | _ \<Rightarrow> if as_bytes ch = [0xC4, 0xB0] then CHR ''i'' # str_of_bytes [0xCC, 0x87]
              else if as_bytes ch = [0xE2, 0x84, 0xAA] then ''k''
              else ch)"

definition to_lowercase :: "string \<Rightarrow> string" where
  "to_lowercase s = concat (map lower_ch (chars s))"

lemma to_lowercase_ascii: "is_ascii s \<Longrightarrow> to_lowercase (s @ t) = map lower_char s @ to_lowercase t"
  by (induction s) (simp_all add: to_lowercase_def chars_ascii_Cons lower_ch_def)

text \<open>\<open>str::trim_start_matches(p)\<close> removes every leading repetition of a non-empty pattern.\<close>

function trim_start_matches :: "string \<Rightarrow> string \<Rightarrow> string" where
  "trim_start_matches p s =
     (if p \<noteq> [] \<and> starts_with s p then trim_start_matches p (drop (length p) s) else s)"
  by pat_completeness auto
termination
  by (relation "measure (\<lambda>(p, s). length s)") (auto simp: starts_with_iff)

declare trim_start_matches.simps [simp del]

lemma trim_start_matches_id: "\<not> starts_with s p \<Longrightarrow> trim_start_matches p s = s"
  by (simp add: trim_start_matches.simps)

lemma trim_start_matches_once:
  "p \<noteq> [] \<Longrightarrow> \<not> starts_with s p \<Longrightarrow> trim_start_matches p (p @ s) = s"
  by (simp add: trim_start_matches.simps [of p "p @ s"] trim_start_matches_id)

text \<open>An ASCII string that neither begins nor ends in white space is its own trimming, and one
  leading blank is removed.\<close>

lemma trim_ascii:
  assumes "is_ascii s" and "s \<noteq> []" and "\<not> ascii_ws (hd s)" and "\<not> ascii_ws (last s)"
  shows "trim s = s" and "trim (CHR '' '' # s) = s"
proof -
  obtain a r where s: "s = a # r" using assms(2) by (cases s) auto
  obtain b q where s': "s = q @ [b]" using assms(2) by (metis append_butlast_last_id)
  let ?m = "map (\<lambda>c. [c]) s"
  have d1: "dropWhile is_whitespace ?m = ?m" using assms(3) s by simp
  have d2: "dropWhile is_whitespace (rev ?m) = rev ?m" using assms(4) s' by simp
  have con: "concat ?m = s" by (induction s) auto
  show "trim s = s" by (simp add: trim_def chars_ascii [OF assms(1)] d1 d2 con)
  have "is_whitespace '' ''" by (simp add: ascii_ws_def)
  then show "trim (CHR '' '' # s) = s"
    by (simp add: trim_def chars_ascii_Cons chars_ascii [OF assms(1)] d1 d2 con
        del: is_whitespace_single)
qed

lemma words_of_ascii:
  "is_ascii s \<Longrightarrow> list_all (\<lambda>c. \<not> ascii_ws c) s \<Longrightarrow>
   words_of w (map (\<lambda>c. [c]) s @ cs) = words_of (w @ s) cs"
  by (induction s arbitrary: w) auto

subsection \<open>Numbers\<close>

definition digit :: "nat \<Rightarrow> char" where
  "digit d = char_of (48 + d)"

definition digit_val :: "char \<Rightarrow> nat option" where
  "digit_val c = (let n = (of_char c :: nat) in if 48 \<le> n \<and> n \<le> 57 then Some (n - 48) else None)"

lemma digit_val_digit [simp]: "d < 10 \<Longrightarrow> digit_val (digit d) = Some d"
  by (simp add: digit_val_def digit_def Let_def)

text \<open>\<open>to_string\<close> of an unsigned number.\<close>

fun dec_string :: "nat \<Rightarrow> string" where
  "dec_string n = (if n < 10 then [digit n] else dec_string (n div 10) @ [digit (n mod 10)])"

declare dec_string.simps [simp del]

text \<open>
  \<open>str::parse::<u16>\<close>: an optional plus sign, then at least one digit; every step of the
  accumulation is checked, as \<open>checked_mul\<close> and \<open>checked_add\<close> do.
\<close>

fun parse_digits :: "nat \<Rightarrow> string \<Rightarrow> nat option" where
  "parse_digits acc [] = Some acc"
| "parse_digits acc (c # cs) =
     (case digit_val c of
        None \<Rightarrow> None
      | Some d \<Rightarrow> if acc * 10 + d < 65536 then parse_digits (acc * 10 + d) cs else None)"

definition parse_u16 :: "string \<Rightarrow> u16 option" where
  "parse_u16 s =
     (let ds = (if starts_with s ''+'' then tl s else s)
      in if ds = [] then None else map_option of_nat (parse_digits 0 ds))"

lemma parse_digits_append:
  "parse_digits acc (xs @ ys) = Option.bind (parse_digits acc xs) (\<lambda>v. parse_digits v ys)"
  by (induction acc xs rule: parse_digits.induct) (auto split: option.splits)

lemma parse_dec_string: "n < 65536 \<Longrightarrow> parse_digits 0 (dec_string n) = Some n"
proof (induction n rule: dec_string.induct)
  case (1 n)
  show ?case
  proof (cases "n < 10")
    case True
    with "1.prems" show ?thesis by (simp add: dec_string.simps [of n])
  next
    case False
    with "1.prems" have "n div 10 < 65536" by simp
    with "1.IH" [OF False] have IH: "parse_digits 0 (dec_string (n div 10)) = Some (n div 10)"
      by simp
    have "n div 10 * 10 + n mod 10 = n" by simp
    with False IH "1.prems" show ?thesis
      by (simp add: dec_string.simps [of n] parse_digits_append)
  qed
qed

lemma dec_string_nonempty [simp]: "dec_string n \<noteq> []"
  by (simp add: dec_string.simps [of n])

lemma dec_string_digits: "c \<in> set (dec_string n) \<Longrightarrow> \<exists>d < 10. c = digit d"
proof (induction n rule: dec_string.induct)
  case (1 n)
  show ?case
  proof (cases "n < 10")
    case True
    with "1.prems" show ?thesis by (auto simp: dec_string.simps [of n])
  next
    case False
    from "1.prems" False consider "c \<in> set (dec_string (n div 10))" | "c = digit (n mod 10)"
      by (auto simp: dec_string.simps [of n])
    then show ?thesis
    proof cases
      case 1
      with "1.IH" [OF False] show ?thesis by simp
    next
      case 2
      then show ?thesis by (intro exI [of _ "n mod 10"]) simp
    qed
  qed
qed

lemma digit_neq: "d < 10 \<Longrightarrow> digit_val c = None \<Longrightarrow> digit d \<noteq> c"
  by (metis digit_val_digit option.distinct(1))

lemma dec_string_no: "digit_val c = None \<Longrightarrow> c \<notin> set (dec_string n)"
  using dec_string_digits digit_neq by blast

lemma dec_string_ascii: "is_ascii (dec_string n)"
proof -
  have "(of_char c :: nat) < 128" if "c \<in> set (dec_string n)" for c
    using dec_string_digits [OF that] by (auto simp: digit_def)
  then show ?thesis by (simp add: is_ascii_def list_all_iff)
qed

theorem parse_u16_dec_string: "parse_u16 (dec_string (unat p)) = Some p"
proof -
  have "CHR ''+'' \<notin> set (dec_string (unat p))"
    by (rule dec_string_no) (simp add: digit_val_def Let_def)
  then have "\<not> starts_with (dec_string (unat p)) ''+''"
    by (auto simp: starts_with_iff)
  with unat_u16_less [of p] show ?thesis
    by (simp add: parse_u16_def parse_dec_string)
qed

subsection \<open>Addresses\<close>

text \<open>
  \<open>u16::from_be_bytes\<close>, and the \<open>Display\<close> of \<open>Ipv4Addr\<close> and \<open>Ipv6Addr\<close>: dotted
  decimal, and the groups in lower-case hexadecimal with the first longest run of at least two
  zero groups compressed; an IPv4-mapped address prints its last 32 bits in dotted decimal.
\<close>

definition u16_from_be :: "u8 \<Rightarrow> u8 \<Rightarrow> u16" where
  "u16_from_be a b = of_nat (unat a * 256 + unat b)"

definition u16_be_bytes :: "u16 \<Rightarrow> u8 list" where
  "u16_be_bytes p = [of_nat (unat p div 256), of_nat (unat p mod 256)]"

lemma u16_from_be_bytes:
  "u16_from_be (of_nat (unat p div 256)) (of_nat (unat p mod 256)) = p"
proof -
  have "unat p div 256 < 256" using unat_u16_less [of p] by simp
  moreover have "unat p mod 256 < 256" by simp
  ultimately have "unat p div 256 * 256 + unat p mod 256 = unat p"
    and "unat (of_nat (unat p div 256) :: u8) = unat p div 256"
    and "unat (of_nat (unat p mod 256) :: u8) = unat p mod 256"
    by (simp_all only: unat_of_nat_u8 div_mult_mod_eq)
  then show ?thesis by (simp add: u16_from_be_def)
qed

lemma unat_u16_from_be: "unat (u16_from_be a b) = unat a * 256 + unat b"
proof -
  have "unat a * 256 + unat b < 65536" using unat_u8_less [of a] unat_u8_less [of b] by simp
  then show ?thesis by (simp only: u16_from_be_def unat_of_nat_u16)
qed

definition ipv4_to_string :: "u8 \<Rightarrow> u8 \<Rightarrow> u8 \<Rightarrow> u8 \<Rightarrow> string" where
  "ipv4_to_string a b c d =
     dec_string (unat a) @ ''.'' @ dec_string (unat b) @ ''.'' @
     dec_string (unat c) @ ''.'' @ dec_string (unat d)"

definition hex_digit :: "nat \<Rightarrow> char" where
  "hex_digit d = (if d < 10 then digit d else char_of (87 + d))"

fun hex_string :: "nat \<Rightarrow> string" where
  "hex_string n =
     (if n < 16 then [hex_digit n] else hex_string (n div 16) @ [hex_digit (n mod 16)])"

declare hex_string.simps [simp del]

fun groups_to_string :: "u16 list \<Rightarrow> string" where
  "groups_to_string [] = []"
| "groups_to_string [g] = hex_string (unat g)"
| "groups_to_string (g # gs) = hex_string (unat g) @ '':'' @ groups_to_string gs"

fun zero_span :: "nat \<Rightarrow> nat \<times> nat \<Rightarrow> nat \<times> nat \<Rightarrow> u16 list \<Rightarrow> nat \<times> nat" where
  "zero_span i longest current [] = longest"
| "zero_span i longest current (g # gs) =
     (if g = 0 then
        let start = (if snd current = 0 then i else fst current);
            current' = (start, Suc (snd current))
        in zero_span (Suc i) (if snd current' > snd longest then current' else longest) current' gs
      else zero_span (Suc i) longest (0, 0) gs)"

fun be_groups :: "u8 list \<Rightarrow> u16 list" where
  "be_groups (a # b # r) = u16_from_be a b # be_groups r"
| "be_groups _ = []"

definition ipv6_to_string :: "u8 list \<Rightarrow> string" where
  "ipv6_to_string bs =
     (let gs = be_groups bs; span = zero_span 0 (0, 0) (0, 0) gs in
      if take 6 gs = [0, 0, 0, 0, 0, 0xFFFF] then
        ''::ffff:'' @ ipv4_to_string (byte_at bs 12) (byte_at bs 13) (byte_at bs 14) (byte_at bs 15)
      else if snd span > 1 then
        groups_to_string (take (fst span) gs) @ ''::'' @
        groups_to_string (drop (fst span + snd span) gs)
      else groups_to_string gs)"

end
