(* ===== verification/Net_Stream.thy ===== *)
theory Net_Stream
  imports Rust_Str
begin

section \<open>Client streams and asynchronous calls (src/stream.rs, src/utils.rs)\<close>

text \<open>
  \<open>ClientStream\<close> is a plain TCP stream or a TLS stream over one. Its state here is what the
  peer will deliver (one event per byte, stamped with its arrival in milliseconds), the clock,
  the deadline of the enclosing \<open>timeout\<close> if there is one, and what was written so far. An
  \<open>async\<close> function of the source is a function from the stream to an outcome and the stream
  after it; \<open>await m f\<close> is \<open>let x = m.await?; f(x)\<close>.
  A socket call returns as soon as at least one event is due, with everything that is due at
  that time, so a message that arrives in several segments is seen in several pieces; \<open>lags\<close>
  lets any amount of time pass before each call, and arrivals catch up during it.
\<close>

subsection \<open>Errors, outcomes and the stream\<close>

datatype io_kind = UnexpectedEof | InvalidData | TimedOut | OtherKind string

datatype io_error = IoError io_kind string

text \<open>
  An awaited call completes with a value or an error, is cut off by the deadline of the
  enclosing \<open>timeout\<close>, never completes because the peer stays silent, or panics.
\<close>

datatype ('e, 'a) outcome = Done 'a | Failed 'e | Elapsed | Hangs | Panicked

datatype rx_event = Byte u8 | Fin | Broken io_error

datatype stream_kind = Plain | Tls

text \<open>
  \<open>peer_error\<close> is what \<open>peer_addr\<close> answers when it fails, and \<open>shut_error\<close> the same for
  shutting the stream down. \<open>dialled\<close> and \<open>upstream\<close> record
  what is done for this client on other sockets: the addresses dialled, in order, and the bytes
  written to the target.
\<close>

record client_stream =
  kind :: stream_kind
  peer_error :: "io_error option"
  rx :: "(nat \<times> rx_event) list"
  clock :: nat
  deadline :: "nat option"
  lags :: "nat list"
  tx :: "u8 list"
  tx_limit :: "(nat \<times> io_error) option"
  shut_error :: "io_error option"
  dialled :: "string list"
  upstream :: "u8 list"

type_synonym ('e, 'a) async = "client_stream \<Rightarrow> ('e, 'a) outcome \<times> client_stream"

subsection \<open>Sequencing\<close>

definition ret :: "'a \<Rightarrow> ('e, 'a) async" where
  "ret x s = (Done x, s)"

definition fail :: "'e \<Rightarrow> ('e, 'a) async" where
  "fail e s = (Failed e, s)"

definition await :: "('e, 'a) async \<Rightarrow> ('a \<Rightarrow> ('e, 'b) async) \<Rightarrow> ('e, 'b) async" where
  "await m f s =
     (case m s of
        (Done x, s') \<Rightarrow> f x s'
      | (Failed e, s') \<Rightarrow> (Failed e, s')
      | (Elapsed, s') \<Rightarrow> (Elapsed, s')
      | (Hangs, s') \<Rightarrow> (Hangs, s')
      | (Panicked, s') \<Rightarrow> (Panicked, s'))"

definition map_err :: "('e \<Rightarrow> 'f) \<Rightarrow> ('e, 'a) async \<Rightarrow> ('f, 'a) async" where
  "map_err g m s =
     (case m s of
        (Done x, s') \<Rightarrow> (Done x, s')
      | (Failed e, s') \<Rightarrow> (Failed (g e), s')
      | (Elapsed, s') \<Rightarrow> (Elapsed, s')
      | (Hangs, s') \<Rightarrow> (Hangs, s')
      | (Panicked, s') \<Rightarrow> (Panicked, s'))"

text \<open>The value of a call whatever it is, an error included: \<open>let r = m.await;\<close>.\<close>

definition attempt :: "('e, 'a) async \<Rightarrow> ('f, 'e + 'a) async" where
  "attempt m s =
     (case m s of
        (Done x, s') \<Rightarrow> (Done (Inr x), s')
      | (Failed e, s') \<Rightarrow> (Done (Inl e), s')
      | (Elapsed, s') \<Rightarrow> (Elapsed, s')
      | (Hangs, s') \<Rightarrow> (Hangs, s')
      | (Panicked, s') \<Rightarrow> (Panicked, s'))"

definition panic :: "('e, 'a) async" where
  "panic s = (Panicked, s)"

lemma await_cong [fundef_cong]:
  assumes "m s = m' s'"
    and "\<And>x t. m' s' = (Done x, t) \<Longrightarrow> f x t = f' x t"
  shows "await m f s = await m' f' s'"
  using assms by (auto simp: await_def split: prod.splits outcome.splits)

lemma await_ret [simp]: "await (ret x) f = f x"
  by (simp add: await_def ret_def fun_eq_iff)

lemma await_fail [simp]: "await (fail e) f = fail e"
  by (simp add: await_def fail_def fun_eq_iff)

lemma await_assoc: "await (await m f) g = await m (\<lambda>x. await (f x) g)"
  by (auto simp: await_def fun_eq_iff split: prod.splits outcome.splits)

lemma await_Done: "m s = (Done x, t) \<Longrightarrow> await m f s = f x t"
  by (simp add: await_def)

lemma await_Failed: "m s = (Failed e, t) \<Longrightarrow> await m f s = (Failed e, t)"
  by (simp add: await_def)

lemma await_Done_iff:
  "await m f s = (Done y, u) \<longleftrightarrow> (\<exists>x t. m s = (Done x, t) \<and> f x t = (Done y, u))"
  by (auto simp: await_def split: prod.splits outcome.splits)

lemma await_DoneE:
  assumes "await m f s = (Done y, u)"
  obtains x t where "m s = (Done x, t)" and "f x t = (Done y, u)"
  using assms by (auto simp: await_def split: prod.splits outcome.splits)

subsection \<open>Socket calls\<close>

definition pass_time :: "client_stream \<Rightarrow> client_stream" where
  "pass_time s =
     (case lags s of
        [] \<Rightarrow> s
      | d # ds \<Rightarrow> s\<lparr>clock := clock s + d, lags := ds\<rparr>)"

text \<open>Wait for the next event of the peer; a deadline cuts the wait off.\<close>

definition wait_rx :: "(io_error, rx_event) async" where
  "wait_rx s0 =
     (let s = pass_time s0 in
      case rx s of
        [] \<Rightarrow>
          (case deadline s of
             None \<Rightarrow> (Hangs, s)
           | Some d \<Rightarrow> (Elapsed, s\<lparr>clock := max (clock s) d\<rparr>))
      | (t, ev) # _ \<Rightarrow>
          if t \<le> clock s then (Done ev, s)
          else (case deadline s of
                  None \<Rightarrow> (Done ev, s\<lparr>clock := t\<rparr>)
                | Some d \<Rightarrow>
                    if d < t then (Elapsed, s\<lparr>clock := max (clock s) d\<rparr>)
                    else (Done ev, s\<lparr>clock := t\<rparr>)))"

fun ready_bytes :: "nat \<Rightarrow> (nat \<times> rx_event) list \<Rightarrow> u8 list" where
  "ready_bytes now ((t, Byte b) # r) = (if t \<le> now then b # ready_bytes now r else [])"
| "ready_bytes now _ = []"

text \<open>
  \<open>peek\<close> and \<open>read\<close> into a buffer of \<open>n > 0\<close> bytes answer the bytes seen, none at the
  end of the stream. Only \<open>read\<close> consumes them.
\<close>

definition peek :: "nat \<Rightarrow> (io_error, u8 list) async" where
  "peek n = await wait_rx (\<lambda>ev.
     case ev of
       Byte b \<Rightarrow> (\<lambda>s. (Done (take n (ready_bytes (clock s) (rx s))), s))
     | Fin \<Rightarrow> ret []
     | Broken e \<Rightarrow> fail e)"

definition read :: "nat \<Rightarrow> (io_error, u8 list) async" where
  "read n = await (peek n) (\<lambda>bs s. (Done bs, s\<lparr>rx := drop (length bs) (rx s)\<rparr>))"

definition early_eof :: io_error where
  "early_eof = IoError UnexpectedEof ''early eof''"

text \<open>
  A plain stream is peeked at, a TLS stream can only be read, after a call of \<open>peer_addr\<close>.
\<close>

definition peer_addr :: "(io_error, unit) async" where
  "peer_addr s = (case peer_error s of None \<Rightarrow> ret () s | Some e \<Rightarrow> fail e s)"

definition peek_or_read :: "nat \<Rightarrow> (io_error, u8 list) async" where
  "peek_or_read n s =
     (case kind s of
        Plain \<Rightarrow> peek n s
      | Tls \<Rightarrow> await peer_addr (\<lambda>_. read n) s)"

function read_exact :: "nat \<Rightarrow> (io_error, u8 list) async" where
  "read_exact n =
     (if n = 0 then ret []
      else await (read n) (\<lambda>bs.
        if bs = [] then fail early_eof
        else await (read_exact (n - length bs)) (\<lambda>cs. ret (bs @ cs))))"
  by pat_completeness auto
termination
  by (relation "measure id") auto

declare read_exact.simps [simp del]

text \<open>
  \<open>write_all\<close>: the peer accepts everything, or only so many more bytes before the connection
  breaks with an error.
\<close>

definition write_all :: "u8 list \<Rightarrow> (io_error, unit) async" where
  "write_all bs s =
     (case tx_limit s of
        None \<Rightarrow> (Done (), s\<lparr>tx := tx s @ bs\<rparr>)
      | Some (k, e) \<Rightarrow>
          if length bs \<le> k
          then (Done (), s\<lparr>tx := tx s @ bs, tx_limit := Some (k - length bs, e)\<rparr>)
          else (Failed e, s\<lparr>tx := tx s @ take k bs, tx_limit := Some (0, e)\<rparr>))"

text \<open>
  \<open>timeout(d, m)\<close>: \<open>None\<close> if the deadline cut \<open>m\<close> off, and the result of \<open>m\<close>
  otherwise. The program never nests one timeout in another.
\<close>

definition timeout :: "nat \<Rightarrow> ('e, 'a) async \<Rightarrow> ('f, ('e + 'a) option) async" where
  "timeout d m s =
     (case m (s\<lparr>deadline := Some (clock s + d)\<rparr>) of
        (Done x, s') \<Rightarrow> (Done (Some (Inr x)), s'\<lparr>deadline := deadline s\<rparr>)
      | (Failed e, s') \<Rightarrow> (Done (Some (Inl e)), s'\<lparr>deadline := deadline s\<rparr>)
      | (Elapsed, s') \<Rightarrow> (Done None, s'\<lparr>deadline := deadline s\<rparr>)
      | (Hangs, s') \<Rightarrow> (Hangs, s'\<lparr>deadline := deadline s\<rparr>)
      | (Panicked, s') \<Rightarrow> (Panicked, s'\<lparr>deadline := deadline s\<rparr>))"

subsection \<open>Reading without a deadline\<close>

text \<open>
  The bytes the peer will deliver before the stream ends, breaks or falls silent, and the
  equality of two streams up to the time that has passed.
\<close>

fun inbound :: "(nat \<times> rx_event) list \<Rightarrow> u8 list" where
  "inbound ((t, Byte b) # r) = b # inbound r"
| "inbound _ = []"

definition idle_eq :: "client_stream \<Rightarrow> client_stream \<Rightarrow> bool" where
  "idle_eq s t \<longleftrightarrow> rx t = rx s \<and> tx t = tx s \<and> kind t = kind s \<and>
     deadline t = deadline s \<and> tx_limit t = tx_limit s \<and> peer_error t = peer_error s \<and>
     shut_error t = shut_error s \<and> dialled t = dialled s \<and> upstream t = upstream s"

lemma idle_eqD:
  assumes "idle_eq s t"
  shows "rx t = rx s" "tx t = tx s" "kind t = kind s" "deadline t = deadline s"
    "tx_limit t = tx_limit s" "peer_error t = peer_error s" "shut_error t = shut_error s"
    "dialled t = dialled s"
    "upstream t = upstream s"
  using assms by (simp_all add: idle_eq_def)

lemma idle_eq_refl [simp]: "idle_eq s s"
  by (simp add: idle_eq_def)

lemma idle_pass_time [simp]: "idle_eq s (pass_time s)"
  by (simp add: idle_eq_def pass_time_def split: list.splits)

lemma pass_time_frame [simp]:
  "rx (pass_time s) = rx s" "tx (pass_time s) = tx s" "kind (pass_time s) = kind s"
  "deadline (pass_time s) = deadline s" "tx_limit (pass_time s) = tx_limit s"
  "peer_error (pass_time s) = peer_error s" "shut_error (pass_time s) = shut_error s"
  "dialled (pass_time s) = dialled s"
  "upstream (pass_time s) = upstream s"
  by (simp_all add: pass_time_def split: list.splits)

lemma length_inbound: "length (inbound es) \<le> length es"
  by (induction es rule: inbound.induct) auto

lemma inbound_drop: "n \<le> length (inbound es) \<Longrightarrow> inbound (drop n es) = drop n (inbound es)"
  by (induction es arbitrary: n rule: inbound.induct) (auto simp: drop_Cons split: nat.splits)

lemma ready_bytes_prefix: "\<exists>k \<le> length (inbound es). ready_bytes now es = take k (inbound es)"
proof (induction es rule: inbound.induct)
  case (1 t b r)
  then obtain k where "k \<le> length (inbound r)" "ready_bytes now r = take k (inbound r)" by blast
  then show ?case
    by (cases "t \<le> now") (auto intro: exI [of _ "Suc k"] exI [of _ 0])
qed auto

text \<open>An arrival at \<open>t\<close> is not cut off by the deadline.\<close>

definition due :: "client_stream \<Rightarrow> nat \<Rightarrow> bool" where
  "due s t \<longleftrightarrow> (case deadline s of None \<Rightarrow> True | Some d \<Rightarrow> t \<le> d)"

lemma due_None: "deadline s = None \<Longrightarrow> due s t"
  by (simp add: due_def)

lemma wait_rx_event:
  assumes "due s t" and "rx s = (t, ev) # r"
  shows "\<exists>s'. wait_rx s = (Done ev, s') \<and> idle_eq s s' \<and> t \<le> clock s'"
  using assms by (auto simp: wait_rx_def Let_def idle_eq_def due_def split: option.splits)

lemma wait_rx_silent:
  assumes "deadline s = None" and "rx s = []"
  shows "\<exists>s'. wait_rx s = (Hangs, s') \<and> idle_eq s s'"
  using assms by (simp add: wait_rx_def Let_def)

lemma peek_bytes:
  assumes "due s t" and "rx s = (t, Byte b) # r" and "0 < n"
  shows "\<exists>s' k. peek n s = (Done (take k (inbound (rx s))), s') \<and> idle_eq s s' \<and>
    0 < k \<and> k \<le> n \<and> k \<le> length (inbound (rx s))"
proof -
  from wait_rx_event [OF assms(1,2)] obtain s' where
    w: "wait_rx s = (Done (Byte b), s')" and eq: "idle_eq s s'" and t: "t \<le> clock s'" by blast
  from eq have rx': "rx s' = rx s" by (simp add: idle_eq_def)
  from ready_bytes_prefix obtain j where j: "j \<le> length (inbound (rx s))"
    and rb: "ready_bytes (clock s') (rx s) = take j (inbound (rx s))" by blast
  from rb t assms(2) have "0 < j" by (cases j) auto
  with w eq rx' rb j assms(3) show ?thesis
    by (intro exI [of _ s'] exI [of _ "min n j"]) (simp add: peek_def await_Done)
qed

lemma read_peek: "peek n s = (Done bs, s') \<Longrightarrow>
  read n s = (Done bs, s'\<lparr>rx := drop (length bs) (rx s')\<rparr>)"
  by (simp add: read_def await_Done)

lemma read_bytes:
  assumes "due s t" and "rx s = (t, Byte b) # r" and "0 < n"
  shows "\<exists>s' k. read n s = (Done (take k (inbound (rx s))), s') \<and>
    idle_eq (s\<lparr>rx := drop k (rx s)\<rparr>) s' \<and> 0 < k \<and> k \<le> n \<and> k \<le> length (inbound (rx s))"
proof -
  from peek_bytes [OF assms] obtain s' k where
    p: "peek n s = (Done (take k (inbound (rx s))), s')" and eq: "idle_eq s s'"
    and k: "0 < k" "k \<le> n" "k \<le> length (inbound (rx s))" by blast
  let ?t = "s'\<lparr>rx := drop k (rx s')\<rparr>"
  from read_peek [OF p] k have "read n s = (Done (take k (inbound (rx s))), ?t)"
    by (simp add: min_absorb2)
  moreover from eq have "idle_eq (s\<lparr>rx := drop k (rx s)\<rparr>) ?t" by (simp add: idle_eq_def)
  ultimately show ?thesis using k by blast
qed

lemma read_fin:
  assumes "deadline s = None" and "rx s = (t, Fin) # r"
  shows "\<exists>s'. read n s = (Done [], s') \<and> idle_eq s s'"
proof -
  from wait_rx_event [OF due_None [OF assms(1)] assms(2)] obtain s' where
    "wait_rx s = (Done Fin, s')" and "idle_eq s s'" by blast
  then show ?thesis
    by (intro exI [of _ s']) (simp add: read_def peek_def await_def ret_def)
qed

lemma read_broken:
  assumes "deadline s = None" and "rx s = (t, Broken e) # r"
  shows "\<exists>s'. read n s = (Failed e, s') \<and> idle_eq s s'"
proof -
  from wait_rx_event [OF due_None [OF assms(1)] assms(2)] obtain s' where
    "wait_rx s = (Done (Broken e), s')" and "idle_eq s s'" by blast
  then show ?thesis
    by (intro exI [of _ s']) (simp add: read_def peek_def await_def fail_def)
qed

lemma read_silent:
  assumes "deadline s = None" and "rx s = []"
  shows "\<exists>s'. read n s = (Hangs, s') \<and> idle_eq s s'"
proof -
  from wait_rx_silent [OF assms] obtain s' where "wait_rx s = (Hangs, s')" and "idle_eq s s'"
    by blast
  then show ?thesis by (intro exI [of _ s']) (simp add: read_def peek_def await_def)
qed

text \<open>
  The result of \<open>read_exact\<close> depends on the bytes alone: \<open>n\<close> of them if they come, and else
  what ends the stream.
\<close>

fun stream_end :: "(nat \<times> rx_event) list \<Rightarrow> (io_error, 'a) outcome" where
  "stream_end ((t, Byte b) # r) = stream_end r"
| "stream_end ((t, Fin) # r) = Failed early_eof"
| "stream_end ((t, Broken e) # r) = Failed e"
| "stream_end [] = Hangs"

definition exact_result :: "nat \<Rightarrow> (nat \<times> rx_event) list \<Rightarrow> (io_error, u8 list) outcome" where
  "exact_result n es =
     (if n \<le> length (inbound es) then Done (take n (inbound es)) else stream_end es)"

lemma stream_end_drop: "k \<le> length (inbound es) \<Longrightarrow> stream_end (drop k es) = stream_end es"
  by (induction es arbitrary: k rule: inbound.induct) (auto simp: drop_Cons split: nat.splits)

lemma stream_end_not_Done [simp]: "stream_end es \<noteq> Done x" "stream_end es \<noteq> Elapsed"
  by (induction es rule: stream_end.induct) auto

lemma read_exact_0 [simp]: "read_exact 0 = ret []"
  by (subst read_exact.simps) simp

lemma exact_result_split:
  assumes "k \<le> n" and "k \<le> length (inbound es)"
  shows "exact_result n es =
    (case exact_result (n - k) (drop k es) of
       Done cs \<Rightarrow> Done (take k (inbound es) @ cs) | r \<Rightarrow> r)"
proof (cases "n \<le> length (inbound es)")
  case True
  have "take k (inbound es) @ take (n - k) (drop k (inbound es)) = take n (inbound es)"
    using assms(1) by (metis le_add_diff_inverse take_add)
  with True assms show ?thesis by (simp add: exact_result_def inbound_drop)
next
  case False
  with assms have "\<not> n - k \<le> length (inbound es) - k" by simp
  with assms have "exact_result (n - k) (drop k es) = stream_end es"
    by (simp add: exact_result_def inbound_drop stream_end_drop)
  with False show ?thesis
    by (cases "stream_end es :: (io_error, u8 list) outcome") (simp_all add: exact_result_def)
qed

lemma read_exact_after_read:
  assumes "read n s = (Done bs, u)" and "bs \<noteq> []"
    and "read_exact (n - length bs) u = (exact_result (n - length bs) (drop (length bs) es), v)"
    and "length bs \<le> n" and "bs = take (length bs) (inbound es)" and "length bs \<le> length (inbound es)"
  shows "read_exact n s = (exact_result n es, v)"
proof -
  have "n \<noteq> 0" using assms(2,4) by (cases bs) auto
  then have "read_exact n s = await (read_exact (n - length bs)) (\<lambda>cs. ret (bs @ cs)) u"
    using assms(2) by (simp add: read_exact.simps [of n] await_Done [of "read n" s, OF assms(1)])
  with assms(3,5) exact_result_split [OF assms(4,6)] show ?thesis
    by (simp add: await_def ret_def split: outcome.splits)
qed

lemma read_exact_result:
  assumes "deadline s = None"
  shows "\<exists>s'. read_exact n s = (exact_result n (rx s), s') \<and>
    idle_eq (s\<lparr>rx := drop (min n (length (inbound (rx s)))) (rx s)\<rparr>) s'"
  using assms
proof (induction n arbitrary: s rule: less_induct)
  case (less n)
  note step = read_exact.simps [of n] exact_result_def await_def idle_eq_def
  consider (zero) "n = 0" | (silent) "0 < n" "rx s = []" | (fin) t r where "0 < n" "rx s = (t, Fin) # r"
    | (broken) t e r where "0 < n" "rx s = (t, Broken e) # r"
    | (byte) t b r where "0 < n" "rx s = (t, Byte b) # r"
    by (metis gr0I list.exhaust prod.exhaust rx_event.exhaust)
  then show ?case
  proof cases
    case zero
    then show ?thesis by (simp add: exact_result_def ret_def)
  next
    case silent
    with read_silent [OF less.prems silent(2), of n] show ?thesis by (auto simp: step)
  next
    case fin
    with read_fin [OF less.prems fin(2), of n] show ?thesis by (auto simp: step fail_def)
  next
    case broken
    with read_broken [OF less.prems broken(2), of n] show ?thesis by (auto simp: step)
  next
    case byte
    let ?m = "length (inbound (rx s))"
    from read_bytes [OF due_None [OF less.prems] byte(2) byte(1)] obtain u k where
      rd: "read n s = (Done (take k (inbound (rx s))), u)"
      and eq: "idle_eq (s\<lparr>rx := drop k (rx s)\<rparr>) u"
      and k: "0 < k" "k \<le> n" "k \<le> ?m" by auto
    from eq less.prems have dl: "deadline u = None" and rxu: "rx u = drop k (rx s)"
      by (simp_all add: idle_eq_def)
    from k byte have "n - k < n" by simp
    from less.IH [OF this dl] obtain v where
      ih: "read_exact (n - k) u = (exact_result (n - k) (drop k (rx s)), v)"
      and eqv: "idle_eq (u\<lparr>rx := drop (min (n - k) (?m - k)) (rx u)\<rparr>) v"
      using k by (auto simp: rxu inbound_drop)
    from k have len: "length (take k (inbound (rx s))) = k" by simp
    from k have "take k (inbound (rx s)) \<noteq> []" by auto
    from read_exact_after_read [OF rd this] ih k len
    have "read_exact n s = (exact_result n (rx s), v)" by simp
    moreover have "k + min (n - k) (?m - k) = min n ?m" using k by simp
    with eq eqv have "idle_eq (s\<lparr>rx := drop (min n ?m) (rx s)\<rparr>) v"
      by (simp add: idle_eq_def rxu add.commute)
    ultimately show ?thesis by blast
  qed
qed

text \<open>With a deadline, the bytes that are due are read all the same.\<close>

lemma due_idle: "idle_eq (s\<lparr>rx := r\<rparr>) u \<Longrightarrow> due u t = due s t"
  by (simp add: idle_eq_def due_def)

lemma read_exact_in_time:
  assumes "n \<le> length (inbound (rx s))" and "\<forall>x \<in> set (take n (rx s)). due s (fst x)"
  shows "\<exists>s'. read_exact n s = (Done (take n (inbound (rx s))), s') \<and>
    idle_eq (s\<lparr>rx := drop n (rx s)\<rparr>) s'"
  using assms
proof (induction n arbitrary: s rule: less_induct)
  case (less n)
  show ?case
  proof (cases "n = 0")
    case True
    then show ?thesis by (simp add: ret_def)
  next
    case False
    with less.prems(1) obtain t b r where rx: "rx s = (t, Byte b) # r"
      by (cases "rx s" rule: inbound.cases) auto
    from less.prems(2) rx False have "due s t" by (cases n) auto
    from read_bytes [OF this rx] False obtain u k where
      rd: "read n s = (Done (take k (inbound (rx s))), u)"
      and eq: "idle_eq (s\<lparr>rx := drop k (rx s)\<rparr>) u"
      and k: "0 < k" "k \<le> n" "k \<le> length (inbound (rx s))" by blast
    from eq have rxu: "rx u = drop k (rx s)" by (simp add: idle_eq_def)
    have "take (n - k) (rx u) = drop k (take n (rx s))" by (simp add: rxu drop_take)
    with less.prems(2) due_idle [OF eq] have "\<forall>x \<in> set (take (n - k) (rx u)). due u (fst x)"
      by (auto dest: in_set_dropD)
    moreover have "n - k \<le> length (inbound (rx u))" using k less.prems(1) by (simp add: rxu inbound_drop)
    moreover have "n - k < n" using k by simp
    ultimately obtain v where
      ih: "read_exact (n - k) u = (Done (take (n - k) (inbound (rx u))), v)"
      and eqv: "idle_eq (u\<lparr>rx := drop (n - k) (rx u)\<rparr>) v" using less.IH by blast
    have "read_exact n s = (exact_result n (rx s), v)"
    proof (rule read_exact_after_read [OF rd])
      show "take k (inbound (rx s)) \<noteq> []" using k by auto
      show "read_exact (n - length (take k (inbound (rx s)))) u =
        (exact_result (n - length (take k (inbound (rx s)))) (drop (length (take k (inbound (rx s)))) (rx s)), v)"
        using ih k less.prems(1) by (simp add: rxu exact_result_def inbound_drop min_absorb2)
    qed (use k in \<open>simp_all add: min_absorb2\<close>)
    moreover have "idle_eq (s\<lparr>rx := drop n (rx s)\<rparr>) v"
      using eq eqv k by (simp add: idle_eq_def rxu)
    ultimately show ?thesis using less.prems(1) by (simp add: exact_result_def)
  qed
qed

subsection \<open>Consumption\<close>

text \<open>With or without a deadline, a call that completes has consumed what it answers.\<close>

lemma length_ready_bytes: "length (ready_bytes now es) \<le> length es"
  by (induction now es rule: ready_bytes.induct) auto

lemma wait_rx_frame: "wait_rx s = (r, s') \<Longrightarrow> rx s' = rx s \<and> tx s' = tx s"
  by (auto simp: wait_rx_def Let_def split: list.splits option.splits if_splits)

lemma peek_frame:
  assumes "peek n s = (Done bs, s')"
  shows "rx s' = rx s \<and> tx s' = tx s \<and> length bs \<le> length (rx s) \<and> length bs \<le> n"
proof -
  from assms obtain ev u where w: "wait_rx s = (Done ev, u)"
    and k: "(case ev of
       Byte b \<Rightarrow> (\<lambda>s. (Done (take n (ready_bytes (clock s) (rx s))), s))
     | Fin \<Rightarrow> ret [] | Broken e \<Rightarrow> fail e) u = (Done bs, s')"
    unfolding peek_def by (rule await_DoneE)
  from wait_rx_frame [OF w] k length_ready_bytes [of "clock u" "rx u"] show ?thesis
    by (cases ev) (auto simp: ret_def fail_def)
qed

lemma read_consumes:
  assumes "read n s = (Done bs, s')"
  shows "length (rx s') + length bs = length (rx s)"
proof -
  from assms obtain bs' u where p: "peek n s = (Done bs', u)"
    and "s' = u\<lparr>rx := drop (length bs') (rx u)\<rparr>" and "bs = bs'"
    by (auto simp: read_def await_Done_iff)
  with peek_frame [OF p] show ?thesis by simp
qed

lemma read_exact_consumes:
  "read_exact n s = (Done bs, s') \<Longrightarrow> length bs = n \<and> length (rx s') + n = length (rx s)"
proof (induction n arbitrary: s bs s' rule: less_induct)
  case (less n)
  show ?case
  proof (cases "n = 0")
    case True
    with less.prems show ?thesis by (simp add: ret_def)
  next
    case False
    with less.prems obtain as u where r: "read n s = (Done as, u)"
      and k: "(if as = [] then fail early_eof
        else await (read_exact (n - length as)) (\<lambda>cs. ret (as @ cs))) u = (Done bs, s')"
      by (auto simp: read_exact.simps [of n] await_Done_iff)
    from k have ne: "as \<noteq> []" by (auto simp: fail_def)
    with k obtain cs where c: "read_exact (n - length as) u = (Done cs, s')" "bs = as @ cs"
      by (auto simp: await_Done_iff ret_def)
    have "length as \<le> n"
    proof -
      from r obtain v where "peek n s = (Done as, v)"
        by (auto simp: read_def await_Done_iff)
      then show ?thesis by (simp add: peek_frame)
    qed
    with ne False have "n - length as < n" by simp
    from less.IH [OF this c(1)] read_consumes [OF r] \<open>length as \<le> n\<close> c(2) show ?thesis by auto
  qed
qed

text \<open>The bytes answered are the first ones that were to come, whatever the deadline.\<close>

definition same_writes :: "client_stream \<Rightarrow> client_stream \<Rightarrow> bool" where
  "same_writes s t \<longleftrightarrow> tx t = tx s \<and> tx_limit t = tx_limit s \<and> kind t = kind s \<and>
     deadline t = deadline s \<and> dialled t = dialled s \<and> upstream t = upstream s"

lemma same_writes_refl [simp]: "same_writes s s"
  by (simp add: same_writes_def)

lemma same_writes_rx [simp]: "same_writes s (t\<lparr>rx := r\<rparr>) \<longleftrightarrow> same_writes s t"
  by (simp add: same_writes_def)

lemma same_writes_trans: "same_writes s t \<Longrightarrow> same_writes t u \<Longrightarrow> same_writes s u"
  by (simp add: same_writes_def)

lemma wait_rx_writes: "wait_rx s = (r, s') \<Longrightarrow> same_writes s s'"
  by (auto simp: wait_rx_def Let_def same_writes_def split: list.splits option.splits if_splits)

lemma peek_Done:
  assumes "peek n s = (Done bs, s')"
  shows "rx s' = rx s \<and> same_writes s s' \<and> length bs \<le> n \<and>
    inbound (rx s) = bs @ inbound (drop (length bs) (rx s))"
proof -
  from assms obtain ev u where w: "wait_rx s = (Done ev, u)"
    and k: "(case ev of
       Byte b \<Rightarrow> (\<lambda>s. (Done (take n (ready_bytes (clock s) (rx s))), s))
     | Fin \<Rightarrow> ret [] | Broken e \<Rightarrow> fail e) u = (Done bs, s')"
    unfolding peek_def by (rule await_DoneE)
  from ready_bytes_prefix [where es = "rx u" and now = "clock u"] obtain j where
    j: "j \<le> length (inbound (rx u))" "ready_bytes (clock u) (rx u) = take j (inbound (rx u))"
    by blast
  show ?thesis
  proof (cases ev)
    case (Byte b)
    with k j have u: "u = s'" and bs: "bs = take (min n j) (inbound (rx u))"
      by (auto simp: min.commute)
    then have "length bs = min n j" using j by simp
    with bs u wait_rx_frame [OF w] wait_rx_writes [OF w] j show ?thesis
      by (simp add: inbound_drop)
  next
    case Fin
    with k wait_rx_frame [OF w] wait_rx_writes [OF w] show ?thesis by (simp add: ret_def)
  next
    case (Broken e)
    with k show ?thesis by (simp add: fail_def)
  qed
qed

lemma read_Done:
  assumes "read n s = (Done bs, s')"
  shows "rx s' = drop (length bs) (rx s) \<and> same_writes s s' \<and> length bs \<le> n \<and>
    inbound (rx s) = bs @ inbound (rx s')"
proof -
  from assms obtain u where p: "peek n s = (Done bs, u)"
    and "s' = u\<lparr>rx := drop (length bs) (rx u)\<rparr>"
    by (auto simp: read_def await_Done_iff)
  with peek_Done [OF p] show ?thesis by simp
qed

lemma read_exact_Done:
  "read_exact n s = (Done bs, s') \<Longrightarrow> length bs = n \<and>
   rx s' = drop n (rx s) \<and> inbound (rx s) = bs @ inbound (rx s') \<and> same_writes s s'"
proof (induction n arbitrary: s bs s' rule: less_induct)
  case (less n)
  show ?case
  proof (cases "n = 0")
    case True
    with less.prems show ?thesis by (simp add: ret_def)
  next
    case False
    with less.prems obtain as u where r: "read n s = (Done as, u)"
      and k: "(if as = [] then fail early_eof
        else await (read_exact (n - length as)) (\<lambda>cs. ret (as @ cs))) u = (Done bs, s')"
      by (auto simp: read_exact.simps [of n] await_Done_iff)
    from k have ne: "as \<noteq> []" by (auto simp: fail_def)
    with k obtain cs where c: "read_exact (n - length as) u = (Done cs, s')" "bs = as @ cs"
      by (auto simp: await_Done_iff ret_def)
    note as = read_Done [OF r]
    from ne as False have lt: "n - length as < n" by (cases as) auto
    note IH = less.IH [OF lt c(1)]
    from as have app: "inbound (rx s) = as @ inbound (rx u)" and sw: "same_writes s u"
      and le: "length as \<le> n" and dr: "rx u = drop (length as) (rx s)" by simp_all
    from IH have l: "length bs = n" using c(2) le by simp
    have i: "inbound (rx s) = bs @ inbound (rx s')" using app IH c(2) by simp
    have "rx s' = drop n (rx s)" using IH dr le by simp
    moreover have "same_writes s s'" using sw IH same_writes_trans by blast
    ultimately show ?thesis using l i by simp
  qed
qed

lemma write_all_Done:
  "write_all bs s = (Done x, s') \<Longrightarrow> tx s' = tx s @ bs \<and> rx s' = rx s \<and> kind s' = kind s \<and>
   deadline s' = deadline s \<and> dialled s' = dialled s \<and> upstream s' = upstream s"
  by (auto simp: write_all_def split: option.splits if_splits)

lemma map_err_Done [simp]: "map_err g m s = (Done x, t) \<longleftrightarrow> m s = (Done x, t)"
  by (auto simp: map_err_def split: prod.splits outcome.splits)

lemma ret_Done [simp]: "ret x s = (Done y, t) \<longleftrightarrow> y = x \<and> t = s"
  by (auto simp: ret_def)

lemma fail_not_Done [simp]: "fail e s \<noteq> (Done y, t)" "panic s \<noteq> (Done y, t)"
  by (simp_all add: fail_def panic_def)

text \<open>
  The loops of the source that read one byte at a time up to a zero byte (the user id of
  SOCKS4): each round consumes a byte of the input, so the loop ends.
\<close>

function read_nul :: "(io_error, u8 list) async" where
  "read_nul s = await (read_exact 1) (\<lambda>byte s'.
     if hd byte = 0 then ret [] s'
     else await read_nul (\<lambda>cs. ret (hd byte # cs)) s') s"
  by pat_completeness auto
termination
  by (relation "measure (\<lambda>s. length (rx s))") (auto dest: read_exact_consumes)

declare read_nul.simps [simp del]

lemma read_nul_Done:
  "read_nul s = (Done bs, s') \<Longrightarrow>
   inbound (rx s) = bs @ 0 # inbound (rx s') \<and> 0 \<notin> set bs \<and> same_writes s s'"
proof (induction s arbitrary: bs rule: read_nul.induct)
  case (1 s)
  from "1.prems" obtain b u where r: "read_exact 1 s = (Done b, u)"
    and k: "(if hd b = 0 then ret [] u else await read_nul (\<lambda>cs. ret (hd b # cs)) u) = (Done bs, s')"
    by (auto simp: read_nul.simps [of s] await_Done_iff)
  note r' = read_exact_Done [OF r]
  then obtain c where b: "b = [c]" by (metis One_nat_def length_0_conv length_Suc_conv)
  show ?case
  proof (cases "c = 0")
    case True
    with k b r' show ?thesis by simp
  next
    case False
    with k b obtain cs where cs: "read_nul u = (Done cs, s')" "bs = c # cs"
      by (auto simp: await_Done_iff)
    from False b have "hd b \<noteq> 0" by simp
    from "1.IH" [OF r this cs(1)] have IH: "inbound (rx u) = cs @ 0 # inbound (rx s')"
      "0 \<notin> set cs" "same_writes u s'" by simp_all
    from r' have "inbound (rx s) = b @ inbound (rx u)" "same_writes s u" by simp_all
    with IH False b cs(2) show ?thesis using same_writes_trans [of s u s'] by simp
  qed
qed

subsection \<open>Independence of segmentation\<close>

text \<open>
  Two streams deliver the same bytes, and end the same way, in segments that may differ in
  size and time. A call is \<open>segmentation_free\<close> if it cannot tell them apart.
\<close>

definition same_bytes :: "client_stream \<Rightarrow> client_stream \<Rightarrow> bool" where
  "same_bytes s t \<longleftrightarrow> map snd (rx s) = map snd (rx t) \<and> tx s = tx t \<and> kind s = kind t \<and>
     tx_limit s = tx_limit t \<and> peer_error s = peer_error t \<and>
     shut_error s = shut_error t \<and> dialled s = dialled t \<and>
     upstream s = upstream t \<and> deadline s = None \<and> deadline t = None"

definition segmentation_free :: "('e, 'a) async \<Rightarrow> bool" where
  "segmentation_free m \<longleftrightarrow> (\<forall>s t. same_bytes s t \<longrightarrow>
     fst (m s) = fst (m t) \<and> same_bytes (snd (m s)) (snd (m t)))"

named_theorems seg_intros

lemma segmentation_freeD:
  "segmentation_free m \<Longrightarrow> same_bytes s t \<Longrightarrow>
   fst (m s) = fst (m t) \<and> same_bytes (snd (m s)) (snd (m t))"
  by (simp add: segmentation_free_def)

lemma seg_ret [seg_intros]: "segmentation_free (ret x)"
  by (simp add: segmentation_free_def ret_def)

lemma seg_fail [seg_intros]: "segmentation_free (fail e)"
  by (simp add: segmentation_free_def fail_def)

lemma seg_if [seg_intros]:
  "(c \<Longrightarrow> segmentation_free m) \<Longrightarrow> (\<not> c \<Longrightarrow> segmentation_free m') \<Longrightarrow>
   segmentation_free (if c then m else m')"
  by simp

lemma seg_option [seg_intros]:
  "segmentation_free m \<Longrightarrow> (\<And>x. segmentation_free (f x)) \<Longrightarrow>
   segmentation_free (case r of None \<Rightarrow> m | Some x \<Rightarrow> f x)"
  by (cases r) simp_all

lemma seg_await_at:
  assumes "same_bytes s t"
    and "fst (m s) = fst (m t)" and "same_bytes (snd (m s)) (snd (m t))"
    and "\<And>x u v. m s = (Done x, u) \<Longrightarrow> m t = (Done x, v) \<Longrightarrow> same_bytes u v \<Longrightarrow>
      fst (f x u) = fst (f x v) \<and> same_bytes (snd (f x u)) (snd (f x v))"
  shows "fst (await m f s) = fst (await m f t) \<and>
    same_bytes (snd (await m f s)) (snd (await m f t))"
  using assms
  by (cases "m s"; cases "m t"; cases "fst (m s)") (auto simp: await_def)

lemma seg_await [seg_intros]:
  assumes "segmentation_free m" and "\<And>x. segmentation_free (f x)"
  shows "segmentation_free (await m f)"
  unfolding segmentation_free_def
proof (intro allI impI)
  fix s t assume st: "same_bytes s t"
  show "fst (await m f s) = fst (await m f t) \<and>
      same_bytes (snd (await m f s)) (snd (await m f t))"
    using segmentation_freeD [OF assms(1) st] segmentation_freeD [OF assms(2)]
    by (intro seg_await_at st) auto
qed

lemma seg_map_err [seg_intros]:
  assumes "segmentation_free m"
  shows "segmentation_free (map_err g m)"
  unfolding segmentation_free_def
proof (intro allI impI)
  fix s t assume "same_bytes s t"
  from segmentation_freeD [OF assms this]
  show "fst (map_err g m s) = fst (map_err g m t) \<and>
      same_bytes (snd (map_err g m s)) (snd (map_err g m t))"
    by (cases "m s"; cases "m t"; cases "fst (m s)") (auto simp: map_err_def)
qed

lemma seg_write_all [seg_intros]: "segmentation_free (write_all bs)"
  by (auto simp: segmentation_free_def write_all_def same_bytes_def split: option.splits)

lemma inbound_snd: "inbound es = concat (map (\<lambda>ev. case ev of Byte b \<Rightarrow> [b] | _ \<Rightarrow> [])
    (takeWhile (\<lambda>ev. \<exists>b. ev = Byte b) (map snd es)))"
  by (induction es rule: inbound.induct) auto

lemma stream_end_snd: "stream_end es =
    (case dropWhile (\<lambda>ev. \<exists>b. ev = Byte b) (map snd es) of
       Fin # _ \<Rightarrow> Failed early_eof | Broken e # _ \<Rightarrow> Failed e | _ \<Rightarrow> Hangs)"
  by (induction es rule: stream_end.induct) auto

lemma same_bytes_inbound: "same_bytes s t \<Longrightarrow> inbound (rx s) = inbound (rx t)"
  by (simp add: same_bytes_def inbound_snd)

lemma same_bytes_exact: "same_bytes s t \<Longrightarrow> exact_result n (rx s) = exact_result n (rx t)"
  by (simp add: same_bytes_def exact_result_def inbound_snd stream_end_snd)

lemma seg_read_exact [seg_intros]: "segmentation_free (read_exact n)"
  unfolding segmentation_free_def
proof (intro allI impI)
  fix s t assume st: "same_bytes s t"
  then have d: "deadline s = None" "deadline t = None" by (simp_all add: same_bytes_def)
  let ?k = "min n (length (inbound (rx s)))"
  from read_exact_result [OF d(1), of n] obtain u where
    u: "read_exact n s = (exact_result n (rx s), u)" "idle_eq (s\<lparr>rx := drop ?k (rx s)\<rparr>) u"
    by blast
  from read_exact_result [OF d(2), of n] obtain v where
    v: "read_exact n t = (exact_result n (rx t), v)" "idle_eq (t\<lparr>rx := drop ?k (rx t)\<rparr>) v"
    unfolding same_bytes_inbound [OF st] by blast
  have "map snd (drop ?k (rx s)) = map snd (drop ?k (rx t))"
    using st by (simp add: same_bytes_def drop_map [symmetric])
  with u v st have "same_bytes u v" by (simp add: same_bytes_def idle_eq_def)
  with u(1) v(1) same_bytes_exact [OF st, of n]
  show "fst (read_exact n s) = fst (read_exact n t) \<and>
      same_bytes (snd (read_exact n s)) (snd (read_exact n t))" by simp
qed

lemma seg_read_nul_at:
  "same_bytes s t \<Longrightarrow>
   fst (read_nul s) = fst (read_nul t) \<and> same_bytes (snd (read_nul s)) (snd (read_nul t))"
proof (induction s arbitrary: t rule: read_nul.induct)
  case (1 s)
  from segmentation_freeD [OF seg_read_exact "1.prems", of 1]
  have r: "fst (read_exact 1 s) = fst (read_exact 1 t)"
    "same_bytes (snd (read_exact 1 s)) (snd (read_exact 1 t))" by auto
  show ?case
    unfolding read_nul.simps [of s] read_nul.simps [of t]
  proof (rule seg_await_at [OF "1.prems" r])
    fix b u v
    assume b: "read_exact 1 s = (Done b, u)" and uv: "same_bytes u v"
    let ?k = "\<lambda>s'. if hd b = 0 then ret [] s' else await read_nul (\<lambda>cs. ret (hd b # cs)) s'"
    show "fst (?k u) = fst (?k v) \<and> same_bytes (snd (?k u)) (snd (?k v))"
    proof (cases "hd b = 0")
      case True
      with uv show ?thesis by (simp add: ret_def)
    next
      case False
      from "1.IH" [OF b False uv] have
        "fst (await read_nul (\<lambda>cs. ret (hd b # cs)) u) = fst (await read_nul (\<lambda>cs. ret (hd b # cs)) v)
        \<and> same_bytes (snd (await read_nul (\<lambda>cs. ret (hd b # cs)) u))
            (snd (await read_nul (\<lambda>cs. ret (hd b # cs)) v))"
        by (intro seg_await_at [OF uv]) (simp_all add: ret_def)
      with False show ?thesis by simp
    qed
  qed
qed

lemma seg_read_nul [seg_intros]: "segmentation_free read_nul"
  by (simp add: segmentation_free_def seg_read_nul_at)

subsection \<open>Transcripts\<close>

text \<open>
  \<open>transcript m i out r\<close>: on a stream without deadline whose peer accepts everything, and
  that delivers the bytes \<open>i\<close> first, \<open>m\<close> consumes exactly \<open>i\<close>, writes exactly
  \<open>out\<close> and completes with \<open>r\<close>, whatever follows \<open>i\<close> and however it is segmented.
\<close>

definition steady :: "client_stream \<Rightarrow> bool" where
  "steady s \<longleftrightarrow> deadline s = None \<and> tx_limit s = None \<and> shut_error s = None"

definition delivers :: "client_stream \<Rightarrow> u8 list \<Rightarrow> rx_event list \<Rightarrow> bool" where
  "delivers s bs es \<longleftrightarrow> map snd (rx s) = map Byte bs @ es"

definition transcript ::
  "('e, 'a) async \<Rightarrow> u8 list \<Rightarrow> u8 list \<Rightarrow> ('e, 'a) outcome \<Rightarrow> bool" where
  "transcript m i out r \<longleftrightarrow> (\<forall>s es. steady s \<and> delivers s i es \<longrightarrow>
     (\<exists>s'. m s = (r, s') \<and> steady s' \<and> delivers s' [] es \<and> tx s' = tx s @ out \<and> kind s' = kind s))"

named_theorems transcript_intros

lemma transcriptD:
  assumes "transcript m i out r" and "steady s" and "delivers s (i @ j) es"
  obtains s' where "m s = (r, s')" "steady s'" "delivers s' j es" "tx s' = tx s @ out"
    "kind s' = kind s"
proof -
  from assms(3) have "delivers s i (map Byte j @ es)" by (simp add: delivers_def)
  with assms(1,2) obtain s' where "m s = (r, s') \<and> steady s' \<and> delivers s' [] (map Byte j @ es) \<and>
      tx s' = tx s @ out \<and> kind s' = kind s"
    unfolding transcript_def by blast
  with that show ?thesis by (simp add: delivers_def)
qed

lemma transcript_ret [transcript_intros]: "transcript (ret x) [] [] (Done x)"
  by (simp add: transcript_def ret_def)

lemma transcript_fail [transcript_intros]: "transcript (fail e) [] [] (Failed e)"
  by (simp add: transcript_def fail_def)

lemma transcript_write [transcript_intros]: "transcript (write_all bs) [] bs (Done ())"
  by (simp add: transcript_def write_all_def steady_def delivers_def)

lemma delivers_inbound:
  assumes "delivers s i es"
  shows "take (length i) (inbound (rx s)) = i" and "length i \<le> length (inbound (rx s))"
    and "map snd (drop (length i) (rx s)) = es"
proof -
  from assms have m: "map snd (rx s) = map Byte i @ es" by (simp add: delivers_def)
  have conc: "concat (map (\<lambda>ev. case ev of Byte b \<Rightarrow> [b] | _ \<Rightarrow> []) (map Byte i)) = i"
    by (induction i) auto
  have "takeWhile (\<lambda>ev. \<exists>b. ev = Byte b) (map snd (rx s))
      = map Byte i @ takeWhile (\<lambda>ev. \<exists>b. ev = Byte b) es"
    unfolding m by (rule takeWhile_append2) auto
  then obtain rest where "inbound (rx s) = i @ rest" by (simp add: inbound_snd conc del: map_map)
  then show "take (length i) (inbound (rx s)) = i" "length i \<le> length (inbound (rx s))" by simp_all
  from m show "map snd (drop (length i) (rx s)) = es" by (simp add: drop_map [symmetric])
qed

lemma transcript_read [transcript_intros]:
  "n = length i \<Longrightarrow> transcript (read_exact n) i [] (Done i)"
  unfolding transcript_def
proof (intro allI impI)
  fix s es assume n: "n = length i" and s: "steady s \<and> delivers s i es"
  then have d: "deadline s = None" by (simp add: steady_def)
  from s have i: "take (length i) (inbound (rx s)) = i" "length i \<le> length (inbound (rx s))"
    "map snd (drop (length i) (rx s)) = es" using delivers_inbound by blast+
  from read_exact_result [OF d, of n] obtain s' where
    r: "read_exact n s = (exact_result n (rx s), s')"
    and eq: "idle_eq (s\<lparr>rx := drop (min n (length (inbound (rx s)))) (rx s)\<rparr>) s'" by blast
  from r n i have "read_exact n s = (Done i, s')" by (simp add: exact_result_def)
  with eq s n i show "\<exists>s'. read_exact n s = (Done i, s') \<and> steady s' \<and> delivers s' [] es \<and>
      tx s' = tx s @ [] \<and> kind s' = kind s"
    by (intro exI [of _ s']) (simp add: idle_eq_def steady_def delivers_def min_absorb1)
qed

lemma transcript_await:
  assumes "transcript m i out (Done x)" and "transcript (f x) j out' r"
  shows "transcript (await m f) (i @ j) (out @ out') r"
  unfolding transcript_def
proof (intro allI impI)
  fix s es assume s: "steady s \<and> delivers s (i @ j) es"
  then obtain u where u: "m s = (Done x, u)" "steady u" "delivers u j es" "tx u = tx s @ out"
    "kind u = kind s" using transcriptD [OF assms(1)] by blast
  from u(3) have "delivers u (j @ []) es" by simp
  then obtain v where "f x u = (r, v)" "steady v" "delivers v [] es" "tx v = tx u @ out'"
    "kind v = kind u" using transcriptD [OF assms(2) u(2)] by blast
  with u show "\<exists>s'. await m f s = (r, s') \<and> steady s' \<and> delivers s' [] es \<and>
      tx s' = tx s @ out @ out' \<and> kind s' = kind s"
    by (intro exI [of _ v]) (simp add: await_def)
qed

lemma transcript_await_fail:
  assumes "transcript m i out (Failed e)"
  shows "transcript (await m f) i out (Failed e)"
  using assms by (fastforce simp: transcript_def await_def)

lemma transcript_map_err:
  "transcript m i out (Done x) \<Longrightarrow> transcript (map_err g m) i out (Done x)"
  "transcript m i out (Failed e) \<Longrightarrow> transcript (map_err g m) i out (Failed (g e))"
  by (fastforce simp: transcript_def map_err_def)+

lemma transcript_step:
  assumes "transcript m i out (Done x)" and "transcript (f x) j out' r"
    and "is = i @ j" and "os = out @ out'"
  shows "transcript (await m f) is os r"
  using transcript_await [where f = f, OF assms(1,2)] assms(3,4) by simp

lemma transcript_Cons:
  assumes "transcript (read_exact 1) [b] [] (Done [b])" and "transcript (f [b]) i out r"
  shows "transcript (\<lambda>s. await (read_exact 1) f s) (b # i) out r"
  using transcript_await [where f = f, OF assms] by simp

lemma transcript_read_nul [transcript_intros]:
  "0 \<notin> set bs \<Longrightarrow> transcript read_nul (bs @ [0]) [] (Done bs)"
proof (induction bs)
  let ?k = "\<lambda>byte s'. if hd byte = 0 then ret [] s'
    else await read_nul (\<lambda>cs. ret (hd byte # cs)) s'"
  have eq: "read_nul = (\<lambda>s. await (read_exact 1) ?k s)"
    by (rule ext) (rule read_nul.simps)
  {
    case Nil
    have "?k [0] = ret []" by (simp add: fun_eq_iff)
    then have "transcript (?k [0]) [] [] (Done [])" by (simp only: transcript_ret)
    then have "transcript (\<lambda>s. await (read_exact 1) ?k s) [0] [] (Done [])"
      by (rule transcript_Cons [OF transcript_read, rotated]) simp
    then show ?case by (simp only: eq [symmetric] append_Nil)
  next
    case (Cons b bs)
    then have "?k [b] = await read_nul (\<lambda>cs. ret (b # cs))" by (simp add: fun_eq_iff)
    moreover have "transcript (await read_nul (\<lambda>cs. ret (b # cs))) (bs @ [0]) [] (Done (b # bs))"
      using Cons by (intro transcript_step [OF Cons.IH transcript_ret]) simp_all
    ultimately have "transcript (?k [b]) (bs @ [0]) [] (Done (b # bs))" by simp
    then have "transcript (\<lambda>s. await (read_exact 1) ?k s) (b # bs @ [0]) [] (Done (b # bs))"
      by (rule transcript_Cons [OF transcript_read, rotated]) simp
    then show ?case by (simp only: eq [symmetric] append_Cons)
  }
qed

lemma exchange_then: "c \<Longrightarrow> transcript m i out r \<Longrightarrow> transcript (if c then m else m') i out r"
  by simp

lemma exchange_else: "\<not> c \<Longrightarrow> transcript m' i out r \<Longrightarrow> transcript (if c then m else m') i out r"
  by simp

subsection \<open>Sample clients\<close>

text \<open>A plain client of a given kind, and the bytes of a text that arrive at one time.\<close>

definition sample_client :: "stream_kind \<Rightarrow> (nat \<times> rx_event) list \<Rightarrow> client_stream" where
  "sample_client k es =
     \<lparr>kind = k, peer_error = None, rx = es, clock = 0, deadline = None, lags = [], tx = [],
      tx_limit = None, shut_error = None, dialled = [], upstream = []\<rparr>"

definition arrives :: "nat \<Rightarrow> u8 list \<Rightarrow> (nat \<times> rx_event) list" where
  "arrives now bs = map (\<lambda>b. (now, Byte b)) bs"

lemma sample_client_simps [simp]:
  "kind (sample_client k es) = k" "peer_error (sample_client k es) = None" "rx (sample_client k es) = es"
  "clock (sample_client k es) = 0" "deadline (sample_client k es) = None" "lags (sample_client k es) = []"
  "tx (sample_client k es) = []" "shut_error (sample_client k es) = None"
  "tx_limit (sample_client k es) = None" "dialled (sample_client k es) = []"
  "upstream (sample_client k es) = []"
  by (simp_all add: sample_client_def)

lemma steady_client [simp]: "steady (sample_client k es)"
  by (simp add: steady_def)

lemma ready_bytes_arrived: "t \<le> now \<Longrightarrow> ready_bytes now (arrives t bs) = bs"
  by (induction bs) (simp_all add: arrives_def)

lemma peek_arrived:
  assumes "rx s = arrives t bs" and "bs \<noteq> []" and "length bs \<le> n" and "deadline s = None"
  shows "\<exists>u. peek n s = (Done bs, u) \<and> idle_eq s u"
proof -
  obtain b cs where "bs = b # cs" using assms(2) by (cases bs) auto
  with assms(1) have "rx s = (t, Byte b) # arrives t cs" by (simp add: arrives_def)
  from wait_rx_event [OF due_None [OF assms(4)] this] obtain u where
    w: "wait_rx s = (Done (Byte b), u)" and eq: "idle_eq s u" and t: "t \<le> clock u" by blast
  have "ready_bytes (clock u) (rx u) = bs"
    using t idle_eqD(1) [OF eq] by (simp add: assms(1) ready_bytes_arrived)
  with w eq assms(3) show ?thesis by (intro exI [of _ u]) (simp add: peek_def await_Done)
qed

definition arrives_after :: "nat \<Rightarrow> (nat \<times> rx_event) list \<Rightarrow> bool" where
  "arrives_after t es \<longleftrightarrow> (\<forall>x \<in> set es. t < fst x)"

lemma arrives_after_simps [simp]:
  "arrives_after t []"
  "arrives_after t (x # es) \<longleftrightarrow> t < fst x \<and> arrives_after t es"
  "arrives_after t (es @ fs) \<longleftrightarrow> arrives_after t es \<and> arrives_after t fs"
  by (auto simp: arrives_after_def)

lemma arrives_after_arrives: "t < t' \<Longrightarrow> arrives_after t (arrives t' bs)"
  by (simp add: arrives_after_def arrives_def)

lemma ready_bytes_segment: "arrives_after t es \<Longrightarrow> ready_bytes t (arrives t bs @ es) = bs"
proof (induction bs)
  case Nil
  show ?case
    by (cases es rule: inbound.cases) (use Nil in \<open>simp_all add: arrives_def\<close>)
qed (simp add: arrives_def)

lemma peek_segment:
  assumes "rx s = arrives t bs @ es" and "bs \<noteq> []" and "due s t" and "lags s = []"
    and "clock s \<le> t" and "arrives_after t es"
  shows "peek n s = (Done (take n bs), s\<lparr>clock := t\<rparr>)"
proof -
  obtain b ds where "bs = b # ds" using assms(2) by (cases bs) auto
  then have "rx s = (t, Byte b) # arrives t ds @ es" using assms(1) by (simp add: arrives_def)
  with assms(3-5) have "wait_rx s = (Done (Byte b), s\<lparr>clock := t\<rparr>)"
    by (cases "t = clock s")
       (auto simp: wait_rx_def pass_time_def Let_def due_def split: option.splits)
  then show ?thesis
    using ready_bytes_segment [OF assms(6), of bs]
    by (simp add: peek_def await_Done assms(1))
qed

end
