(* ===== verification/Frames.thy ===== *)
theory Frames
  imports Net_Stream
begin

section \<open>What every call on a client stream preserves\<close>

text \<open>
  The interface between the functions that talk to a client and the facts about whole
  conversations: a relation between the stream before and after, which the socket calls respect,
  is respected by everything that is composed from them. \<open>read_frame\<close> is for code that only
  reads, \<open>stream_frame\<close> for code that also writes. The interpretations are that reading has
  no effect but on the input and the clock, and, for all code, that nothing is dialled, that output is only appended, that input is only consumed from the front, and that
  a timeout puts back the deadline; the last gives that a call under a deadline does not hang.
\<close>

locale read_frame =
  fixes frame :: "client_stream \<Rightarrow> client_stream \<Rightarrow> bool"
  assumes frame_refl: "frame s s"
    and frame_trans: "frame s t \<Longrightarrow> frame t u \<Longrightarrow> frame s u"
    and frame_wait: "frame s (s\<lparr>clock := c, lags := ds\<rparr>)"
    and frame_read: "frame s (s\<lparr>rx := drop k (rx s)\<rparr>)"
    and frame_deadline: "frame (s\<lparr>deadline := d\<rparr>) t \<Longrightarrow> frame s (t\<lparr>deadline := deadline s\<rparr>)"
begin

definition keeps :: "('e, 'a) async \<Rightarrow> bool" where
  "keeps m \<longleftrightarrow> (\<forall>s. frame s (snd (m s)))"

lemma keepsD: "keeps m \<Longrightarrow> m s = (r, t) \<Longrightarrow> frame s t"
  unfolding keeps_def by (metis snd_conv)

lemma keepsI: "(\<And>s r t. m s = (r, t) \<Longrightarrow> frame s t) \<Longrightarrow> keeps m"
  unfolding keeps_def by (metis prod.collapse)

lemma keeps_ret: "keeps (ret x)" and keeps_fail: "keeps (fail e)" and keeps_panic: "keeps panic"
  by (simp_all add: keeps_def ret_def fail_def panic_def frame_refl)

lemma keeps_await:
  assumes "keeps m" and "\<And>x. keeps (f x)"
  shows "keeps (await m f)"
proof (rule keepsI)
  fix s r t assume a: "await m f s = (r, t)"
  obtain q u where m: "m s = (q, u)" by (cases "m s")
  from keepsD [OF assms(1) m] have "frame s u" .
  moreover have "frame u t"
  proof (cases q)
    case (Done x)
    with a m have "f x u = (r, t)" by (simp add: await_def)
    then show ?thesis by (rule keepsD [OF assms(2)])
  qed (use a m in \<open>simp_all add: await_def frame_refl\<close>)
  ultimately show "frame s t" by (rule frame_trans)
qed

lemma keeps_map_err: "keeps m \<Longrightarrow> keeps (map_err g m)"
  and keeps_attempt: "keeps m \<Longrightarrow> keeps (attempt m)"
  unfolding keeps_def map_err_def attempt_def
  by (auto split: prod.splits outcome.splits) (metis snd_conv)+

lemma keeps_timeout: "keeps m \<Longrightarrow> keeps (timeout d m)"
proof (rule keepsI)
  fix s r t assume k: "keeps m" and a: "timeout d m s = (r, t)"
  obtain q u where m: "m (s\<lparr>deadline := Some (clock s + d)\<rparr>) = (q, u)"
    by (cases "m (s\<lparr>deadline := Some (clock s + d)\<rparr>)")
  with a have "t = u\<lparr>deadline := deadline s\<rparr>" by (auto simp: timeout_def split: outcome.splits)
  with keepsD [OF k m] show "frame s t" by (simp add: frame_deadline)
qed

lemma keeps_if_cond:
  "(c \<Longrightarrow> keeps m) \<Longrightarrow> (\<not> c \<Longrightarrow> keeps m') \<Longrightarrow> keeps (if c then m else m')"
  by simp

lemma keeps_if: "keeps m \<Longrightarrow> keeps m' \<Longrightarrow> keeps (if c then m else m')"
  by simp

lemma keeps_option: "keeps m \<Longrightarrow> (\<And>x. keeps (f x)) \<Longrightarrow>
    keeps (case r of None \<Rightarrow> m | Some x \<Rightarrow> f x)"
  by (cases r) simp_all

lemma keeps_sum: "(\<And>x. keeps (f x)) \<Longrightarrow> (\<And>y. keeps (g y)) \<Longrightarrow>
    keeps (case r of Inl x \<Rightarrow> f x | Inr y \<Rightarrow> g y)"
  by (cases r) simp_all

lemma frame_clock: "frame s (s\<lparr>clock := c\<rparr>)"
  using frame_wait [where s = s and c = c and ds = "lags s"] by simp

lemma frame_pass: "frame s (pass_time s)"
  by (auto simp: pass_time_def frame_refl frame_wait split: list.splits)

lemma keeps_wait_rx: "keeps wait_rx"
proof (rule keepsI)
  fix s r t assume "wait_rx s = (r, t)"
  then have "t = pass_time s \<or> (\<exists>c. t = (pass_time s)\<lparr>clock := c\<rparr>)"
    by (auto simp: wait_rx_def Let_def split: list.splits option.splits if_splits)
  then show "frame s t" using frame_pass frame_clock frame_trans by blast
qed

lemma keeps_peek: "keeps (peek n)"
  unfolding peek_def
proof (rule keeps_await [OF keeps_wait_rx])
  show "keeps (case ev of
       Byte b \<Rightarrow> (\<lambda>s. (Done (take n (ready_bytes (clock s) (rx s))), s))
     | Fin \<Rightarrow> ret [] | Broken e \<Rightarrow> fail e)" for ev
    by (cases ev) (simp_all add: keeps_def ret_def fail_def frame_refl)
qed

lemma keeps_read: "keeps (read n)"
  unfolding read_def
  by (rule keeps_await [OF keeps_peek]) (simp add: keeps_def frame_read)

lemma keeps_read_exact: "keeps (read_exact n)"
proof (induction n rule: less_induct)
  case (less n)
  show ?case
  proof (cases "n = 0")
    case False
    then have "keeps (read_exact (n - length bs))" if "bs \<noteq> []" for bs
      using that by (intro less) (cases bs, auto)
    then have "keeps (if bs = [] then fail early_eof
        else await (read_exact (n - length bs)) (\<lambda>cs. ret (bs @ cs)))" for bs
      by (intro keeps_if_cond keeps_await keeps_fail keeps_ret)
    with False show ?thesis
      by (simp only: read_exact.simps [of n] if_False) (rule keeps_await [OF keeps_read])
  qed (simp add: keeps_ret)
qed

lemma keeps_loop: "frame s t \<Longrightarrow> m t = (r, u) \<Longrightarrow> frame t (snd (m t)) \<Longrightarrow> frame s u"
  using frame_trans by auto

lemma keeps_await_at:
  assumes "frame s (snd (m s))" and "\<And>x t. m s = (Done x, t) \<Longrightarrow> frame t (snd (f x t))"
  shows "frame s (snd (await m f s))"
proof -
  obtain q u where m: "m s = (q, u)" by (cases "m s")
  with assms show ?thesis
    by (cases q) (auto simp: await_def intro: frame_trans)
qed

lemma keeps_read_nul: "keeps read_nul"
proof -
  have "frame s (snd (read_nul s))" for s
  proof (induction s rule: read_nul.induct)
    case (1 s)
    show ?case
      unfolding read_nul.simps [of s]
    proof (rule keeps_await_at)
      show "frame s (snd (read_exact 1 s))" using keeps_read_exact by (simp add: keeps_def)
      fix b u assume b: "read_exact 1 s = (Done b, u)"
      show "frame u (snd (if hd b = 0 then ret [] u
          else await read_nul (\<lambda>cs. ret (hd b # cs)) u))"
        using "1.IH" [OF b]
        by (auto simp: ret_def frame_refl intro!: keeps_await_at)
    qed
  qed
  then show ?thesis by (simp add: keeps_def)
qed

lemma keeps_peer_addr: "keeps peer_addr"
  by (simp add: keeps_def peer_addr_def ret_def fail_def frame_refl split: option.splits)

lemma keeps_peek_or_read: "keeps (peek_or_read n)"
  using keeps_peek keeps_await [OF keeps_peer_addr, of "\<lambda>_. read n"] keeps_read
  by (simp add: keeps_def peek_or_read_def split: stream_kind.splits)

lemmas keeps_read_intros = keeps_ret keeps_fail keeps_panic keeps_await keeps_map_err
  keeps_attempt keeps_timeout keeps_if keeps_option keeps_sum keeps_peek keeps_read
  keeps_read_exact keeps_read_nul keeps_peek_or_read

end

locale stream_frame = read_frame +
  assumes frame_write: "frame s (s\<lparr>tx := tx s @ bs, tx_limit := l\<rparr>)"
begin

lemma keeps_write_all: "keeps (write_all bs)"
proof (rule keepsI)
  fix s r t assume w: "write_all bs s = (r, t)"
  show "frame s t"
  proof (cases "tx_limit s")
    case None
    with w have "t = s\<lparr>tx := tx s @ bs, tx_limit := tx_limit s\<rparr>"
      by (cases s) (auto simp: write_all_def)
    then show ?thesis by (simp only: frame_write)
  next
    case (Some ke)
    with w show ?thesis
      by (cases ke) (auto simp: write_all_def frame_write split: if_splits)
  qed
qed

lemmas keeps_intros = keeps_read_intros keeps_write_all

end

subsection \<open>Interpretations\<close>

definition same_dials :: "client_stream \<Rightarrow> client_stream \<Rightarrow> bool" where
  "same_dials s t \<longleftrightarrow> dialled t = dialled s \<and> upstream t = upstream s"

definition only_appends :: "client_stream \<Rightarrow> client_stream \<Rightarrow> bool" where
  "only_appends s t \<longleftrightarrow> (\<exists>bs. tx t = tx s @ bs)"

definition only_consumes :: "client_stream \<Rightarrow> client_stream \<Rightarrow> bool" where
  "only_consumes s t \<longleftrightarrow> (\<exists>k. rx t = drop k (rx s))"

definition same_deadline :: "client_stream \<Rightarrow> client_stream \<Rightarrow> bool" where
  "same_deadline s t \<longleftrightarrow> deadline t = deadline s"

text \<open>Reading leaves everything but the input, the clock and the lags as it was.\<close>

definition only_reads :: "client_stream \<Rightarrow> client_stream \<Rightarrow> bool" where
  "only_reads s t \<longleftrightarrow> tx t = tx s \<and> tx_limit t = tx_limit s \<and> shut_error t = shut_error s \<and>
     kind t = kind s \<and> peer_error t = peer_error s \<and> deadline t = deadline s \<and>
     dialled t = dialled s \<and> upstream t = upstream s"

interpretation quiet: read_frame only_reads
  by unfold_locales (simp_all add: only_reads_def)

interpretation dial_frame: stream_frame same_dials
  by unfold_locales (simp_all add: same_dials_def)

interpretation outputs: stream_frame only_appends
  by unfold_locales (auto simp: only_appends_def)

interpretation inputs: stream_frame only_consumes
proof unfold_locales
  show "only_consumes s (s\<lparr>clock := c, lags := ds\<rparr>)" for s c ds
    by (simp add: only_consumes_def exI [of _ 0])
  show "only_consumes s s" for s
    by (simp add: only_consumes_def exI [of _ 0])
  show "only_consumes s (s\<lparr>tx := tx s @ bs, tx_limit := l\<rparr>)" for s bs l
    by (simp add: only_consumes_def exI [of _ 0])
qed (auto simp: only_consumes_def)

interpretation deadline_frame: stream_frame same_deadline
  by unfold_locales (simp_all add: same_deadline_def)

subsection \<open>Calls under a deadline\<close>

text \<open>Under a deadline no call hangs; and the calls here do not panic.\<close>

definition answers :: "('e, 'a) async \<Rightarrow> bool" where
  "answers m \<longleftrightarrow> deadline_frame.keeps m \<and> (\<forall>s. deadline s \<noteq> None \<longrightarrow> fst (m s) \<notin> {Hangs, Panicked})"

lemma answersD: "answers m \<Longrightarrow> deadline s \<noteq> None \<Longrightarrow> fst (m s) \<noteq> Hangs \<and> fst (m s) \<noteq> Panicked"
  by (simp add: answers_def)

lemma answers_ret: "answers (ret x)" and answers_fail: "answers (fail e)"
  by (simp_all add: answers_def deadline_frame.keeps_intros) (simp_all add: ret_def fail_def)

lemma answers_await:
  assumes "answers m" and "\<And>x. answers (f x)"
  shows "answers (await m f)"
proof -
  have "fst (await m f s) \<notin> {Hangs, Panicked}" if d: "deadline s \<noteq> None" for s
  proof -
    obtain q u where m: "m s = (q, u)" by (cases "m s")
    have "deadline_frame.keeps m" using assms(1) by (simp add: answers_def)
    from deadline_frame.keepsD [OF this m] d have "deadline u \<noteq> None" by (simp add: same_deadline_def)
    then have "fst (f x u) \<notin> {Hangs, Panicked}" for x using assms(2) by (simp add: answers_def)
    with m answersD [OF assms(1) d] show ?thesis by (cases q) (simp_all add: await_def)
  qed
  with assms show ?thesis by (simp add: answers_def deadline_frame.keeps_await)
qed

lemma answers_map_err: "answers m \<Longrightarrow> answers (map_err g m)"
  by (auto simp: answers_def deadline_frame.keeps_map_err map_err_def split: prod.splits outcome.splits)

lemma answers_if_cond:
  "(c \<Longrightarrow> answers m) \<Longrightarrow> (\<not> c \<Longrightarrow> answers m') \<Longrightarrow> answers (if c then m else m')"
  by simp

lemma answers_if: "answers m \<Longrightarrow> answers m' \<Longrightarrow> answers (if c then m else m')"
  by simp

lemma answers_option: "answers m \<Longrightarrow> (\<And>x. answers (f x)) \<Longrightarrow>
    answers (case r of None \<Rightarrow> m | Some x \<Rightarrow> f x)"
  by (cases r) simp_all

lemma answers_wait_rx: "answers wait_rx"
  by (auto simp: answers_def deadline_frame.keeps_wait_rx wait_rx_def Let_def
      split: list.splits option.splits)

lemma answers_peek: "answers (peek n)"
proof -
  have "answers (case ev of
       Byte b \<Rightarrow> (\<lambda>s. (Done (take n (ready_bytes (clock s) (rx s))), s))
     | Fin \<Rightarrow> ret [] | Broken e \<Rightarrow> fail e)" for ev :: rx_event
    by (cases ev) (simp_all add: answers_ret answers_fail,
        simp add: answers_def deadline_frame.keeps_def same_deadline_def)
  then show ?thesis unfolding peek_def by (rule answers_await [OF answers_wait_rx])
qed

lemma answers_read: "answers (read n)"
  unfolding read_def
  by (rule answers_await [OF answers_peek])
     (simp add: answers_def deadline_frame.keeps_def same_deadline_def)

lemma answers_read_exact: "answers (read_exact n)"
proof (induction n rule: less_induct)
  case (less n)
  show ?case
  proof (cases "n = 0")
    case False
    then have "answers (read_exact (n - length bs))" if "bs \<noteq> []" for bs
      using that by (intro less) (cases bs, auto)
    then have "answers (if bs = [] then fail early_eof
        else await (read_exact (n - length bs)) (\<lambda>cs. ret (bs @ cs)))" for bs
      by (intro answers_if_cond answers_await answers_fail answers_ret)
    with False show ?thesis
      by (simp only: read_exact.simps [of n] if_False) (rule answers_await [OF answers_read])
  qed (simp add: answers_ret)
qed

lemmas answers_intros = answers_ret answers_fail answers_await answers_map_err answers_if
  answers_option answers_peek answers_read answers_read_exact

text \<open>So a call with a timeout of its own always completes, whatever the peer does.\<close>

lemma timeout_completes:
  assumes "answers m"
  shows "\<exists>r. fst (timeout d m s) = Done r"
proof -
  let ?s = "s\<lparr>deadline := Some (clock s + d)\<rparr>"
  obtain q u where m: "m ?s = (q, u)" by (cases "m ?s")
  with answersD [OF assms, of ?s] show ?thesis by (cases q) (auto simp: timeout_def)
qed

end
