(* ===== verification/Protocol.thy ===== *)
theory Protocol
  imports Net_Stream
begin

section \<open>Protocols, targets and replies (src/proxy/protocol.rs, src/error.rs, src/utils.rs)\<close>

text \<open>
  The protocols the proxy speaks, the target of a request, the detection of the protocol from
  the first four bytes of a connection, and the fixed replies of each protocol with the
  functions that send them.
\<close>

subsection \<open>Data\<close>

datatype proxy_protocol = TCP | HTTP | HTTPS | SOCKS4 | SOCKS5

fun protocol_to_string :: "proxy_protocol \<Rightarrow> string" where
  "protocol_to_string TCP = ''TCP''"
| "protocol_to_string HTTP = ''HTTP''"
| "protocol_to_string HTTPS = ''HTTPS''"
| "protocol_to_string SOCKS4 = ''SOCKS4''"
| "protocol_to_string SOCKS5 = ''SOCKS5''"

record proxy_target =
  host :: string
  port :: u16

text \<open>\<open>ErrorType\<close> of the listener: the phase in which a connection failed.\<close>

datatype error_type =
    Handshake_error
  | Connection_error
  | Response_error
  | Timeout_error
  | Tunnel_error

text \<open>\<open>format!("{}:{}", target.host, target.port)\<close>, the address that is dialled.\<close>

definition target_address :: "proxy_target \<Rightarrow> string" where
  "target_address t = host t @ '':'' @ dec_string (unat (port t))"

subsection \<open>Protocol detection\<close>

definition detect_protocol :: "u8 list \<Rightarrow> proxy_protocol" where
  "detect_protocol peek_buf =
     (if starts_with peek_buf (as_bytes ''GET '')
       \<or> starts_with peek_buf (as_bytes ''POST'')
       \<or> starts_with peek_buf (as_bytes ''PUT '')
       \<or> starts_with peek_buf (as_bytes ''HEAD'')
       \<or> starts_with peek_buf (as_bytes ''DELE'')
       \<or> starts_with peek_buf (as_bytes ''CONN'')
      then HTTP
      else if peek_buf ! 0 = 0x16 then HTTPS
      else if peek_buf ! 0 = 0x05 then SOCKS5
      else if peek_buf ! 0 = 0x04 then SOCKS4
      else TCP)"

text \<open>
  A buffer of \<open>n\<close> zero bytes after a call that wrote \<open>bs\<close> at its front.
\<close>

definition fill_buf :: "nat \<Rightarrow> u8 list \<Rightarrow> u8 list" where
  "fill_buf n bs = take n (bs @ replicate n 0)"

lemma length_fill_buf [simp]: "length (fill_buf n bs) = n"
  by (simp add: fill_buf_def)

lemma fill_buf_full [simp]: "length bs = n \<Longrightarrow> fill_buf n bs = bs"
  by (simp add: fill_buf_def)

subsection \<open>Replies\<close>

definition http_connect_response :: "u8 list" where
  "http_connect_response =
     as_bytes ''HTTP/1.1 200 OK'' @ [13, 10, 13, 10]"

definition send_http_connect_response :: "(io_error, unit) async" where
  "send_http_connect_response = write_all http_connect_response"

definition socks4_response :: "bool \<Rightarrow> u8 list" where
  "socks4_response success =
     (if success then [0x00, 0x5a, 0x00, 0x00, 0x00, 0x00, 0x00, 0x00]
      else [0x00, 0x5b, 0x00, 0x00, 0x00, 0x00, 0x00, 0x00])"

definition send_socks4_response :: "bool \<Rightarrow> (io_error, unit) async" where
  "send_socks4_response success = write_all (socks4_response success)"

definition socks5_response :: "bool \<Rightarrow> u8 list" where
  "socks5_response success =
     (if success then [0x05, 0x00, 0x00, 0x01, 0x00, 0x00, 0x00, 0x00, 0x00, 0x00]
      else [0x05, 0x01, 0x00, 0x01, 0x00, 0x00, 0x00, 0x00, 0x00, 0x00])"

definition send_socks5_response :: "bool \<Rightarrow> (io_error, unit) async" where
  "send_socks5_response success = write_all (socks5_response success)"

definition crlf2 :: "u8 list" where
  "crlf2 = [13, 10, 13, 10]"

text \<open>\<open>send_error_response\<close> of the listener.\<close>

definition send_error_response :: "proxy_protocol \<Rightarrow> error_type \<Rightarrow> (io_error, unit) async" where
  "send_error_response protocol error_type =
     (case (protocol, error_type) of
        (HTTP, Handshake_error) \<Rightarrow> write_all (as_bytes ''HTTP/1.1 400 Bad Request'' @ crlf2)
      | (HTTP, Connection_error) \<Rightarrow> write_all (as_bytes ''HTTP/1.1 502 Bad Gateway'' @ crlf2)
      | (HTTP, Timeout_error) \<Rightarrow> write_all (as_bytes ''HTTP/1.1 504 Gateway Timeout'' @ crlf2)
      | (SOCKS4, _) \<Rightarrow> send_socks4_response False
      | (SOCKS5, _) \<Rightarrow> send_socks5_response False
      | _ \<Rightarrow> ret ())"

text \<open>The success reply of \<open>async_handle_client\<close>.\<close>

definition send_success_response :: "proxy_protocol \<Rightarrow> (io_error, unit) async" where
  "send_success_response protocol =
     (case protocol of
        HTTP \<Rightarrow> send_http_connect_response
      | SOCKS4 \<Rightarrow> send_socks4_response True
      | SOCKS5 \<Rightarrow> send_socks5_response True
      | _ \<Rightarrow> ret ())"

lemma response_lengths:
  "length (socks4_response b) = 8" "length (socks5_response b) = 10"
  by (simp_all add: socks4_response_def socks5_response_def)

end
