(* ===== verification/Port_Allocator.thy ===== *)
theory Port_Allocator
  imports Prelude
begin

section \<open>The port allocator (src/tunnel/port_allocator.rs)\<close>

text \<open>
  The state of \<open>PortAllocator\<close> with its six operations, the invariant that ties the free
  queue to the set of allocated ports, the abstract specification of a pool of ports, and the
  locale \<open>port_pool\<close> of the laws that the tunnel manager relies on.
  \<open>HashSet<u16>\<close> is a set, \<open>VecDeque<u16>\<close> a list with its front first; every operation
  that takes \<open>&mut self\<close> returns its result and the new state.
\<close>

subsection \<open>State and operations\<close>

datatype port_alloc_error =
    PortOutOfRange u16 u16 u16
  | PortUnavailable u16
  | NoPortsAvailable u16 u16
  | PortNotAllocated u16

record port_allocator =
  min_port :: u16
  max_port :: u16
  allocated_ports :: "u16 set"
  available_ports :: "u16 list"
  next_port :: u16

text \<open>\<open>PortAllocator::new\<close>: \<open>None\<close> is the panic of one of the two assertions.\<close>

definition port_allocator_new :: "u16 \<Rightarrow> u16 \<Rightarrow> port_allocator option" where
  "port_allocator_new lo hi =
     (if \<not> 0 < lo then None
      else if \<not> lo \<le> hi then None
      else Some \<lparr>min_port = lo, max_port = hi, allocated_ports = {},
                 available_ports = word_range lo hi, next_port = lo\<rparr>)"

definition allocate_specific ::
  "port_allocator \<Rightarrow> u16 \<Rightarrow> (port_alloc_error + u16) \<times> port_allocator" where
  "allocate_specific s port =
     (if port < min_port s \<or> port > max_port s then
        (Inl (PortOutOfRange port (min_port s) (max_port s)), s)
      else if port \<in> allocated_ports s then (Inl (PortUnavailable port), s)
      else (Inr port,
            s\<lparr>allocated_ports := insert port (allocated_ports s),
              available_ports := filter (\<lambda>p. p \<noteq> port) (available_ports s)\<rparr>))"

text \<open>
  \<open>allocate_next\<close>: the addition \<open>port + 1\<close> is on \<open>u16\<close>, so it wraps here as it
  would in a release build; a property below shows that it never does.
\<close>

definition allocate_next ::
  "port_allocator \<Rightarrow> (port_alloc_error + u16) \<times> port_allocator" where
  "allocate_next s =
     (case available_ports s of
        port # rest \<Rightarrow>
          (Inr port,
           s\<lparr>available_ports := rest,
             allocated_ports := insert port (allocated_ports s),
             next_port := (if port = max_port s then min_port s else port + 1)\<rparr>)
      | [] \<Rightarrow> (Inl (NoPortsAvailable (min_port s) (max_port s)), s))"

definition allocate_port ::
  "port_allocator \<Rightarrow> u16 option \<Rightarrow> (port_alloc_error + u16) \<times> port_allocator" where
  "allocate_port s preferred =
     (case preferred of
        Some port \<Rightarrow> allocate_specific s port
      | None \<Rightarrow> allocate_next s)"

definition release_port ::
  "port_allocator \<Rightarrow> u16 \<Rightarrow> (port_alloc_error + unit) \<times> port_allocator" where
  "release_port s port =
     (if port \<notin> allocated_ports s then (Inl (PortNotAllocated port), s)
      else let s1 = s\<lparr>allocated_ports := allocated_ports s - {port}\<rparr>
        in (Inr (),
            if port < next_port s1
            then s1\<lparr>available_ports := port # available_ports s1\<rparr>
            else s1\<lparr>available_ports := available_ports s1 @ [port]\<rparr>))"

definition is_allocated :: "port_allocator \<Rightarrow> u16 \<Rightarrow> bool" where
  "is_allocated s port \<longleftrightarrow> port \<in> allocated_ports s"

definition is_in_range :: "port_allocator \<Rightarrow> u16 \<Rightarrow> bool" where
  "is_in_range s port \<longleftrightarrow> port \<ge> min_port s \<and> port \<le> max_port s"

definition available_count :: "port_allocator \<Rightarrow> nat" where
  "available_count s = length (available_ports s)"

definition allocated_count :: "port_allocator \<Rightarrow> nat" where
  "allocated_count s = card (allocated_ports s)"

lemmas [op_defs] =
  allocate_specific_def allocate_next_def allocate_port_def release_port_def

subsection \<open>The invariant\<close>

text \<open>
  Every port of the range is either in the free queue, once, or in the allocated set; the
  cursor stays in the range.
\<close>

definition pa_inv :: "port_allocator \<Rightarrow> bool" where
  "pa_inv s \<longleftrightarrow>
     0 < min_port s \<and> min_port s \<le> max_port s \<and>
     distinct (available_ports s) \<and>
     set (available_ports s) \<inter> allocated_ports s = {} \<and>
     set (available_ports s) \<union> allocated_ports s = {min_port s .. max_port s} \<and>
     min_port s \<le> next_port s \<and> next_port s \<le> max_port s"

lemma pa_inv_new: "port_allocator_new lo hi = Some s \<Longrightarrow> pa_inv s"
  by (auto simp: port_allocator_new_def pa_inv_def split: if_splits)

lemma pa_inv_avail: "pa_inv s \<Longrightarrow> p \<in> set (available_ports s) \<longleftrightarrow>
    is_in_range s p \<and> p \<notin> allocated_ports s"
  by (auto simp: pa_inv_def is_in_range_def)

lemma word_succ_in_range:
  assumes "(p :: u16) < hi"
  shows "p < p + 1" and "p + 1 \<le> hi"
proof -
  have u: "unat (p + 1) = Suc (unat p)" by (rule unat_Suc_u16 [OF assms])
  then show "p < p + 1" by (simp add: word_less_nat_alt)
  from assms u show "p + 1 \<le> hi" by (simp add: word_le_nat_alt word_less_nat_alt)
qed

lemma pa_inv_specific [inv_intros]: "pa_inv s \<Longrightarrow> pa_inv (snd (allocate_specific s p))"
  by (auto simp: pa_inv_def allocate_specific_def)

lemma pa_inv_next [inv_intros]:
  assumes "pa_inv s"
  shows "pa_inv (snd (allocate_next s))"
proof (cases "available_ports s")
  case Nil
  with assms show ?thesis by (simp add: allocate_next_def)
next
  case (Cons p rest)
  then have "p \<in> set (available_ports s)" by simp
  with assms have p: "min_port s \<le> p" "p \<le> max_port s"
    by (simp_all add: pa_inv_avail is_in_range_def)
  let ?n = "if p = max_port s then min_port s else p + 1"
  have n: "min_port s \<le> ?n \<and> ?n \<le> max_port s"
  proof (cases "p = max_port s")
    case True
    with assms show ?thesis by (simp add: pa_inv_def)
  next
    case False
    with p(2) have "p < max_port s" by simp
    from word_succ_in_range [OF this] p False show ?thesis by auto
  qed
  have "insert p (set rest \<union> allocated_ports s) = {min_port s .. max_port s}"
    using assms Cons by (simp add: pa_inv_def)
  with assms Cons n show ?thesis
    by (auto simp: pa_inv_def allocate_next_def)
qed

lemma pa_inv_port [inv_intros]: "pa_inv s \<Longrightarrow> pa_inv (snd (allocate_port s q))"
  by (cases q) (simp_all add: allocate_port_def inv_intros)

lemma pa_inv_release [inv_intros]: "pa_inv s \<Longrightarrow> pa_inv (snd (release_port s p))"
  by (auto simp: pa_inv_def release_port_def Let_def)

lemma range_frame:
  "min_port (snd (allocate_port s q)) = min_port s"
  "max_port (snd (allocate_port s q)) = max_port s"
  "min_port (snd (release_port s p)) = min_port s"
  "max_port (snd (release_port s p)) = max_port s"
  by (auto simp: op_defs Let_def split: option.splits list.splits)

subsection \<open>The abstract pool\<close>

text \<open>
  What the allocator promises, over the set \<open>A\<close> of ports in use of the range
  \<open>lo..=hi\<close>: a success hands out a free port of the range (the preferred one, if there is
  one) and adds it to \<open>A\<close>; a failure leaves \<open>A\<close> alone and names its exact cause.
\<close>

definition pool_alloc_spec ::
  "u16 \<Rightarrow> u16 \<Rightarrow> u16 set \<Rightarrow> u16 option \<Rightarrow> port_alloc_error + u16 \<Rightarrow> u16 set \<Rightarrow> bool" where
  "pool_alloc_spec lo hi A preferred r A' =
     (case r of
        Inr p \<Rightarrow> lo \<le> p \<and> p \<le> hi \<and> p \<notin> A \<and> A' = insert p A \<and>
          (case preferred of None \<Rightarrow> True | Some q \<Rightarrow> p = q)
      | Inl e \<Rightarrow> A' = A \<and>
          (case preferred of
             None \<Rightarrow> A = {lo..hi} \<and> e = NoPortsAvailable lo hi
           | Some q \<Rightarrow>
               if lo \<le> q \<and> q \<le> hi then q \<in> A \<and> e = PortUnavailable q
               else e = PortOutOfRange q lo hi))"

definition pool_release_spec ::
  "u16 set \<Rightarrow> u16 \<Rightarrow> port_alloc_error + unit \<Rightarrow> u16 set \<Rightarrow> bool" where
  "pool_release_spec A p r A' =
     (if p \<in> A then r = Inr () \<and> A' = A - {p} else r = Inl (PortNotAllocated p) \<and> A' = A)"

lemma specific_refines:
  assumes "pa_inv s"
  shows "pool_alloc_spec (min_port s) (max_port s) (allocated_ports s) (Some q)
           (fst (allocate_specific s q)) (allocated_ports (snd (allocate_specific s q)))"
  using assms by (auto simp: pool_alloc_spec_def allocate_specific_def pa_inv_def)

lemma next_refines:
  assumes "pa_inv s"
  shows "pool_alloc_spec (min_port s) (max_port s) (allocated_ports s) None
           (fst (allocate_next s)) (allocated_ports (snd (allocate_next s)))"
proof (cases "available_ports s")
  case Nil
  with assms show ?thesis by (simp add: pool_alloc_spec_def allocate_next_def pa_inv_def)
next
  case (Cons p rest)
  then have "p \<in> set (available_ports s)" by simp
  with assms have "is_in_range s p \<and> p \<notin> allocated_ports s" by (simp add: pa_inv_avail)
  with Cons show ?thesis by (simp add: pool_alloc_spec_def allocate_next_def is_in_range_def)
qed

lemma port_refines:
  assumes "pa_inv s"
  shows "pool_alloc_spec (min_port s) (max_port s) (allocated_ports s) q
           (fst (allocate_port s q)) (allocated_ports (snd (allocate_port s q)))"
  using specific_refines [OF assms] next_refines [OF assms]
  by (cases q) (simp_all add: allocate_port_def)

lemma release_refines:
  "pool_release_spec (allocated_ports s) p
     (fst (release_port s p)) (allocated_ports (snd (release_port s p)))"
  by (simp add: pool_release_spec_def release_port_def Let_def)

lemma alloc_failed_unchanged: "allocate_port s q = (Inl e, s') \<Longrightarrow> s' = s"
  by (auto simp: op_defs split: if_splits option.splits list.splits)

lemma release_failed_unchanged: "release_port s p = (Inl e, s') \<Longrightarrow> s' = s"
  by (auto simp: op_defs Let_def split: if_splits)

subsection \<open>The laws of a pool, for its clients\<close>

text \<open>
  \<open>alloc_many\<close> serves a list of requests in order and collects the ports handed out.
\<close>

fun alloc_many :: "('p \<Rightarrow> 'q \<Rightarrow> ('e + u16) \<times> 'p) \<Rightarrow> 'p \<Rightarrow> 'q list \<Rightarrow> u16 list \<times> 'p" where
  "alloc_many alloc s [] = ([], s)"
| "alloc_many alloc s (q # qs) =
     (case alloc s q of
        (Inr p, s') \<Rightarrow> (case alloc_many alloc s' qs of (ps, t) \<Rightarrow> (p # ps, t))
      | (Inl e, s') \<Rightarrow> alloc_many alloc s' qs)"

locale port_pool =
  fixes alloc :: "'p \<Rightarrow> u16 option \<Rightarrow> (port_alloc_error + u16) \<times> 'p"
    and release :: "'p \<Rightarrow> u16 \<Rightarrow> (port_alloc_error + unit) \<times> 'p"
    and held :: "'p \<Rightarrow> u16 set"
    and in_range :: "'p \<Rightarrow> u16 \<Rightarrow> bool"
    and inv :: "'p \<Rightarrow> bool"
  assumes alloc_inv: "inv s \<Longrightarrow> inv (snd (alloc s q))"
    and release_inv: "inv s \<Longrightarrow> inv (snd (release s p))"
    and alloc_ok: "inv s \<Longrightarrow> alloc s q = (Inr p, s') \<Longrightarrow>
          p \<notin> held s \<and> in_range s p \<and> held s' = insert p (held s)"
    and alloc_err: "alloc s q = (Inl e, s') \<Longrightarrow> s' = s"
    and alloc_free: "in_range s p \<Longrightarrow> p \<notin> held s \<Longrightarrow> fst (alloc s (Some p)) = Inr p"
    and release_ok: "p \<in> held s \<Longrightarrow>
          fst (release s p) = Inr () \<and> held (snd (release s p)) = held s - {p}"
    and release_err: "p \<notin> held s \<Longrightarrow> release s p = (Inl (PortNotAllocated p), s)"
    and release_range: "in_range (snd (release s p)) = in_range s"
begin

lemma held_alloc_mono: "inv s \<Longrightarrow> held s \<subseteq> held (snd (alloc s q))"
  by (cases "alloc s q"; cases "fst (alloc s q)") (auto dest: alloc_ok alloc_err)

lemma release_iff: "fst (release s p) = Inr () \<longleftrightarrow> p \<in> held s"
  using release_ok release_err by (cases "p \<in> held s") auto

lemma realloc_released:
  assumes "p \<in> held s" and "in_range s p"
  shows "fst (alloc (snd (release s p)) (Some p)) = Inr p"
  using assms release_ok [OF assms(1)] by (intro alloc_free) (simp_all add: release_range)

lemma alloc_many_fresh:
  assumes "inv s" and "alloc_many alloc s qs = (ps, t)"
  shows "distinct ps \<and> set ps \<inter> held s = {} \<and> held t = held s \<union> set ps \<and> inv t"
  using assms
proof (induction qs arbitrary: s ps)
  case Nil
  then show ?case by simp
next
  case (Cons q qs)
  obtain r s' where a: "alloc s q = (r, s')" by force
  with alloc_inv [OF Cons.prems(1), of q] have inv': "inv s'" by simp
  show ?case
  proof (cases r)
    case (Inl e)
    with a alloc_err have "s' = s" by simp
    with Cons a Inl show ?thesis by simp
  next
    case (Inr p)
    with alloc_ok [OF Cons.prems(1)] a
    have p: "p \<notin> held s" "held s' = insert p (held s)" by auto
    from Cons.prems(2) a Inr obtain ps'
      where ps: "ps = p # ps'" "alloc_many alloc s' qs = (ps', t)"
      by (auto split: prod.splits)
    from Cons.IH [OF inv' ps(2)] p ps(1) show ?thesis by auto
  qed
qed

end

interpretation pa: port_pool allocate_port release_port allocated_ports is_in_range pa_inv
proof unfold_locales
  fix s q p s'
  assume "pa_inv s" and eq: "allocate_port s q = (Inr p, s')"
  then show "p \<notin> allocated_ports s \<and> is_in_range s p \<and>
      allocated_ports s' = insert p (allocated_ports s)"
    using port_refines [of s q] by (simp add: pool_alloc_spec_def is_in_range_def)
qed (erule pa_inv_port | erule pa_inv_release | erule alloc_failed_unchanged |
     force simp: op_defs is_in_range_def Let_def fun_eq_iff)+

subsection \<open>Sequences of calls\<close>

datatype pa_op = Alloc "u16 option" | Release u16

fun pa_apply :: "pa_op \<Rightarrow> port_allocator \<Rightarrow> port_allocator" where
  "pa_apply (Alloc q) s = snd (allocate_port s q)"
| "pa_apply (Release p) s = snd (release_port s p)"

interpretation pa_machine: op_machine pa_apply pa_inv
proof unfold_locales
  fix s x assume "pa_inv s"
  then show "pa_inv (pa_apply x s)" by (cases x) (simp_all add: inv_intros)
qed

text \<open>
  The ports the callers hold after a sequence of calls, computed from the answers alone: a
  port answered by an allocation is held until a release of it succeeds.
\<close>

fun leases :: "port_allocator \<Rightarrow> u16 set \<Rightarrow> pa_op list \<Rightarrow> u16 set" where
  "leases s L [] = L"
| "leases s L (Alloc q # ops) =
     (case fst (allocate_port s q) of
        Inr p \<Rightarrow> leases (snd (allocate_port s q)) (insert p L) ops
      | Inl e \<Rightarrow> leases (snd (allocate_port s q)) L ops)"
| "leases s L (Release p # ops) =
     (case fst (release_port s p) of
        Inr u \<Rightarrow> leases (snd (release_port s p)) (L - {p}) ops
      | Inl e \<Rightarrow> leases (snd (release_port s p)) L ops)"

lemma leases_allocated:
  "pa_inv s \<Longrightarrow> leases s (allocated_ports s) ops = allocated_ports (fold pa_apply ops s)"
proof (induction ops arbitrary: s)
  case Nil
  then show ?case by simp
next
  case (Cons x ops)
  show ?case
  proof (cases x)
    case (Alloc q)
    have "pa_inv (snd (allocate_port s q))" using Cons.prems by (rule pa_inv_port)
    note IH = Cons.IH [OF this]
    from port_refines [OF Cons.prems, of q] IH Alloc show ?thesis
      by (auto simp: pool_alloc_spec_def split: sum.splits)
  next
    case (Release p)
    have "pa_inv (snd (release_port s p))" using Cons.prems by (rule pa_inv_release)
    note IH = Cons.IH [OF this]
    from release_refines [of s p] IH Release show ?thesis
      by (auto simp: pool_release_spec_def split: sum.splits if_splits)
  qed
qed

lemma pa_range_fold:
  "min_port (fold pa_apply ops s) = min_port s \<and> max_port (fold pa_apply ops s) = max_port s"
proof (induction ops arbitrary: s)
  case (Cons x ops)
  then show ?case by (cases x) (simp_all add: range_frame)
qed simp

lemma pa_reachable:
  fixes ops :: "pa_op list"
  assumes "port_allocator_new lo hi = Some s0"
  defines "s \<equiv> fold pa_apply ops s0"
  shows "pa_inv s" and "min_port s = lo" and "max_port s = hi"
    and "leases s0 {} ops = allocated_ports s"
proof -
  from assms(1) have inv0: "pa_inv s0" by (rule pa_inv_new)
  from assms(1) have s0: "min_port s0 = lo" "max_port s0 = hi" "allocated_ports s0 = {}"
    by (auto simp: port_allocator_new_def split: if_splits)
  show "pa_inv s" unfolding s_def by (rule pa_machine.inv_fold [OF inv0])
  show "min_port s = lo" "max_port s = hi" using s0 by (simp_all add: s_def pa_range_fold)
  show "leases s0 {} ops = allocated_ports s"
    using leases_allocated [OF inv0, of ops] s0 by (simp add: s_def)
qed

text \<open>Fresh allocators serve unconstrained requests in ascending order.\<close>

lemma alloc_next_many:
  "n \<le> length (available_ports s) \<Longrightarrow>
   fst (alloc_many allocate_port s (replicate n None)) = take n (available_ports s)"
proof (induction n arbitrary: s)
  case 0
  then show ?case by simp
next
  case (Suc n)
  then obtain p rest where av: "available_ports s = p # rest"
    by (cases "available_ports s") auto
  let ?s' = "snd (allocate_next s)"
  have av': "available_ports ?s' = rest" using av by (simp add: allocate_next_def)
  with Suc.prems av have "n \<le> length (available_ports ?s')" by simp
  moreover have "allocate_port s None = (Inr p, ?s')"
    using av by (simp add: allocate_port_def allocate_next_def)
  ultimately show ?case using Suc.IH [of ?s'] av av' by (auto split: prod.splits)
qed

subsection \<open>Properties\<close>

text \<open>
  C5: no port is leased twice. After any sequence of allocations and releases on an allocator
  made for \<open>lo..=hi\<close>, a successful allocation answers a port of the range that no caller
  holds, and it answers the preferred port whenever one was asked for.
\<close>

theorem no_double_lease:
  assumes "port_allocator_new lo hi = Some s0"
    and "allocate_port (fold pa_apply ops s0) q = (Inr p, s')"
  shows "p \<notin> leases s0 {} ops \<and> lo \<le> p \<and> p \<le> hi \<and> (\<forall>r. q = Some r \<longrightarrow> p = r)"
  using port_refines [OF pa_reachable(1) [OF assms(1)], of ops q]
    pa_reachable(2-4) [OF assms(1), of ops] assms(2)
  by (auto simp: pool_alloc_spec_def split: option.splits)

theorem no_double_lease_witness:
  "(8002 :: u16) \<notin> leases \<lparr>min_port = 8000, max_port = 8002, allocated_ports = {},
      available_ports = [8000, 8001, 8002], next_port = 8000\<rparr> {}
      [Alloc (Some 8001), Alloc None, Release 8001]"
proof -
  let ?s0 = "\<lparr>min_port = 8000, max_port = 8002, allocated_ports = {},
      available_ports = [8000, 8001, 8002], next_port = 8000 :: u16\<rparr>"
  have new: "port_allocator_new 8000 8002 = Some ?s0"
    by (simp add: port_allocator_new_def word_range_def upt_rec)
  let ?ops = "[Alloc (Some 8001), Alloc None, Release 8001]"
  have "fst (allocate_port (fold pa_apply ?ops ?s0) None) = Inr 8002"
    by (simp add: op_defs Let_def)
  then obtain s' where "allocate_port (fold pa_apply ?ops ?s0) None = (Inr 8002, s')"
    by (metis prod.collapse)
  from no_double_lease [OF new this] show ?thesis by simp
qed

text \<open>
  C6: refinement. Every call of \<open>allocate_port\<close> and \<open>release_port\<close> on a reachable
  allocator is a step of the abstract pool: the answer, the error it carries and the change
  of the allocated set are those of \<open>pool_alloc_spec\<close> and \<open>pool_release_spec\<close>, so in
  particular an unconstrained request fails only when the whole range is in use.
\<close>

theorem allocator_refines_pool:
  assumes "port_allocator_new lo hi = Some s0"
  shows "pool_alloc_spec lo hi (allocated_ports (fold pa_apply ops s0)) q
           (fst (allocate_port (fold pa_apply ops s0) q))
           (allocated_ports (snd (allocate_port (fold pa_apply ops s0) q)))
       \<and> pool_release_spec (allocated_ports (fold pa_apply ops s0)) p
           (fst (release_port (fold pa_apply ops s0) p))
           (allocated_ports (snd (release_port (fold pa_apply ops s0) p)))"
  using port_refines [OF pa_reachable(1) [OF assms], of ops q] release_refines
    pa_reachable(2,3) [OF assms, of ops] by simp

theorem allocator_refines_pool_witness:
  "pool_alloc_spec 5 5 {5} None (Inl (NoPortsAvailable 5 5)) {5}"
proof -
  let ?s0 = "\<lparr>min_port = 5, max_port = 5, allocated_ports = {},
      available_ports = [5], next_port = 5 :: u16\<rparr>"
  have new: "port_allocator_new 5 5 = Some ?s0"
    by (simp add: port_allocator_new_def word_range_def upt_rec)
  from allocator_refines_pool [OF new, of "[Alloc None]" None 5] show ?thesis
    by (simp add: op_defs)
qed

text \<open>
  C27: conservation. After any sequence of calls the free queue has no duplicates, shares no
  port with the allocated set, and the two counts add up to the size of the range.
\<close>

theorem ports_conserved:
  assumes "port_allocator_new lo hi = Some s0"
  shows "distinct (available_ports (fold pa_apply ops s0)) \<and>
    set (available_ports (fold pa_apply ops s0)) =
      {lo..hi} - allocated_ports (fold pa_apply ops s0) \<and>
    available_count (fold pa_apply ops s0) + allocated_count (fold pa_apply ops s0)
      = unat hi - unat lo + 1"
proof -
  let ?s = "fold pa_apply ops s0"
  from pa_reachable [OF assms, of ops]
  have inv: "pa_inv ?s" and r: "min_port ?s = lo" "max_port ?s = hi" by auto
  from inv r have d: "distinct (available_ports ?s)"
    and disj: "set (available_ports ?s) \<inter> allocated_ports ?s = {}"
    and un: "set (available_ports ?s) \<union> allocated_ports ?s = {lo..hi}"
    and le: "lo \<le> hi"
    by (simp_all add: pa_inv_def)
  have "available_count ?s + allocated_count ?s = card {lo..hi}"
    using card_Un_disjoint [OF _ _ disj] distinct_card [OF d] un
    by (simp add: available_count_def allocated_count_def)
  with d disj un le show ?thesis by (auto simp: card_u16_range)
qed

theorem ports_conserved_witness:
  "available_count (fold pa_apply [Alloc (Some 9), Alloc None]
      \<lparr>min_port = 8, max_port = 10, allocated_ports = {},
       available_ports = [8, 9, 10], next_port = 8\<rparr>)
   + allocated_count (fold pa_apply [Alloc (Some 9), Alloc None]
      \<lparr>min_port = 8, max_port = 10, allocated_ports = {},
       available_ports = [8, 9, 10], next_port = 8\<rparr>) = 3"
proof -
  have new: "port_allocator_new 8 10 = Some \<lparr>min_port = 8, max_port = 10,
      allocated_ports = {}, available_ports = [8, 9, 10], next_port = 8\<rparr>"
    by (simp add: port_allocator_new_def word_range_def upt_rec)
  from ports_conserved [OF new, of "[Alloc (Some 9), Alloc None]"] show ?thesis by simp
qed

text \<open>
  C28: the cursor arithmetic \<open>port + 1\<close> of \<open>allocate_next\<close> never overflows \<open>u16\<close> on a
  reachable allocator, even when the range ends at 65535: below the top of the range the
  cursor becomes the true successor, and at the top it wraps to the bottom.
\<close>

theorem next_port_no_overflow:
  assumes "port_allocator_new lo hi = Some s0"
    and "allocate_next (fold pa_apply ops s0) = (Inr p, s')"
  shows "unat (next_port s') = (if p = hi then unat lo else unat p + 1)"
proof -
  let ?s = "fold pa_apply ops s0"
  from pa_reachable [OF assms(1), of ops]
  have inv: "pa_inv ?s" and r: "min_port ?s = lo" "max_port ?s = hi" by auto
  from next_refines [OF inv] assms(2) r have "p \<le> hi" by (simp add: pool_alloc_spec_def)
  then have "unat (p + 1) = Suc (unat p)" if "p \<noteq> hi"
    using that by (intro unat_Suc_u16 [of p hi]) simp
  with assms(2) r show ?thesis by (auto simp: allocate_next_def split: list.splits)
qed

theorem next_port_no_overflow_witness:
  "next_port (snd (allocate_next \<lparr>min_port = 65534, max_port = 65535, allocated_ports = {65534},
      available_ports = [65535], next_port = 65535\<rparr>)) = 65534"
proof -
  let ?s0 = "\<lparr>min_port = 65534, max_port = 65535, allocated_ports = {},
      available_ports = [65534, 65535], next_port = 65534 :: u16\<rparr>"
  have new: "port_allocator_new 65534 65535 = Some ?s0"
    by (simp add: port_allocator_new_def word_range_def upt_rec)
  have s: "fold pa_apply [Alloc None] ?s0 = \<lparr>min_port = 65534, max_port = 65535,
      allocated_ports = {65534}, available_ports = [65535], next_port = 65535\<rparr>"
    by (simp add: op_defs)
  let ?r = "allocate_next (fold pa_apply [Alloc None] ?s0)"
  have "?r = (Inr 65535, snd ?r)" by (simp add: op_defs)
  from next_port_no_overflow [OF new this]
  have "unat (next_port (snd ?r)) = unat (65534 :: u16)" by simp
  then show ?thesis unfolding s by (rule word_unat_eq_iff [THEN iffD2])
qed

text \<open>
  a fresh allocator serves \<open>n\<close> unconstrained requests with the \<open>n\<close> lowest ports of
  its range, in ascending order, for every \<open>n\<close> up to the size of the range.
\<close>

theorem fresh_allocator_ascending:
  assumes "port_allocator_new lo hi = Some s0" and "n \<le> unat hi - unat lo + 1"
  shows "map unat (fst (alloc_many allocate_port s0 (replicate n None)))
    = [unat lo ..< unat lo + n]"
proof -
  from assms(1) have av: "available_ports s0 = word_range lo hi" and le: "lo \<le> hi"
    by (auto simp: port_allocator_new_def split: if_splits)
  from le have ule: "unat lo \<le> unat hi" by (simp add: word_le_nat_alt)
  with assms(2) av have "fst (alloc_many allocate_port s0 (replicate n None))
      = take n (word_range lo hi)"
    by (simp add: alloc_next_many length_word_range)
  moreover have "map unat (word_range lo hi) = [unat lo ..< Suc (unat hi)]"
  proof -
    have "map (unat \<circ> (of_nat :: nat \<Rightarrow> u16)) [unat lo ..< Suc (unat hi)]
        = map id [unat lo ..< Suc (unat hi)]"
      using unat_u16_less [of hi]
      by (intro map_cong) (auto simp: unat_of_nat_u16 simp del: upt_Suc)
    then show ?thesis by (simp add: word_range_def del: upt_Suc)
  qed
  ultimately show ?thesis using assms(2) ule
    by (simp add: take_map [symmetric] take_upt del: upt_Suc)
qed

theorem fresh_allocator_ascending_witness:
  "map unat (fst (alloc_many allocate_port
      \<lparr>min_port = 7, max_port = 9, allocated_ports = {}, available_ports = [7, 8, 9],
       next_port = 7\<rparr> [None, None])) = [7, 8]"
proof -
  have new: "port_allocator_new 7 9 = Some \<lparr>min_port = 7, max_port = 9,
      allocated_ports = {}, available_ports = [7, 8, 9], next_port = 7\<rparr>"
    by (simp add: port_allocator_new_def word_range_def upt_rec)
  from fresh_allocator_ascending [OF new, of "Suc (Suc 0)"] show ?thesis
    by (simp add: upt_rec del: alloc_many.simps)
qed

text \<open>
  the comment on \<open>release_port\<close> says that re-adding a port keeps the free queue in
  sorted order. It does not: with the range 1 to 3 fully allocated, releasing 1 and then 2
  leaves the queue \<open>2, 1\<close>, and the next unconstrained request is served 2 although 1 is
  free.
\<close>

theorem release_order_not_sorted:
  "\<exists>s0 ops. port_allocator_new 1 3 = Some s0 \<and>
     \<not> sorted (available_ports (fold pa_apply ops s0)) \<and>
     fst (allocate_port (fold pa_apply ops s0) None) = Inr 2 \<and>
     1 \<notin> allocated_ports (fold pa_apply ops s0)"
proof -
  let ?s0 = "\<lparr>min_port = 1, max_port = 3, allocated_ports = {},
      available_ports = [1, 2, 3], next_port = 1 :: u16\<rparr>"
  let ?ops = "[Alloc (Some 3), Alloc None, Alloc None, Release 1, Release 2]"
  have new: "port_allocator_new 1 3 = Some ?s0"
    by (simp add: port_allocator_new_def word_range_def upt_rec)
  have "available_ports (fold pa_apply ?ops ?s0) = [2, 1]"
    and "fst (allocate_port (fold pa_apply ?ops ?s0) None) = Inr 2"
    and "1 \<notin> allocated_ports (fold pa_apply ?ops ?s0)"
    by (simp_all add: op_defs Let_def)
  moreover have "\<not> sorted [2, 1 :: u16]" by (simp add: word_le_nat_alt)
  ultimately show ?thesis using new by metis
qed

end
