(* ===== verification/Connection.thy ===== *)
theory Connection
  imports Protocol
begin

section \<open>Connection approval (src/connection.rs)\<close>

text \<open>
  The pending and the active connections and the five operations on them. \<open>Uuid\<close>s and
  \<open>Instant\<close>s come from outside, so they are arguments. A \<open>oneshot::Sender\<close> is its
  number; what becomes of a sender - a decision is sent through it, or it is dropped with its
  request, which tells the receiver that no decision will come - is a list of channel events
  that every operation answers beside its result and the new state.
\<close>

subsection \<open>Data\<close>

type_synonym uuid = "128 word"
type_synonym instant = nat
type_synonym sender = nat

datatype socket_addr =
    SocketAddrV4 "u8 list" u16
  | SocketAddrV6 "u8 list" u16 u32 u32

datatype connection_state = Pending | Approved | Rejected | Active | Closed

datatype db_type = Postgres | MySQL | Redis | MongoDB | CustomDb string

datatype service_type = Database db_type | WebService | SshService | CustomService string

datatype connection_type =
    Forward proxy_target proxy_protocol
  | ReverseTunnel service_type "u16 option"

datatype connection_approval =
    DecisionApproved
  | DecisionApprovedWithPort u16
  | DecisionRejected string

record connection_request =
  req_id :: uuid
  client_addr :: socket_addr
  connection_type :: connection_type
  req_state :: connection_state
  decision_tx :: "sender option"

datatype connection_error = NotFound | InvalidState

record connection_manager =
  pending :: "uuid \<rightharpoonup> connection_request"
  active :: "uuid \<rightharpoonup> instant"

datatype channel_event = Sent sender connection_approval | Dropped sender

fun event_sender :: "channel_event \<Rightarrow> sender" where
  "event_sender (Sent t d) = t"
| "event_sender (Dropped t) = t"

text \<open>
  The order of the states along the life of a request, so that "never goes back" is \<open>\<le>\<close>.
\<close>

fun state_rank :: "connection_state \<Rightarrow> nat" where
  "state_rank Pending = 0"
| "state_rank Approved = 1"
| "state_rank Rejected = 2"
| "state_rank Active = 3"
| "state_rank Closed = 4"

instantiation connection_state :: linorder
begin

definition less_eq_connection_state :: "connection_state \<Rightarrow> connection_state \<Rightarrow> bool" where
  "less_eq_connection_state a b \<longleftrightarrow> state_rank a \<le> state_rank b"

definition less_connection_state :: "connection_state \<Rightarrow> connection_state \<Rightarrow> bool" where
  "less_connection_state a b \<longleftrightarrow> state_rank a < state_rank b"

instance
proof
  fix a b c :: connection_state
  show "a \<le> a" by (simp add: less_eq_connection_state_def)
  show "a < b \<longleftrightarrow> a \<le> b \<and> \<not> b \<le> a"
    by (auto simp: less_eq_connection_state_def less_connection_state_def)
  show "a \<le> b \<Longrightarrow> b \<le> c \<Longrightarrow> a \<le> c" by (simp add: less_eq_connection_state_def)
  show "a \<le> b \<Longrightarrow> b \<le> a \<Longrightarrow> a = b"
    by (cases a; cases b) (simp_all add: less_eq_connection_state_def)
  show "a \<le> b \<or> b \<le> a" by (auto simp: less_eq_connection_state_def)
qed

end

subsection \<open>Operations\<close>

definition connection_request_new ::
  "uuid \<Rightarrow> socket_addr \<Rightarrow> connection_type \<Rightarrow> sender option \<Rightarrow> connection_request" where
  "connection_request_new i addr ctype dtx =
     \<lparr>req_id = i, client_addr = addr, connection_type = ctype, req_state = Pending,
      decision_tx = dtx\<rparr>"

definition connection_manager_new :: connection_manager where
  "connection_manager_new = \<lparr>pending = Map.empty, active = Map.empty\<rparr>"

text \<open>The channel event of a request that goes out of scope.\<close>

definition drop_request :: "connection_request \<Rightarrow> channel_event list" where
  "drop_request r = (case decision_tx r of None \<Rightarrow> [] | Some t \<Rightarrow> [Dropped t])"

definition send_decision :: "connection_request \<Rightarrow> connection_approval \<Rightarrow> channel_event list" where
  "send_decision r d = (case decision_tx r of None \<Rightarrow> [] | Some t \<Rightarrow> [Sent t d])"

text \<open>\<open>HashMap::insert\<close> drops the request it replaces.\<close>

definition add_pending ::
  "connection_manager \<Rightarrow> connection_request \<Rightarrow> connection_manager \<times> channel_event list" where
  "add_pending m request =
     (m\<lparr>pending := (pending m)(req_id request \<mapsto> request)\<rparr>,
      case pending m (req_id request) of None \<Rightarrow> [] | Some old \<Rightarrow> drop_request old)"

definition approve_connection ::
  "connection_manager \<Rightarrow> uuid \<Rightarrow>
   (connection_error + unit) \<times> connection_manager \<times> channel_event list" where
  "approve_connection m i =
     (case pending m i of
        None \<Rightarrow> (Inl NotFound, m, [])
      | Some request \<Rightarrow>
          if req_state request \<noteq> Pending then (Inl InvalidState, m, [])
          else (Inr (),
                m\<lparr>pending := (pending m)(i \<mapsto>
                    request\<lparr>req_state := Approved, decision_tx := None\<rparr>)\<rparr>,
                send_decision request DecisionApproved))"

definition reject_connection ::
  "connection_manager \<Rightarrow> uuid \<Rightarrow> string \<Rightarrow>
   (connection_error + unit) \<times> connection_manager \<times> channel_event list" where
  "reject_connection m i reason =
     (case pending m i of
        None \<Rightarrow> (Inl NotFound, m, [])
      | Some request \<Rightarrow>
          let m' = m\<lparr>pending := (pending m)(i := None)\<rparr> in
          if req_state request \<noteq> Pending then (Inl InvalidState, m', drop_request request)
          else (Inr (), m', send_decision request (DecisionRejected reason)))"

definition activate_connection ::
  "connection_manager \<Rightarrow> uuid \<Rightarrow> instant \<Rightarrow>
   (connection_error + unit) \<times> connection_manager \<times> channel_event list" where
  "activate_connection m i now =
     (case pending m i of
        None \<Rightarrow> (Inl NotFound, m, [])
      | Some request \<Rightarrow>
          let m' = m\<lparr>pending := (pending m)(i := None)\<rparr> in
          if req_state request \<noteq> Approved then (Inl InvalidState, m', drop_request request)
          else (Inr (), m'\<lparr>active := (active m')(i \<mapsto> now)\<rparr>, drop_request request))"

definition close_connection ::
  "connection_manager \<Rightarrow> uuid \<Rightarrow> (connection_error + unit) \<times> connection_manager" where
  "close_connection m i =
     (if active m i \<noteq> None then (Inr (), m\<lparr>active := (active m)(i := None)\<rparr>)
      else (Inl NotFound, m))"

lemmas [op_defs] =
  add_pending_def approve_connection_def reject_connection_def activate_connection_def
  close_connection_def

subsection \<open>Sequences of operations\<close>

text \<open>
  A request is added as \<open>ConnectionRequest::new\<close> makes it, the only way in which the source
  makes one; its state field is public, so the crate could add a request in another state.
\<close>

datatype cm_op =
    Add uuid socket_addr connection_type "sender option"
  | Approve uuid
  | Reject uuid string
  | Activate uuid instant
  | Close uuid

fun cm_step :: "cm_op \<Rightarrow> connection_manager \<Rightarrow> connection_manager \<times> channel_event list" where
  "cm_step (Add i addr ctype dtx) m = add_pending m (connection_request_new i addr ctype dtx)"
| "cm_step (Approve i) m = snd (approve_connection m i)"
| "cm_step (Reject i reason) m = snd (reject_connection m i reason)"
| "cm_step (Activate i now) m = snd (activate_connection m i now)"
| "cm_step (Close i) m = (snd (close_connection m i), [])"

fun cm_run ::
  "cm_op list \<Rightarrow> connection_manager \<Rightarrow> connection_manager \<times> channel_event list" where
  "cm_run [] m = (m, [])"
| "cm_run (x # xs) m =
     (let (m', es) = cm_step x m; (m'', fs) = cm_run xs m' in (m'', es @ fs))"

abbreviation cm_after :: "cm_op list \<Rightarrow> connection_manager" where
  "cm_after ops \<equiv> fst (cm_run ops connection_manager_new)"

abbreviation cm_events :: "cm_op list \<Rightarrow> channel_event list" where
  "cm_events ops \<equiv> snd (cm_run ops connection_manager_new)"

lemma cm_run_append:
  "cm_run (xs @ ys) m =
     (let (m', es) = cm_run xs m; (m'', fs) = cm_run ys m' in (m'', es @ fs))"
  by (induction xs arbitrary: m) (auto simp: Let_def split: prod.splits)

lemma cm_run_fst_fold: "fst (cm_run xs m) = fold (\<lambda>x m. fst (cm_step x m)) xs m"
  by (induction xs arbitrary: m) (simp_all add: Let_def split_beta)

subsection \<open>The invariant\<close>

text \<open>
  A request is stored under its own i, and is either still undecided or approved with its
  sender used up.
\<close>

definition cm_inv :: "connection_manager \<Rightarrow> bool" where
  "cm_inv m \<longleftrightarrow> (\<forall>i r. pending m i = Some r \<longrightarrow> req_id r = i \<and>
     (req_state r = Pending \<or> req_state r = Approved \<and> decision_tx r = None))"

lemma cm_inv_new [inv_intros]: "cm_inv connection_manager_new"
  by (simp add: cm_inv_def connection_manager_new_def)

lemma cm_inv_step [inv_intros]: "cm_inv m \<Longrightarrow> cm_inv (fst (cm_step x m))"
  by (cases x)
     (auto simp: cm_inv_def op_defs connection_request_new_def Let_def split: option.splits)

interpretation cm_machine: op_machine "\<lambda>x m. fst (cm_step x m)" cm_inv
  by unfold_locales (rule cm_inv_step)

lemma cm_inv_reachable: "cm_inv (cm_after ops)"
  unfolding cm_run_fst_fold by (rule cm_machine.inv_fold [OF cm_inv_new])

lemma cm_run_snoc:
  "cm_after (ops @ [x]) = fst (cm_step x (cm_after ops))"
  "cm_events (ops @ [x]) = cm_events ops @ snd (cm_step x (cm_after ops))"
  by (simp_all add: cm_run_append Let_def split: prod.splits)

subsection \<open>Where the active connections come from\<close>

lemma active_step:
  assumes "active (fst (cm_step x m)) i = Some t"
  shows "active m i = Some t \<or>
    x = Activate i t \<and> (\<exists>r. pending m i = Some r \<and> req_state r = Approved)"
  using assms
  by (cases x) (auto simp: op_defs Let_def split: option.splits if_splits)

lemma approved_step:
  assumes "pending (fst (cm_step x m)) i = Some r" and "req_state r = Approved"
  shows "(\<exists>r'. pending m i = Some r' \<and> req_state r' = Approved) \<or>
    x = Approve i \<and> fst (approve_connection m i) = Inr ()"
  using assms
  by (cases x)
     (auto simp: op_defs connection_request_new_def Let_def split: option.splits if_splits)

lemma approved_history:
  "pending (cm_after ops) i = Some r \<Longrightarrow> req_state r = Approved \<Longrightarrow>
   \<exists>xs ys. ops = xs @ Approve i # ys \<and> fst (approve_connection (cm_after xs) i) = Inr ()"
proof (induction ops arbitrary: r rule: rev_induct)
  case Nil
  then show ?case by (simp add: connection_manager_new_def)
next
  case (snoc x ops)
  from approved_step [OF snoc.prems [unfolded cm_run_snoc]]
  consider (old) r' where "pending (cm_after ops) i = Some r'" "req_state r' = Approved"
    | (new) "x = Approve i" "fst (approve_connection (cm_after ops) i) = Inr ()" by blast
  then show ?case
  proof cases
    case old
    from snoc.IH [OF this] show ?thesis by fastforce
  next
    case new
    then show ?thesis by blast
  qed
qed

subsection \<open>The senders\<close>

fun op_senders :: "cm_op \<Rightarrow> sender list" where
  "op_senders (Add i addr ctype (Some t)) = [t]"
| "op_senders _ = []"

definition waiting_senders :: "connection_manager \<Rightarrow> sender set" where
  "waiting_senders m = {t. \<exists>i r. pending m i = Some r \<and> decision_tx r = Some t}"

definition senders_distinct :: "connection_manager \<Rightarrow> bool" where
  "senders_distinct m \<longleftrightarrow> (\<forall>i j r q t. pending m i = Some r \<and> decision_tx r = Some t \<and>
     pending m j = Some q \<and> decision_tx q = Some t \<longrightarrow> i = j)"

lemma step_senders_distinct:
  assumes "senders_distinct m" and "set (op_senders x) \<inter> waiting_senders m = {}"
  shows "senders_distinct (fst (cm_step x m))"
  using assms
  by (cases x; cases "case x of Add i a c (Some t) \<Rightarrow> True | _ \<Rightarrow> False")
     (auto simp: senders_distinct_def waiting_senders_def op_defs connection_request_new_def Let_def
       split: option.splits if_splits)

lemma step_events:
  "distinct (map event_sender (snd (cm_step x m))) \<and>
   set (map event_sender (snd (cm_step x m))) \<subseteq> waiting_senders m"
  by (cases x)
     (auto simp: waiting_senders_def op_defs drop_request_def send_decision_def Let_def
       split: option.splits if_splits)

lemma senders_distinctD:
  "senders_distinct m \<Longrightarrow> pending m i = Some r \<Longrightarrow> pending m j = Some q \<Longrightarrow>
   decision_tx r = decision_tx q \<Longrightarrow> Some t = decision_tx q \<Longrightarrow> i = j"
  unfolding senders_distinct_def by metis

lemma step_waiting:
  assumes "senders_distinct m" and "set (op_senders x) \<inter> waiting_senders m = {}"
  shows "waiting_senders (fst (cm_step x m)) \<subseteq>
      waiting_senders m \<union> set (op_senders x) - set (map event_sender (snd (cm_step x m)))"
proof (cases x)
  case (Add i addr ctype dtx)
  show ?thesis
  proof (cases "pending m i")
    case None
    with Add show ?thesis
      by (auto simp: waiting_senders_def add_pending_def connection_request_new_def
          split: if_splits)
  next
    case (Some old)
    with Add assms show ?thesis
      by (cases "decision_tx old"; cases dtx)
         (auto simp: waiting_senders_def add_pending_def drop_request_def
           connection_request_new_def dest: senders_distinctD [OF _ _ Some] split: if_splits)
  qed
qed (insert assms, auto simp: waiting_senders_def op_defs drop_request_def send_decision_def
    Let_def dest: senders_distinctD split: option.splits if_splits)

text \<open>A step leaves a request that holds a sender as it is, or uses the sender.\<close>

lemma request_fate:
  assumes "pending m j = Some q" and "decision_tx q = Some t"
  shows "pending (fst (cm_step x m)) j = Some q \<or>
    t \<in> event_sender ` set (snd (cm_step x m))"
  using assms
  by (cases x)
     (auto simp: op_defs drop_request_def send_decision_def connection_request_new_def Let_def
       split: option.split)

lemma step_kept:
  "waiting_senders m \<union> set (op_senders x) \<subseteq>
   waiting_senders (fst (cm_step x m)) \<union> event_sender ` set (snd (cm_step x m))"
proof -
  have "t \<in> waiting_senders (fst (cm_step x m))" if "t \<in> set (op_senders x)" for t
    using that
    by (cases x rule: op_senders.cases)
       (auto simp: waiting_senders_def add_pending_def connection_request_new_def)
  moreover have "t \<in> waiting_senders (fst (cm_step x m)) \<union> event_sender ` set (snd (cm_step x m))"
    if "t \<in> waiting_senders m" for t
  proof -
    from that obtain j q where q: "pending m j = Some q" "decision_tx q = Some t"
      by (auto simp: waiting_senders_def)
    from request_fate [OF q, of x] q(2) show ?thesis by (auto simp: waiting_senders_def)
  qed
  ultimately show ?thesis by blast
qed

lemma senders_run:
  assumes "distinct (concat (map op_senders ops))"
  shows "senders_distinct (cm_after ops) \<and> distinct (map event_sender (cm_events ops)) \<and>
    waiting_senders (cm_after ops) \<inter> event_sender ` set (cm_events ops) = {} \<and>
    waiting_senders (cm_after ops) \<union> event_sender ` set (cm_events ops)
      = set (concat (map op_senders ops))"
  using assms
proof (induction ops rule: rev_induct)
  case Nil
  then show ?case
    by (simp add: senders_distinct_def waiting_senders_def connection_manager_new_def)
next
  case (snoc x ops)
  let ?m = "cm_after ops" and ?E = "event_sender ` set (cm_events ops)"
  let ?F = "event_sender ` set (snd (cm_step x ?m))" and ?N = "set (op_senders x)"
  let ?S = "set (concat (map op_senders ops))"
  from snoc.prems have d: "distinct (concat (map op_senders ops))" and new: "?N \<inter> ?S = {}"
    by auto
  from snoc.IH [OF d] have IH: "senders_distinct ?m" "distinct (map event_sender (cm_events ops))"
    "waiting_senders ?m \<inter> ?E = {}" "waiting_senders ?m \<union> ?E = ?S" by auto
  with new have fresh: "?N \<inter> waiting_senders ?m = {}" by blast
  have st: "?F \<subseteq> waiting_senders ?m" "distinct (map event_sender (snd (cm_step x ?m)))"
    "waiting_senders (fst (cm_step x ?m)) \<subseteq> waiting_senders ?m \<union> ?N - ?F"
    using step_events [of x ?m] step_waiting [OF IH(1) fresh] by auto
  have ev: "event_sender ` set (cm_events (ops @ [x])) = ?E \<union> ?F"
    and se: "set (concat (map op_senders (ops @ [x]))) = ?S \<union> ?N"
    by (simp_all add: cm_run_snoc image_Un)
  from st(1) IH(3) have "?E \<inter> ?F = {}" by blast
  then have "distinct (map event_sender (cm_events (ops @ [x])))"
    using st(2) IH(2) by (simp add: cm_run_snoc)
  moreover have "waiting_senders (cm_after (ops @ [x])) \<inter> (?E \<union> ?F) = {}"
    unfolding cm_run_snoc(1) using st(3) IH(3,4) new by blast
  moreover have "waiting_senders (cm_after (ops @ [x])) \<union> (?E \<union> ?F) = ?S \<union> ?N"
    unfolding cm_run_snoc(1) using st(1,3) step_kept [of ?m x] IH(4) by blast
  ultimately show ?case
    unfolding ev se using step_senders_distinct [OF IH(1) fresh] by (simp add: cm_run_snoc)
qed

subsection \<open>Properties\<close>

text \<open>
  C18: no connection is active without an approval. Whatever sequence of operations was made,
  an active connection was activated by an \<open>activate_connection\<close> of that id, made after an
  \<open>approve_connection\<close> of that id that succeeded.
\<close>

theorem active_needs_approval:
  assumes "active (cm_after ops) i = Some t"
  shows "\<exists>xs ys zs. ops = xs @ Approve i # ys @ Activate i t # zs \<and>
    fst (approve_connection (cm_after xs) i) = Inr ()"
  using assms
proof (induction ops rule: rev_induct)
  case Nil
  then show ?case by (simp add: connection_manager_new_def)
next
  case (snoc x ops)
  from active_step [OF snoc.prems [unfolded cm_run_snoc]]
  consider (old) "active (cm_after ops) i = Some t"
    | (new) r where "x = Activate i t" "pending (cm_after ops) i = Some r" "req_state r = Approved"
    by blast
  then show ?case
  proof cases
    case old
    from snoc.IH [OF this] show ?thesis by fastforce
  next
    case new
    from approved_history [OF new(2,3)] obtain xs ys where
      "ops = xs @ Approve i # ys" "fst (approve_connection (cm_after xs) i) = Inr ()" by blast
    with new(1) show ?thesis by fastforce
  qed
qed

theorem active_needs_approval_witness:
  "active (cm_after [Add 7 (SocketAddrV4 [127, 0, 0, 1] 9) (ReverseTunnel WebService None) (Some 3),
      Approve 7, Activate 7 55]) 7 = Some 55 \<and>
   (\<exists>xs ys zs. [Add 7 (SocketAddrV4 [127, 0, 0, 1] 9) (ReverseTunnel WebService None) (Some 3),
      Approve 7, Activate 7 55] = xs @ Approve 7 # ys @ Activate 7 55 # zs)"
proof -
  let ?ops = "[Add 7 (SocketAddrV4 [127, 0, 0, 1] 9) (ReverseTunnel WebService None) (Some 3),
      Approve 7, Activate 7 55]"
  have a: "active (cm_after ?ops) 7 = Some 55"
    by (simp add: op_defs connection_manager_new_def connection_request_new_def Let_def)
  from active_needs_approval [OF a] a show ?thesis by blast
qed

text \<open>
  C19: every requester gets exactly one answer or is still waiting. If the senders handed in are
  distinct, then after any sequence of operations no sender has been used or dropped twice, no
  used sender is still stored in a pending request, and every sender handed in is either still
  stored or was used or dropped: none is lost.
\<close>

theorem one_decision_per_sender:
  assumes "distinct (concat (map op_senders ops))"
  shows "distinct (map event_sender (cm_events ops)) \<and>
    waiting_senders (cm_after ops) \<inter> event_sender ` set (cm_events ops) = {} \<and>
    waiting_senders (cm_after ops) \<union> event_sender ` set (cm_events ops)
      = set (concat (map op_senders ops))"
  using senders_run [OF assms] by blast

theorem one_decision_per_sender_witness:
  "map event_sender (cm_events [Add 1 (SocketAddrV4 [127, 0, 0, 1] 9) (ReverseTunnel WebService None) (Some 3),
      Add 2 (SocketAddrV4 [127, 0, 0, 1] 9) (ReverseTunnel WebService None) (Some 4),
      Approve 1, Reject 2 ''no'', Approve 1]) = [3, 4] \<and> distinct [3 :: nat, 4]"
proof -
  let ?ops = "[Add 1 (SocketAddrV4 [127, 0, 0, 1] 9) (ReverseTunnel WebService None) (Some 3),
      Add 2 (SocketAddrV4 [127, 0, 0, 1] 9) (ReverseTunnel WebService None) (Some 4),
      Approve 1, Reject 2 ''no'', Approve 1]"
  have e: "map event_sender (cm_events ?ops) = [3, 4]"
    by (simp add: op_defs connection_manager_new_def connection_request_new_def Let_def
        send_decision_def)
  have "distinct (concat (map op_senders ?ops))" by simp
  from one_decision_per_sender [OF this] e show ?thesis by metis
qed

text \<open>
  a request never goes back. As long as a request stays pending under its id, no operation
  other than its replacement by a new request of the same id moves its state down the order
  \<open>Pending < Approved\<close>, and the only change is from \<open>Pending\<close> to \<open>Approved\<close>, made
  together with the sending of the approval.
\<close>

theorem pending_state_monotone:
  assumes "pending m i = Some r" and "pending (fst (cm_step x m)) i = Some r'"
    and "\<forall>addr ctype dtx. x \<noteq> Add i addr ctype dtx"
  shows "req_state r \<le> req_state r' \<and>
    (req_state r \<noteq> req_state r' \<longrightarrow> x = Approve i \<and> req_state r = Pending \<and>
       req_state r' = Approved \<and> snd (cm_step x m) = send_decision r DecisionApproved)"
  using assms
  by (cases x)
     (auto simp: op_defs less_eq_connection_state_def connection_request_new_def Let_def
       split: option.splits if_splits)

theorem pending_state_monotone_witness:
  "(Pending :: connection_state) \<le> Approved \<and>
   snd (cm_step (Approve 7) (cm_after
     [Add 7 (SocketAddrV4 [127, 0, 0, 1] 9) (ReverseTunnel WebService None) (Some 3)]))
   = [Sent 3 DecisionApproved]"
proof -
  let ?r = "connection_request_new 7 (SocketAddrV4 [127, 0, 0, 1] 9)
      (ReverseTunnel WebService None) (Some 3)"
  let ?m = "cm_after [Add 7 (SocketAddrV4 [127, 0, 0, 1] 9) (ReverseTunnel WebService None) (Some 3)]"
  have a: "pending ?m 7 = Some ?r"
    by (simp add: op_defs connection_manager_new_def connection_request_new_def Let_def)
  have b: "pending (fst (cm_step (Approve 7) ?m)) 7
      = Some (?r\<lparr>req_state := Approved, decision_tx := None\<rparr>)"
    by (simp add: op_defs connection_manager_new_def connection_request_new_def Let_def)
  from pending_state_monotone [OF a b] show ?thesis
    by (simp add: connection_request_new_def send_decision_def)
qed

text \<open>
  C39: a failed \<open>reject_connection\<close> is not harmless. On an approved request it answers
  \<open>InvalidState\<close>, but it has already removed the request, so the approval that was sent can
  never be turned into an active connection: \<open>activate_connection\<close> answers
  \<open>NotFound\<close>. Likewise a premature \<open>activate_connection\<close> of an undecided request
  answers \<open>InvalidState\<close> and removes it, dropping its sender without a decision.
\<close>

theorem failed_calls_remove_request:
  assumes "pending (cm_after ops) i = Some r"
  shows "(req_state r = Approved \<longrightarrow>
      fst (reject_connection (cm_after ops) i reason) = Inl InvalidState \<and>
      fst (activate_connection (cm_after (ops @ [Reject i reason])) i now) = Inl NotFound) \<and>
    (req_state r = Pending \<longrightarrow>
      fst (activate_connection (cm_after ops) i now) = Inl InvalidState \<and>
      snd (cm_step (Activate i now) (cm_after ops)) = drop_request r \<and>
      fst (approve_connection (cm_after (ops @ [Activate i now])) i) = Inl NotFound)"
  using assms by (auto simp: cm_run_snoc op_defs Let_def)

theorem failed_calls_remove_request_witness:
  "fst (activate_connection (cm_after
     ([Add 7 (SocketAddrV4 [127, 0, 0, 1] 9) (ReverseTunnel WebService None) (Some 3), Approve 7]
      @ [Reject 7 ''late''])) 7 55) = Inl NotFound"
proof -
  let ?ops = "[Add 7 (SocketAddrV4 [127, 0, 0, 1] 9) (ReverseTunnel WebService None) (Some 3),
      Approve 7]"
  let ?r = "(connection_request_new 7 (SocketAddrV4 [127, 0, 0, 1] 9)
      (ReverseTunnel WebService None) (Some 3))\<lparr>req_state := Approved, decision_tx := None\<rparr>"
  have "pending (cm_after ?ops) 7 = Some ?r"
    by (simp add: op_defs connection_manager_new_def connection_request_new_def Let_def)
  from failed_calls_remove_request [OF this, of "''late''" 55] show ?thesis by simp
qed

end
