(* ===== verification/Relay.thy ===== *)
theory Relay
  imports Net_Stream
begin

section \<open>Relaying data between two streams (src/stream.rs)\<close>

text \<open>
  One direction of a tunnel reads from one stream and writes to another until the reader ends
  or something fails; a tunnel runs two directions at once under \<open>tokio::try_join!\<close>. The
  state of a direction is what its reader will still deliver and what its writer has accepted.
  A step is one round of the loop of \<open>relay_with_logging\<close>; its argument is the number of
  bytes that have arrived when the reader is polled, so a list of steps is one possible
  segmentation and interleaving of the run.
\<close>

subsection \<open>One direction\<close>

datatype relay_status = Running | Finished | Stopped io_error

record relay =
  buf_size :: nat
  src :: "rx_event list"
  dst :: "u8 list"
  dst_limit :: "(nat \<times> io_error) option"
  shutdown_error :: "io_error option"
  is_shut :: bool
  total :: u64
  status :: relay_status

definition relay_new ::
  "nat \<Rightarrow> rx_event list \<Rightarrow> (nat \<times> io_error) option \<Rightarrow> io_error option \<Rightarrow> relay" where
  "relay_new n es limit sd =
     \<lparr>buf_size = n, src = es, dst = [], dst_limit = limit, shutdown_error = sd,
      is_shut = False, total = 0, status = Running\<rparr>"

fun front_bytes :: "rx_event list \<Rightarrow> u8 list" where
  "front_bytes (Byte b # es) = b # front_bytes es"
| "front_bytes _ = []"

text \<open>\<open>write.write_all(&buf[..n]).await?; total += n as u64;\<close>\<close>

definition relay_write :: "u8 list \<Rightarrow> relay \<Rightarrow> relay" where
  "relay_write bs r =
     (case dst_limit r of
        None \<Rightarrow> r\<lparr>dst := dst r @ bs, total := total r + of_nat (length bs)\<rparr>
      | Some (k, e) \<Rightarrow>
          if length bs \<le> k
          then r\<lparr>dst := dst r @ bs, dst_limit := Some (k - length bs, e),
                 total := total r + of_nat (length bs)\<rparr>
          else r\<lparr>dst := dst r @ take k bs, dst_limit := Some (0, e), status := Stopped e\<rparr>)"

definition relay_shutdown :: "relay \<Rightarrow> relay" where
  "relay_shutdown r =
     (case shutdown_error r of
        None \<Rightarrow> r\<lparr>is_shut := True, status := Finished\<rparr>
      | Some e \<Rightarrow> r\<lparr>status := Stopped e\<rparr>)"

text \<open>
  One round of the loop: nothing happens while the reader is silent; a chunk of at most
  \<open>buf_size\<close> of the \<open>arrived\<close> bytes is written and counted; the end of the stream shuts the
  writer down; an error of the reader ends the loop without a shutdown.
\<close>

definition relay_step :: "nat \<Rightarrow> relay \<Rightarrow> relay" where
  "relay_step arrived r =
     (if status r \<noteq> Running then r
      else case src r of
        [] \<Rightarrow> r
      | Byte b # _ \<Rightarrow>
          let n = min (buf_size r) (max 1 arrived); bs = take n (front_bytes (src r))
          in relay_write bs (r\<lparr>src := drop (length bs) (src r)\<rparr>)
      | Fin # _ \<Rightarrow> relay_shutdown r
      | Broken e # _ \<Rightarrow> r\<lparr>status := Stopped e\<rparr>)"

definition relay_run :: "nat list \<Rightarrow> relay \<Rightarrow> relay" where
  "relay_run ks r = fold relay_step ks r"

subsection \<open>The invariant of one direction\<close>

text \<open>
  Relative to the start state \<open>r0\<close>: the writer holds a prefix of the reader's bytes, the rest
  of the bytes is still to be read (all of it, unless a write failed half way), the count is
  the number of bytes written, and the writer is shut down exactly when the direction finished.
\<close>

definition relay_inv :: "relay \<Rightarrow> relay \<Rightarrow> bool" where
  "relay_inv r0 r \<longleftrightarrow>
     buf_size r = buf_size r0 \<and>
     (\<exists>n m. m \<le> n \<and> n \<le> length (front_bytes (src r0)) \<and> src r = drop n (src r0) \<and>
        dst r = dst r0 @ take m (front_bytes (src r0)) \<and>
        ((\<forall>e. status r \<noteq> Stopped e) \<longrightarrow> m = n \<and> total r = total r0 + of_nat m) \<and>
        (status r = Finished \<longrightarrow> n = length (front_bytes (src r0)) \<and> (\<exists>es. src r = Fin # es))) \<and>
     (is_shut r \<longleftrightarrow> status r = Finished)"

lemma front_bytes_drop:
  "n \<le> length (front_bytes es) \<Longrightarrow> front_bytes (drop n es) = drop n (front_bytes es)"
  by (induction es arbitrary: n rule: front_bytes.induct) (auto simp: drop_Cons split: nat.splits)

lemma front_bytes_end:
  "n \<le> length (front_bytes es) \<Longrightarrow> drop n es = Fin # fs \<Longrightarrow> n = length (front_bytes es)"
  by (induction es arbitrary: n rule: front_bytes.induct) (auto simp: drop_Cons split: nat.splits)

lemma relay_inv_start:
  "status r0 = Running \<Longrightarrow> \<not> is_shut r0 \<Longrightarrow> relay_inv r0 r0"
  by (auto simp: relay_inv_def intro!: exI [of _ 0])

lemma relay_invI:
  assumes "m \<le> n" and "n \<le> length (front_bytes (src r0))" and "src r = drop n (src r0)"
    and "dst r = dst r0 @ take m (front_bytes (src r0))" and "buf_size r = buf_size r0"
    and "\<forall>e. status r \<noteq> Stopped e \<Longrightarrow> m = n \<and> total r = total r0 + of_nat m"
    and "status r \<noteq> Finished" and "\<not> is_shut r"
  shows "relay_inv r0 r"
  using assms unfolding relay_inv_def by blast

lemma relay_inv_write:
  assumes "relay_inv r0 r" and "status r = Running" and "bs = take k (front_bytes (src r))"
  shows "relay_inv r0 (relay_write bs (r\<lparr>src := drop (length bs) (src r)\<rparr>))"
proof -
  let ?F = "front_bytes (src r0)"
  from assms(1,2) obtain n where n: "n \<le> length ?F" "src r = drop n (src r0)"
    "dst r = dst r0 @ take n ?F" "total r = total r0 + of_nat n" "buf_size r = buf_size r0"
    "\<not> is_shut r"
    by (auto simp: relay_inv_def)
  from n assms(3) have bs: "bs = take k (drop n ?F)" by (simp add: front_bytes_drop)
  then have len: "n + length bs \<le> length ?F" using n(1) by simp
  from bs have bs': "bs = take (length bs) (drop n ?F)"
    by (metis append_eq_conv_conj append_take_drop_id)
  have tk: "take n ?F @ take j bs = take (n + min j (length bs)) ?F" for j
    using bs' by (metis min.commute take_add take_take)
  have src: "drop (length bs) (src r) = drop (n + length bs) (src r0)"
    using n(2) by (simp add: add.commute)
  show ?thesis
  proof (cases "dst_limit r")
    case None
    with n len src tk [of "length bs"] assms(2) show ?thesis
      by (auto simp: relay_inv_def relay_write_def intro!: exI [of _ "n + length bs"])
  next
    case (Some ke)
    obtain j e where ke: "ke = (j, e)" by (cases ke)
    show ?thesis
    proof (cases "length bs \<le> j")
      case True
      with Some ke n len src tk [of "length bs"] assms(2) show ?thesis
        by (auto simp: relay_inv_def relay_write_def intro!: exI [of _ "n + length bs"])
    next
      case False
      with Some ke n len src tk [of j] show ?thesis
        by (intro relay_invI [of "n + j" "n + length bs"]) (simp_all add: relay_write_def)
    qed
  qed
qed

lemma relay_inv_step [inv_intros]:
  assumes "relay_inv r0 r"
  shows "relay_inv r0 (relay_step k r)"
proof (cases "status r = Running")
  case run: True
  show ?thesis
  proof (cases "src r")
    case Nil
    with assms run show ?thesis by (simp add: relay_step_def)
  next
    case (Cons ev es)
    show ?thesis
    proof (cases ev)
      case (Byte b)
      with Cons run relay_inv_write [OF assms run refl] show ?thesis
        by (simp add: relay_step_def Let_def del: take_Cons)
    next
      case Fin
      with Cons run assms show ?thesis
        by (auto simp: relay_step_def relay_shutdown_def relay_inv_def split: option.splits
            dest: front_bytes_end [OF _ sym])
    next
      case (Broken e)
      with Cons run assms show ?thesis
        by (auto simp: relay_step_def relay_inv_def)
    qed
  qed
qed (use assms in \<open>simp add: relay_step_def\<close>)

interpretation relay_machine: op_machine relay_step "relay_inv r0" for r0
  by unfold_locales (rule relay_inv_step)

lemma relay_inv_run: "status r0 = Running \<Longrightarrow> \<not> is_shut r0 \<Longrightarrow> relay_inv r0 (relay_run ks r0)"
  unfolding relay_run_def by (rule relay_machine.inv_fold) (rule relay_inv_start)

lemma relay_frozen: "status r \<noteq> Running \<Longrightarrow> relay_step k r = r"
  by (simp add: relay_step_def)

text \<open>
  A reader that ends and a writer that accepts everything: the direction finishes after at
  most one round per byte and one for the end of the stream.
\<close>

lemma front_bytes_map [simp]: "front_bytes (map Byte bs @ Fin # es) = bs"
  by (induction bs) auto

lemma front_bytes_append: "front_bytes (map Byte bs @ es) = bs @ front_bytes es"
  by (induction bs) auto

lemma relay_step_bytes:
  fixes k :: nat
  assumes "status r = Running" and "src r = map Byte bs @ Fin # es" and "bs \<noteq> []"
    and "dst_limit r = None" and "0 < buf_size r"
  defines "n \<equiv> min (buf_size r) (max 1 k)"
  shows "relay_step k r = r\<lparr>src := map Byte (drop n bs) @ Fin # es, dst := dst r @ take n bs,
    total := total r + of_nat (length (take n bs))\<rparr>" and "0 < n"
proof -
  obtain b cs where bs: "bs = b # cs" using assms(3) by (cases bs) auto
  have s: "src r = Byte b # (map Byte cs @ Fin # es)" using assms(2) bs by simp
  have f: "front_bytes (src r) = bs" using assms(2) by simp
  have "drop (length (take n bs)) (src r) = map Byte (drop n bs) @ Fin # es"
    using assms(2) by (cases "n \<le> length bs") (simp_all add: drop_map)
  then show "relay_step k r = r\<lparr>src := map Byte (drop n bs) @ Fin # es, dst := dst r @ take n bs,
    total := total r + of_nat (length (take n bs))\<rparr>"
    using assms(1,4) s f unfolding n_def
    by (simp add: relay_step_def Let_def relay_write_def del: length_take)
  show "0 < n" using assms(5) by (simp add: n_def)
qed

lemma relay_finishes:
  assumes "status r = Running" and "src r = map Byte bs @ Fin # es" and "dst_limit r = None"
    and "shutdown_error r = None" and "0 < buf_size r" and "length bs < length ks"
  shows "status (fold relay_step ks r) = Finished"
  using assms
proof (induction ks arbitrary: r bs)
  case Nil
  then show ?case by simp
next
  case (Cons k ks)
  show ?case
  proof (cases "bs = []")
    case True
    with Cons.prems have "status (relay_step k r) = Finished"
      by (simp add: relay_step_def relay_shutdown_def)
    moreover have "fold relay_step ks t = t" if "status t = Finished" for t
      using that by (induction ks) (simp_all add: relay_frozen)
    ultimately show ?thesis by simp
  next
    case False
    define n where "n = min (buf_size r) (max 1 k)"
    from relay_step_bytes [OF Cons.prems(1,2) False Cons.prems(3,5), of k]
    have st: "relay_step k r = r\<lparr>src := map Byte (drop n bs) @ Fin # es, dst := dst r @ take n bs,
        total := total r + of_nat (length (take n bs))\<rparr>" and n: "0 < n"
      by (simp_all only: n_def)
    from n Cons.prems(6) False have "length (drop n bs) < length ks" by (cases bs) auto
    with Cons.IH [of "relay_step k r" "drop n bs"] Cons.prems(1-5) show ?thesis
      by (simp add: st)
  qed
qed

subsection \<open>Both directions under try_join\<close>

record tunnel =
  c2t :: relay
  t2c :: relay

datatype direction = C2T | T2C

definition stopped :: "relay \<Rightarrow> bool" where
  "stopped r = (case status r of Stopped e \<Rightarrow> True | _ \<Rightarrow> False)"

text \<open>
  \<open>try_join!\<close> polls both futures until both are done or one has failed; then the other is
  dropped where it stands.
\<close>

definition tunnel_step :: "direction \<times> nat \<Rightarrow> tunnel \<Rightarrow> tunnel" where
  "tunnel_step x t =
     (if stopped (c2t t) \<or> stopped (t2c t) then t
      else case fst x of
        C2T \<Rightarrow> t\<lparr>c2t := relay_step (snd x) (c2t t)\<rparr>
      | T2C \<Rightarrow> t\<lparr>t2c := relay_step (snd x) (t2c t)\<rparr>)"

definition tunnel_run :: "(direction \<times> nat) list \<Rightarrow> tunnel \<Rightarrow> tunnel" where
  "tunnel_run sched t = fold tunnel_step sched t"

text \<open>\<open>None\<close> while the tunnel is still open.\<close>

definition tunnel_result :: "tunnel \<Rightarrow> (io_error + u64 \<times> u64) option" where
  "tunnel_result t =
     (case (status (c2t t), status (t2c t)) of
        (Stopped e, _) \<Rightarrow> Some (Inl e)
      | (_, Stopped e) \<Rightarrow> Some (Inl e)
      | (Finished, Finished) \<Rightarrow> Some (Inr (total (c2t t), total (t2c t)))
      | _ \<Rightarrow> None)"

text \<open>
  One end of a tunnel: what its reader delivers, when its writer breaks, and what shutting the
  writer down answers. \<open>create_bidirectional_tunnel\<close> pairs the reader of each end with the
  writer of the other.
\<close>

record endpoint =
  ep_rx :: "rx_event list"
  ep_limit :: "(nat \<times> io_error) option"
  ep_shutdown :: "io_error option"

definition create_bidirectional_tunnel :: "nat \<Rightarrow> endpoint \<Rightarrow> endpoint \<Rightarrow> tunnel" where
  "create_bidirectional_tunnel n stream1 stream2 =
     \<lparr>c2t = relay_new n (ep_rx stream1) (ep_limit stream2) (ep_shutdown stream2),
      t2c = relay_new n (ep_rx stream2) (ep_limit stream1) (ep_shutdown stream1)\<rparr>"

lemma tunnel_start [simp]:
  "src (c2t (create_bidirectional_tunnel k a b)) = ep_rx a"
  "src (t2c (create_bidirectional_tunnel k a b)) = ep_rx b"
  "dst (c2t (create_bidirectional_tunnel k a b)) = []"
  "dst (t2c (create_bidirectional_tunnel k a b)) = []"
  "total (c2t (create_bidirectional_tunnel k a b)) = 0"
  "total (t2c (create_bidirectional_tunnel k a b)) = 0"
  by (simp_all add: create_bidirectional_tunnel_def relay_new_def)

definition tunnel_inv :: "tunnel \<Rightarrow> tunnel \<Rightarrow> bool" where
  "tunnel_inv t0 t \<longleftrightarrow> relay_inv (c2t t0) (c2t t) \<and> relay_inv (t2c t0) (t2c t)"

lemma tunnel_inv_step [inv_intros]: "tunnel_inv t0 t \<Longrightarrow> tunnel_inv t0 (tunnel_step x t)"
  by (auto simp: tunnel_inv_def tunnel_step_def intro: relay_inv_step split: direction.splits)

interpretation tunnel_machine: op_machine tunnel_step "tunnel_inv t0" for t0
  by unfold_locales (rule tunnel_inv_step)

lemma tunnel_inv_run:
  "tunnel_inv (create_bidirectional_tunnel n a b)
     (tunnel_run sched (create_bidirectional_tunnel n a b))"
  unfolding tunnel_run_def
  by (rule tunnel_machine.inv_fold)
     (simp add: tunnel_inv_def create_bidirectional_tunnel_def relay_new_def relay_inv_start)

text \<open>Without failures the two directions do not see each other.\<close>

definition steps_of :: "direction \<Rightarrow> (direction \<times> nat) list \<Rightarrow> nat list" where
  "steps_of d sched = map snd (filter (\<lambda>x. fst x = d) sched)"

lemma tunnel_run_independent:
  assumes "\<And>ks. \<not> stopped (fold relay_step ks (c2t t))"
    and "\<And>ks. \<not> stopped (fold relay_step ks (t2c t))"
  shows "fold tunnel_step sched t =
    t\<lparr>c2t := fold relay_step (steps_of C2T sched) (c2t t),
      t2c := fold relay_step (steps_of T2C sched) (t2c t)\<rparr>"
  using assms
proof (induction sched arbitrary: t)
  case Nil
  then show ?case by (simp add: steps_of_def)
next
  case (Cons x sched)
  obtain d k where x: "x = (d, k)" by (cases x)
  from Cons.prems(1) [of "[]"] Cons.prems(2) [of "[]"]
  have ns: "\<not> stopped (c2t t)" "\<not> stopped (t2c t)" by simp_all
  show ?case
  proof (cases d)
    case C2T
    with x have x': "x = (C2T, k)" by simp
    with ns have st: "tunnel_step (C2T, k) t = t\<lparr>c2t := relay_step k (c2t t)\<rparr>"
      by (simp add: tunnel_step_def)
    have "\<not> stopped (fold relay_step ks (c2t (tunnel_step (C2T, k) t)))" for ks
      using Cons.prems(1) [of "k # ks"] by (simp add: st)
    moreover have "\<not> stopped (fold relay_step ks (t2c (tunnel_step (C2T, k) t)))" for ks
      using Cons.prems(2) [of ks] by (simp add: st)
    ultimately show ?thesis using Cons.IH [of "tunnel_step (C2T, k) t"]
      by (simp add: x' st steps_of_def)
  next
    case T2C
    with x have x': "x = (T2C, k)" by simp
    with ns have st: "tunnel_step (T2C, k) t = t\<lparr>t2c := relay_step k (t2c t)\<rparr>"
      by (simp add: tunnel_step_def)
    have "\<not> stopped (fold relay_step ks (t2c (tunnel_step (T2C, k) t)))" for ks
      using Cons.prems(2) [of "k # ks"] by (simp add: st)
    moreover have "\<not> stopped (fold relay_step ks (c2t (tunnel_step (T2C, k) t)))" for ks
      using Cons.prems(1) [of ks] by (simp add: st)
    ultimately show ?thesis using Cons.IH [of "tunnel_step (T2C, k) t"]
      by (simp add: x' st steps_of_def)
  qed
qed

lemma tunnel_run_success:
  assumes "tunnel_result (tunnel_run sched (create_bidirectional_tunnel k a b)) = Some (Inr (x, y))"
  shows "dst (c2t (tunnel_run sched (create_bidirectional_tunnel k a b))) = front_bytes (ep_rx a) \<and>
    dst (t2c (tunnel_run sched (create_bidirectional_tunnel k a b))) = front_bytes (ep_rx b) \<and>
    is_shut (c2t (tunnel_run sched (create_bidirectional_tunnel k a b))) \<and>
    is_shut (t2c (tunnel_run sched (create_bidirectional_tunnel k a b))) \<and>
    x = of_nat (length (front_bytes (ep_rx a))) \<and> y = of_nat (length (front_bytes (ep_rx b)))"
proof -
  let ?t = "tunnel_run sched (create_bidirectional_tunnel k a b)"
  have one: "dst r = front_bytes (src r0) \<and> is_shut r \<and> total r = of_nat (length (front_bytes (src r0)))"
    if "relay_inv r0 r" and "dst r0 = []" and "total r0 = 0" and "status r = Finished" for r0 r
    using that by (auto simp: relay_inv_def)
  have i: "relay_inv (c2t (create_bidirectional_tunnel k a b)) (c2t ?t)"
      "relay_inv (t2c (create_bidirectional_tunnel k a b)) (t2c ?t)"
    using tunnel_inv_run [of k a b sched] by (simp_all add: tunnel_inv_def)
  from assms have "status (c2t ?t) = Finished" "status (t2c ?t) = Finished"
    "x = total (c2t ?t)" "y = total (t2c ?t)"
    by (auto simp: tunnel_result_def split: relay_status.splits)
  with one [OF i(1)] one [OF i(2)] show ?thesis by simp
qed

lemma tunnel_run_completes:
  assumes "ep_rx a = map Byte as @ Fin # es" and "ep_rx b = map Byte bs @ Fin # fs"
    and "ep_limit a = None" and "ep_limit b = None"
    and "ep_shutdown a = None" and "ep_shutdown b = None" and "0 < k"
    and "length as < length (steps_of C2T sched)" and "length bs < length (steps_of T2C sched)"
  shows "tunnel_result (tunnel_run sched (create_bidirectional_tunnel k a b))
    = Some (Inr (of_nat (length as), of_nat (length bs)))"
proof -
  let ?t = "create_bidirectional_tunnel k a b"
  have never: "\<not> stopped (fold relay_step ks r)"
    if "status r = Running" "src r = map Byte cs @ Fin # gs" "dst_limit r = None"
      "shutdown_error r = None" "0 < buf_size r" for ks cs gs and r :: relay
  proof
    assume st: "stopped (fold relay_step ks r)"
    then have fz: "fold relay_step (ks @ js) r = fold relay_step ks r" for js
      by (induction js rule: rev_induct) (auto simp: stopped_def relay_frozen split: relay_status.splits)
    have "status (fold relay_step (ks @ replicate (Suc (length cs)) 0) r) = Finished"
      using that by (intro relay_finishes [of r cs gs]) simp_all
    with st show False by (simp only: fz) (simp add: stopped_def)
  qed
  have c: "status (c2t ?t) = Running" "src (c2t ?t) = map Byte as @ Fin # es"
    "dst_limit (c2t ?t) = None" "shutdown_error (c2t ?t) = None" "0 < buf_size (c2t ?t)"
    and d: "status (t2c ?t) = Running" "src (t2c ?t) = map Byte bs @ Fin # fs"
    "dst_limit (t2c ?t) = None" "shutdown_error (t2c ?t) = None" "0 < buf_size (t2c ?t)"
    using assms by (simp_all add: create_bidirectional_tunnel_def relay_new_def)
  have run: "tunnel_run sched ?t = ?t\<lparr>c2t := fold relay_step (steps_of C2T sched) (c2t ?t),
      t2c := fold relay_step (steps_of T2C sched) (t2c ?t)\<rparr>"
    unfolding tunnel_run_def by (rule tunnel_run_independent) (rule never [OF c] never [OF d])+
  have "status (c2t (tunnel_run sched ?t)) = Finished" "status (t2c (tunnel_run sched ?t)) = Finished"
    using relay_finishes [OF c assms(8)] relay_finishes [OF d assms(9)] by (simp_all add: run)
  then have "tunnel_result (tunnel_run sched ?t)
      = Some (Inr (total (c2t (tunnel_run sched ?t)), total (t2c (tunnel_run sched ?t))))"
    by (simp add: tunnel_result_def)
  from this show ?thesis
    using tunnel_inv_run [of k a b sched]
      \<open>status (c2t (tunnel_run sched ?t)) = Finished\<close> \<open>status (t2c (tunnel_run sched ?t)) = Finished\<close>
    by (auto simp: tunnel_inv_def relay_inv_def create_bidirectional_tunnel_def relay_new_def assms)
qed

subsection \<open>Properties\<close>

text \<open>
  C9: a tunnel never invents, reorders or repeats data. Whatever the segmentation, the
  interleaving and the failures, at every moment each writer has received a prefix of what the
  opposite reader delivers, and it has been shut down only if it received all of it.
\<close>

theorem tunnel_prefix_safety:
  "\<exists>m n. dst (c2t (tunnel_run sched (create_bidirectional_tunnel k a b)))
        = take m (front_bytes (ep_rx a)) \<and>
      dst (t2c (tunnel_run sched (create_bidirectional_tunnel k a b)))
        = take n (front_bytes (ep_rx b)) \<and>
      (\<not> is_shut (c2t (tunnel_run sched (create_bidirectional_tunnel k a b))) \<or>
         m = length (front_bytes (ep_rx a))) \<and>
      (\<not> is_shut (t2c (tunnel_run sched (create_bidirectional_tunnel k a b))) \<or>
         n = length (front_bytes (ep_rx b)))"
proof -
  let ?t = "tunnel_run sched (create_bidirectional_tunnel k a b)"
  have one: "\<exists>m. dst r = take m (front_bytes (src r0)) \<and>
      (\<not> is_shut r \<or> m = length (front_bytes (src r0)))"
    if "relay_inv r0 r" and "dst r0 = []" for r0 r
    using that by (auto simp: relay_inv_def)
  have "relay_inv (c2t (create_bidirectional_tunnel k a b)) (c2t ?t)"
    and "relay_inv (t2c (create_bidirectional_tunnel k a b)) (t2c ?t)"
    using tunnel_inv_run [of k a b sched] by (simp_all add: tunnel_inv_def)
  then obtain m n where "dst (c2t ?t) = take m (front_bytes (ep_rx a))"
    "\<not> is_shut (c2t ?t) \<or> m = length (front_bytes (ep_rx a))"
    "dst (t2c ?t) = take n (front_bytes (ep_rx b))"
    "\<not> is_shut (t2c ?t) \<or> n = length (front_bytes (ep_rx b))"
    using one [of "c2t (create_bidirectional_tunnel k a b)"]
      one [of "t2c (create_bidirectional_tunnel k a b)"]
    by fastforce
  then show ?thesis by (intro exI [of _ m] exI [of _ n]) simp
qed

theorem tunnel_prefix_safety_witness:
  "\<exists>m. dst (c2t (tunnel_run [(C2T, 1), (T2C, 3)] (create_bidirectional_tunnel 2
     \<lparr>ep_rx = [Byte 1, Byte 2, Byte 3, Fin], ep_limit = None, ep_shutdown = None\<rparr>
     \<lparr>ep_rx = [Byte 9], ep_limit = Some (0, IoError TimedOut ''gone''), ep_shutdown = None\<rparr>)))
   = take m [1, 2, 3]"
proof -
  let ?a = "\<lparr>ep_rx = [Byte 1, Byte 2, Byte 3, Fin], ep_limit = None, ep_shutdown = None\<rparr>"
  let ?b = "\<lparr>ep_rx = [Byte 9], ep_limit = Some (0, IoError TimedOut ''gone''), ep_shutdown = None\<rparr>"
  from tunnel_prefix_safety [of "[(C2T, 1), (T2C, 3)]" 2 ?a ?b] obtain m where
    "dst (c2t (tunnel_run [(C2T, 1), (T2C, 3)] (create_bidirectional_tunnel 2 ?a ?b)))
      = take m (front_bytes (ep_rx ?a))" by (elim exE conjE)
  then show ?thesis by (intro exI [of _ m]) simp
qed

text \<open>
  C8: a tunnel that reports success is complete. If \<open>create_bidirectional_tunnel\<close> answers
  \<open>Ok((x, y))\<close>, then both readers ended properly, each writer received exactly the bytes of the
  opposite reader and was shut down, and \<open>x\<close> and \<open>y\<close> are the two byte counts
  (modulo the width of \<open>u64\<close>).
\<close>

theorem tunnel_success_complete:
  assumes "tunnel_result (tunnel_run sched (create_bidirectional_tunnel k a b)) = Some (Inr (x, y))"
  shows "dst (c2t (tunnel_run sched (create_bidirectional_tunnel k a b))) = front_bytes (ep_rx a) \<and>
    dst (t2c (tunnel_run sched (create_bidirectional_tunnel k a b))) = front_bytes (ep_rx b) \<and>
    is_shut (c2t (tunnel_run sched (create_bidirectional_tunnel k a b))) \<and>
    is_shut (t2c (tunnel_run sched (create_bidirectional_tunnel k a b))) \<and>
    x = of_nat (length (front_bytes (ep_rx a))) \<and> y = of_nat (length (front_bytes (ep_rx b)))"
  using assms by (rule tunnel_run_success)

theorem tunnel_success_complete_witness:
  "dst (c2t (tunnel_run [(C2T, 2), (T2C, 9), (C2T, 1), (T2C, 1), (C2T, 1)]
     (create_bidirectional_tunnel 1024
        \<lparr>ep_rx = [Byte 1, Byte 2, Byte 3, Fin], ep_limit = None, ep_shutdown = None\<rparr>
        \<lparr>ep_rx = [Byte 9, Fin], ep_limit = None, ep_shutdown = None\<rparr>))) = [1, 2, 3]"
proof -
  let ?a = "\<lparr>ep_rx = [Byte 1, Byte 2, Byte 3, Fin], ep_limit = None, ep_shutdown = None\<rparr>"
  let ?b = "\<lparr>ep_rx = [Byte 9, Fin], ep_limit = None, ep_shutdown = None\<rparr>"
  let ?s = "[(C2T, 2), (T2C, 9), (C2T, 1), (T2C, 1), (C2T, 1)]"
  have "tunnel_result (tunnel_run ?s (create_bidirectional_tunnel 1024 ?a ?b)) = Some (Inr (3, 1))"
    by (simp add: tunnel_run_def create_bidirectional_tunnel_def relay_new_def tunnel_step_def
        stopped_def relay_step_def relay_write_def relay_shutdown_def tunnel_result_def Let_def)
  from tunnel_success_complete [OF this] show ?thesis by simp
qed

text \<open>
  C10: a tunnel between two ends that both close and accept everything does complete, under
  every schedule that polls each direction once more often than it has bytes, with a buffer of
  any size; so the bytes delivered do not depend on the interleaving.
\<close>

theorem tunnel_completes:
  assumes "ep_rx a = map Byte as @ Fin # es" and "ep_rx b = map Byte bs @ Fin # fs"
    and "ep_limit a = None" and "ep_limit b = None"
    and "ep_shutdown a = None" and "ep_shutdown b = None" and "0 < k"
    and "length as < length (steps_of C2T sched)" and "length bs < length (steps_of T2C sched)"
  shows "tunnel_result (tunnel_run sched (create_bidirectional_tunnel k a b))
    = Some (Inr (of_nat (length as), of_nat (length bs)))"
  using assms by (rule tunnel_run_completes)

theorem tunnel_completes_witness:
  "tunnel_result (tunnel_run [(T2C, 5), (C2T, 1), (C2T, 1), (T2C, 1), (C2T, 7)]
     (create_bidirectional_tunnel 1024
        \<lparr>ep_rx = [Byte 1, Byte 2, Fin], ep_limit = None, ep_shutdown = None\<rparr>
        \<lparr>ep_rx = [Byte 9, Fin], ep_limit = None, ep_shutdown = None\<rparr>)) = Some (Inr (2, 1))"
  using tunnel_completes
    [of "\<lparr>ep_rx = [Byte 1, Byte 2, Fin], ep_limit = None, ep_shutdown = None\<rparr>" "[1, 2]" "[]"
        "\<lparr>ep_rx = [Byte 9, Fin], ep_limit = None, ep_shutdown = None\<rparr>" "[9]" "[]" 1024
        "[(T2C, 5), (C2T, 1), (C2T, 1), (T2C, 1), (C2T, 7)]"]
  by (simp add: steps_of_def)

end
