(* ===== verification/Poll_IO.thy ===== *)
theory Poll_IO
  imports Relay
begin

section \<open>Polling: the stream traits and the relay loop under them (src/stream.rs, src/proxy/listener.rs)\<close>

text \<open>
  The implementations of \<open>AsyncRead\<close> and \<open>AsyncWrite\<close> for \<open>ClientStream\<close> and
  \<open>TunnelStream\<close>, and the two copies of the relay loop at the granularity of single polls: a
  poll may be pending, a read answers what has arrived, a write accepts some of the bytes. The
  locales state what the traits promise; the loop is shown once, over these promises, to
  refine the direction of a tunnel of the theory on relaying. A trait implementation is a
  function or a record of functions.
\<close>

subsection \<open>The traits\<close>

datatype 'a poll = Poll_Ready 'a | Poll_Pending

text \<open>The capacity of the \<open>ReadBuf\<close> is an argument; the bytes it is filled with are the result.\<close>

type_synonym 's read_impl = "nat \<Rightarrow> 's \<Rightarrow> (io_error + u8 list) poll \<times> 's"

record 's write_impl =
  poll_write :: "u8 list \<Rightarrow> 's \<Rightarrow> (io_error + nat) poll \<times> 's"
  poll_flush :: "'s \<Rightarrow> (io_error + unit) poll \<times> 's"
  poll_shutdown :: "'s \<Rightarrow> (io_error + unit) poll \<times> 's"

subsection \<open>ClientStream\<close>

datatype ('p, 't) client_io = Plain_Stream 'p | Tls_Stream 't

definition client_poll_read :: "'p read_impl \<Rightarrow> 't read_impl \<Rightarrow> ('p, 't) client_io read_impl" where
  "client_poll_read P T n s =
     (case s of
        Plain_Stream stream \<Rightarrow> apsnd Plain_Stream (P n stream)
      | Tls_Stream stream \<Rightarrow> apsnd Tls_Stream (T n stream))"

definition client_poll_write ::
  "'p write_impl \<Rightarrow> 't write_impl \<Rightarrow> u8 list \<Rightarrow> ('p, 't) client_io \<Rightarrow>
   (io_error + nat) poll \<times> ('p, 't) client_io" where
  "client_poll_write P T buf s =
     (case s of
        Plain_Stream stream \<Rightarrow> apsnd Plain_Stream (poll_write P buf stream)
      | Tls_Stream stream \<Rightarrow> apsnd Tls_Stream (poll_write T buf stream))"

definition client_poll_flush ::
  "'p write_impl \<Rightarrow> 't write_impl \<Rightarrow> ('p, 't) client_io \<Rightarrow>
   (io_error + unit) poll \<times> ('p, 't) client_io" where
  "client_poll_flush P T s =
     (case s of
        Plain_Stream stream \<Rightarrow> apsnd Plain_Stream (poll_flush P stream)
      | Tls_Stream stream \<Rightarrow> apsnd Tls_Stream (poll_flush T stream))"

definition client_poll_shutdown ::
  "'p write_impl \<Rightarrow> 't write_impl \<Rightarrow> ('p, 't) client_io \<Rightarrow>
   (io_error + unit) poll \<times> ('p, 't) client_io" where
  "client_poll_shutdown P T s =
     (case s of
        Plain_Stream stream \<Rightarrow> apsnd Plain_Stream (poll_shutdown P stream)
      | Tls_Stream stream \<Rightarrow> apsnd Tls_Stream (poll_shutdown T stream))"

definition client_write :: "'p write_impl \<Rightarrow> 't write_impl \<Rightarrow> ('p, 't) client_io write_impl" where
  "client_write P T =
     \<lparr>poll_write = client_poll_write P T, poll_flush = client_poll_flush P T,
      poll_shutdown = client_poll_shutdown P T\<rparr>"

subsection \<open>TunnelStream\<close>

record ('r, 'w) tunnel_stream =
  read_half :: 'r
  write_half :: 'w

definition tunnel_stream_new :: "'r \<Rightarrow> 'w \<Rightarrow> ('r, 'w) tunnel_stream" where
  "tunnel_stream_new r w = \<lparr>read_half = r, write_half = w\<rparr>"

definition tunnel_poll_read :: "'r read_impl \<Rightarrow> ('r, 'w) tunnel_stream read_impl" where
  "tunnel_poll_read R n t = apsnd (\<lambda>r. t\<lparr>read_half := r\<rparr>) (R n (read_half t))"

definition tunnel_poll_write ::
  "'w write_impl \<Rightarrow> u8 list \<Rightarrow> ('r, 'w) tunnel_stream \<Rightarrow>
   (io_error + nat) poll \<times> ('r, 'w) tunnel_stream" where
  "tunnel_poll_write W buf t = apsnd (\<lambda>w. t\<lparr>write_half := w\<rparr>) (poll_write W buf (write_half t))"

definition tunnel_poll_flush ::
  "'w write_impl \<Rightarrow> ('r, 'w) tunnel_stream \<Rightarrow> (io_error + unit) poll \<times> ('r, 'w) tunnel_stream" where
  "tunnel_poll_flush W t = apsnd (\<lambda>w. t\<lparr>write_half := w\<rparr>) (poll_flush W (write_half t))"

definition tunnel_poll_shutdown ::
  "'w write_impl \<Rightarrow> ('r, 'w) tunnel_stream \<Rightarrow> (io_error + unit) poll \<times> ('r, 'w) tunnel_stream" where
  "tunnel_poll_shutdown W t = apsnd (\<lambda>w. t\<lparr>write_half := w\<rparr>) (poll_shutdown W (write_half t))"

definition tunnel_write :: "'w write_impl \<Rightarrow> ('r, 'w) tunnel_stream write_impl" where
  "tunnel_write W =
     \<lparr>poll_write = tunnel_poll_write W, poll_flush = tunnel_poll_flush W,
      poll_shutdown = tunnel_poll_shutdown W\<rparr>"

subsection \<open>The relay loops, poll by poll\<close>

text \<open>
  Where a relay loop stands between two polls: at \<open>read\<close>, inside \<open>write_all\<close> with the bytes
  that are not accepted yet and the size of the whole chunk, at \<open>shutdown\<close>, or returned. The
  documentation of \<open>write_all\<close> is the loop below: it writes until nothing is left, and a write
  that accepts nothing is an error.
\<close>

datatype relay_phase = Reading | Writing "u8 list" nat | Shutting | Returned "io_error + u64"

record 's relay_task =
  stream :: 's
  phase :: relay_phase
  sum :: u64

definition relay_task_new :: "'s \<Rightarrow> 's relay_task" where
  "relay_task_new s = \<lparr>stream = s, phase = Reading, sum = 0\<rparr>"

definition write_zero :: io_error where
  "write_zero = IoError (OtherKind ''WriteZero'') ''failed to write whole buffer''"

definition after_read :: "(io_error + u8 list) poll \<Rightarrow> 's relay_task \<Rightarrow> 's relay_task" where
  "after_read x t =
     (case x of
        Poll_Pending \<Rightarrow> t
      | Poll_Ready (Inl e) \<Rightarrow> t\<lparr>phase := Returned (Inl e)\<rparr>
      | Poll_Ready (Inr bs) \<Rightarrow>
          if bs = [] then t\<lparr>phase := Shutting\<rparr> else t\<lparr>phase := Writing bs (length bs)\<rparr>)"

definition after_write ::
  "u8 list \<Rightarrow> nat \<Rightarrow> (io_error + nat) poll \<Rightarrow> 's relay_task \<Rightarrow> 's relay_task" where
  "after_write bs n x t =
     (case x of
        Poll_Pending \<Rightarrow> t
      | Poll_Ready (Inl e) \<Rightarrow> t\<lparr>phase := Returned (Inl e)\<rparr>
      | Poll_Ready (Inr k) \<Rightarrow>
          if k = 0 then t\<lparr>phase := Returned (Inl write_zero)\<rparr>
          else if drop k bs = [] then t\<lparr>phase := Reading, sum := sum t + of_nat n\<rparr>
          else t\<lparr>phase := Writing (drop k bs) n\<rparr>)"

definition after_shutdown :: "(io_error + unit) poll \<Rightarrow> 's relay_task \<Rightarrow> 's relay_task" where
  "after_shutdown x t =
     (case x of
        Poll_Pending \<Rightarrow> t
      | Poll_Ready (Inl e) \<Rightarrow> t\<lparr>phase := Returned (Inl e)\<rparr>
      | Poll_Ready (Inr _) \<Rightarrow> t\<lparr>phase := Returned (Inr (sum t))\<rparr>)"

text \<open>\<open>relay_with_logging\<close> polls the two halves of the stream.\<close>

definition relay_with_logging ::
  "'r read_impl \<Rightarrow> 'w write_impl \<Rightarrow> ('r, 'w) tunnel_stream relay_task \<Rightarrow>
   ('r, 'w) tunnel_stream relay_task" where
  "relay_with_logging R W t =
     (case phase t of
        Reading \<Rightarrow>
          (case R 1024 (read_half (stream t)) of
             (x, r) \<Rightarrow> after_read x (t\<lparr>stream := (stream t)\<lparr>read_half := r\<rparr>\<rparr>))
      | Writing bs n \<Rightarrow>
          (case poll_write W bs (write_half (stream t)) of
             (x, w) \<Rightarrow> after_write bs n x (t\<lparr>stream := (stream t)\<lparr>write_half := w\<rparr>\<rparr>))
      | Shutting \<Rightarrow>
          (case poll_shutdown W (write_half (stream t)) of
             (x, w) \<Rightarrow> after_shutdown x (t\<lparr>stream := (stream t)\<lparr>write_half := w\<rparr>\<rparr>))
      | Returned _ \<Rightarrow> t)"

text \<open>
  The copy of the loop in \<open>listener.rs\<close> polls the tunnel stream itself, through the traits that
  are implemented for it.
\<close>

definition relay_with_tunnel_stream ::
  "'s read_impl \<Rightarrow> 's write_impl \<Rightarrow> 's relay_task \<Rightarrow> 's relay_task" where
  "relay_with_tunnel_stream R W t =
     (case phase t of
        Reading \<Rightarrow>
          (case R 1024 (stream t) of (x, s) \<Rightarrow> after_read x (t\<lparr>stream := s\<rparr>))
      | Writing bs n \<Rightarrow>
          (case poll_write W bs (stream t) of (x, s) \<Rightarrow> after_write bs n x (t\<lparr>stream := s\<rparr>))
      | Shutting \<Rightarrow>
          (case poll_shutdown W (stream t) of (x, s) \<Rightarrow> after_shutdown x (t\<lparr>stream := s\<rparr>))
      | Returned _ \<Rightarrow> t)"

lemma copies_step:
  "relay_with_tunnel_stream (tunnel_poll_read R) (tunnel_write W) t = relay_with_logging R W t"
  by (simp add: relay_with_tunnel_stream_def relay_with_logging_def tunnel_write_def
      tunnel_poll_read_def tunnel_poll_write_def tunnel_poll_shutdown_def split_beta
      split: relay_phase.split)

subsection \<open>What the traits promise\<close>

text \<open>
  A reader delivers the events \<open>will\<close>: a pending poll delivers nothing, a successful one a
  non-empty front piece that fits, or nothing at the end of the stream. A writer has a view:
  what it has accepted, where it breaks, and what a shutdown answers. A poll is pending only
  finitely often while there is something to deliver or to accept; \<open>waits\<close> counts how often.
\<close>

record writer_view =
  taken :: "u8 list"
  breaks :: "(nat \<times> io_error) option"
  closing :: "io_error option"

definition accept_bytes :: "u8 list \<Rightarrow> writer_view \<Rightarrow> writer_view" where
  "accept_bytes bs v =
     v\<lparr>taken := taken v @ bs, breaks := map_option (\<lambda>(k, e). (k - length bs, e)) (breaks v)\<rparr>"

locale byte_reader =
  fixes R :: "'r read_impl"
    and will :: "'r \<Rightarrow> rx_event list"
    and waits :: "'r \<Rightarrow> nat"
  assumes read_wait: "R n r = (Poll_Pending, r') \<Longrightarrow> will r' = will r"
    and read_some: "0 < n \<Longrightarrow> R n r = (Poll_Ready (Inr bs), r') \<Longrightarrow> bs \<noteq> [] \<Longrightarrow>
      length bs \<le> n \<and> will r = map Byte bs @ will r'"
    and read_end: "0 < n \<Longrightarrow> R n r = (Poll_Ready (Inr []), r') \<Longrightarrow>
      will r' = will r \<and> (\<exists>es. will r = Fin # es)"
    and read_fail: "R n r = (Poll_Ready (Inl e), r') \<Longrightarrow>
      will r' = will r \<and> (\<exists>es. will r = Broken e # es)"
    and read_due: "0 < n \<Longrightarrow> R n r = (x, r') \<Longrightarrow> waits r' \<le> waits r"
    and read_soon: "0 < n \<Longrightarrow> R n r = (Poll_Pending, r') \<Longrightarrow> will r \<noteq> [] \<Longrightarrow> waits r' < waits r"

locale byte_writer =
  fixes W :: "'w write_impl"
    and view :: "'w \<Rightarrow> writer_view"
    and waits :: "'w \<Rightarrow> nat"
  assumes write_wait: "poll_write W bs w = (Poll_Pending, w') \<Longrightarrow> view w' = view w"
    and write_some: "bs \<noteq> [] \<Longrightarrow> poll_write W bs w = (Poll_Ready (Inr k), w') \<Longrightarrow>
      0 < k \<and> k \<le> length bs \<and> view w' = accept_bytes (take k bs) (view w) \<and>
      (\<forall>m e. breaks (view w) = Some (m, e) \<longrightarrow> k \<le> m)"
    and write_fail: "bs \<noteq> [] \<Longrightarrow> poll_write W bs w = (Poll_Ready (Inl e), w') \<Longrightarrow>
      view w' = view w \<and> breaks (view w) = Some (0, e)"
    and flush_keeps: "poll_flush W w = (x, w') \<Longrightarrow> view w' = view w"
    and close_wait: "poll_shutdown W w = (x, w') \<Longrightarrow> view w' = view w"
    and close_ok: "poll_shutdown W w = (Poll_Ready (Inr u), w') \<Longrightarrow> closing (view w) = None"
    and close_fail: "poll_shutdown W w = (Poll_Ready (Inl e), w') \<Longrightarrow> closing (view w) = Some e"
    and write_due: "bs \<noteq> [] \<Longrightarrow> poll_write W bs w = (z, w') \<Longrightarrow> waits w' \<le> waits w"
    and write_soon: "bs \<noteq> [] \<Longrightarrow> poll_write W bs w = (Poll_Pending, w') \<Longrightarrow> waits w' < waits w"
    and close_due: "poll_shutdown W w = (x, w') \<Longrightarrow> waits w' \<le> waits w"
    and close_soon: "poll_shutdown W w = (Poll_Pending, w') \<Longrightarrow> waits w' < waits w"

subsection \<open>Delegation keeps the promises\<close>

text \<open>
  A stream that is one of two streams keeps what both promise; so a \<open>ClientStream\<close> is a reader
  and a writer if TCP and TLS streams are.
\<close>

definition of_client :: "('p \<Rightarrow> 'a) \<Rightarrow> ('t \<Rightarrow> 'a) \<Rightarrow> ('p, 't) client_io \<Rightarrow> 'a" where
  "of_client f g s = (case s of Plain_Stream p \<Rightarrow> f p | Tls_Stream t \<Rightarrow> g t)"

lemma apsnd_eqD: "apsnd f p = (x, y) \<Longrightarrow> \<exists>z. p = (x, z) \<and> y = f z"
  by (cases p) simp

locale client_reader =
  plain: byte_reader P pw pn + tls: byte_reader T tw tn
  for P :: "'p read_impl" and pw pn and T :: "'t read_impl" and tw tn
begin

sublocale client: byte_reader "client_poll_read P T" "of_client pw tw" "of_client pn tn"
  by unfold_locales
    (auto simp: client_poll_read_def of_client_def split: client_io.splits dest!: apsnd_eqD
      dest: plain.read_wait tls.read_wait plain.read_some tls.read_some plain.read_end
        tls.read_end plain.read_fail tls.read_fail plain.read_due tls.read_due
        plain.read_soon tls.read_soon)

end

locale client_writer =
  plain: byte_writer P pv pn + tls: byte_writer T tv tn
  for P :: "'p write_impl" and pv pn and T :: "'t write_impl" and tv tn
begin

sublocale client: byte_writer "client_write P T" "of_client pv tv" "of_client pn tn"
  by unfold_locales
    (auto simp: client_write_def client_poll_write_def client_poll_flush_def
      client_poll_shutdown_def of_client_def split: client_io.splits dest!: apsnd_eqD
      dest: plain.write_wait tls.write_wait plain.write_some tls.write_some plain.write_fail
        tls.write_fail plain.flush_keeps tls.flush_keeps plain.close_wait tls.close_wait
        plain.close_ok tls.close_ok plain.close_fail tls.close_fail plain.write_due tls.write_due
        plain.write_soon tls.write_soon plain.close_due tls.close_due plain.close_soon
        tls.close_soon)

end

subsection \<open>The relay loop refines one direction of a tunnel\<close>

text \<open>
  The state of a loop matches a direction \<open>r\<close> of the relay model: between two rounds they
  agree; inside \<open>write_all\<close> the direction still stands before the round, and the writer has
  accepted the part \<open>cs\<close> of the chunk.
\<close>

definition view_of :: "relay \<Rightarrow> writer_view" where
  "view_of r = \<lparr>taken = dst r, breaks = dst_limit r, closing = shutdown_error r\<rparr>"

definition between_rounds :: "rx_event list \<Rightarrow> writer_view \<Rightarrow> u64 \<Rightarrow> relay \<Rightarrow> bool" where
  "between_rounds es v n r \<longleftrightarrow> status r = Running \<and> src r = es \<and> view_of r = v \<and> total r = n"

definition inside_write ::
  "rx_event list \<Rightarrow> writer_view \<Rightarrow> u8 list \<Rightarrow> nat \<Rightarrow> u64 \<Rightarrow> relay \<Rightarrow> bool" where
  "inside_write es v bs k n r \<longleftrightarrow>
     (\<exists>cs. bs \<noteq> [] \<and> k = length (cs @ bs) \<and> k \<le> buf_size r \<and>
        between_rounds (map Byte (cs @ bs) @ es) (view_of r) n r \<and>
        v = accept_bytes cs (view_of r) \<and>
        (\<forall>m e. dst_limit r = Some (m, e) \<longrightarrow> length cs \<le> m))"

definition loop_matches ::
  "rx_event list \<Rightarrow> writer_view \<Rightarrow> relay_phase \<Rightarrow> u64 \<Rightarrow> relay \<Rightarrow> bool" where
  "loop_matches es v ph n r \<longleftrightarrow> buf_size r = 1024 \<and>
     (case ph of
        Reading \<Rightarrow> between_rounds es v n r
      | Writing bs k \<Rightarrow> inside_write es v bs k n r
      | Shutting \<Rightarrow> between_rounds es v n r \<and> (\<exists>fs. es = Fin # fs)
      | Returned (Inl e) \<Rightarrow> status r = Stopped e \<and> dst r = taken v
      | Returned (Inr m) \<Rightarrow> status r = Finished \<and> is_shut r \<and> total r = m \<and> dst r = taken v)"

lemma front_bytes_chunk: "take (length bs) (front_bytes (map Byte bs @ es)) = bs"
  by (induction bs) auto

lemma relay_step_chunk:
  assumes "status r = Running" and "src r = map Byte bs @ es" and "bs \<noteq> []"
    and "length bs \<le> buf_size r"
  shows "relay_step (length bs) r = relay_write bs (r\<lparr>src := es\<rparr>)"
proof -
  obtain b cs where bs: "bs = b # cs" using assms(3) by (cases bs) auto
  have n: "min (buf_size r) (max 1 (length bs)) = length bs" using assms(3,4) by (cases bs) auto
  have s: "src r = Byte b # (map Byte cs @ es)" using assms(2) bs by simp
  let ?c = "take (length bs) (front_bytes (src r))"
  have "relay_step (length bs) r = relay_write ?c (r\<lparr>src := drop (length ?c) (src r)\<rparr>)"
    unfolding relay_step_def Let_def n using assms(1) s by simp
  moreover have "?c = bs" using assms(2) front_bytes_chunk by simp
  ultimately show ?thesis using assms(2) by (simp del: length_take)
qed

lemma buf_size_step [simp]: "buf_size (relay_step k r) = buf_size r"
  by (auto simp: relay_step_def relay_write_def relay_shutdown_def Let_def
      split: list.splits rx_event.splits option.splits)

lemma accept_nothing: "accept_bytes [] v = v"
  by (cases v) (auto simp: accept_bytes_def option.map_ident case_prod_beta' split: option.splits)

lemma accept_more:
  "accept_bytes ds (accept_bytes cs v) = accept_bytes (cs @ ds) v"
  by (auto simp: accept_bytes_def option.map_comp comp_def case_prod_beta')

lemma round_written:
  assumes "between_rounds (map Byte cs @ es) (view_of r) n r" and "cs \<noteq> []"
    and "length cs \<le> buf_size r" and "\<forall>m e. dst_limit r = Some (m, e) \<longrightarrow> length cs \<le> m"
  shows "between_rounds es (accept_bytes cs (view_of r)) (n + of_nat (length cs))
    (relay_step (length cs) r)"
  using assms
  by (auto simp: between_rounds_def relay_step_chunk relay_write_def view_of_def accept_bytes_def
      split: option.splits)

lemma round_broken:
  assumes "between_rounds (map Byte (cs @ bs) @ es) (view_of r) n r" and "bs \<noteq> []"
    and "length (cs @ bs) \<le> buf_size r" and "dst_limit r = Some (length cs, e)"
  shows "status (relay_step (length (cs @ bs)) r) = Stopped e"
    and "dst (relay_step (length (cs @ bs)) r) = dst r @ cs"
proof -
  have "relay_step (length (cs @ bs)) r = relay_write (cs @ bs) (r\<lparr>src := es\<rparr>)"
    using assms by (intro relay_step_chunk) (auto simp: between_rounds_def)
  with assms(2,4) show "status (relay_step (length (cs @ bs)) r) = Stopped e"
    and "dst (relay_step (length (cs @ bs)) r) = dst r @ cs"
    by (simp_all add: relay_write_def)
qed

text \<open>
  The reader comes to an end: after its bytes there is an end of the stream or an error. The
  polls that a loop still needs at most, its waits apart.
\<close>

definition ends :: "rx_event list \<Rightarrow> bool" where
  "ends es \<longleftrightarrow> drop (length (front_bytes es)) es \<noteq> []"

definition loop_work :: "rx_event list \<Rightarrow> relay_phase \<Rightarrow> nat" where
  "loop_work es ph =
     (case ph of
        Reading \<Rightarrow> 3 * length (front_bytes es) + 2
      | Writing bs k \<Rightarrow> 3 * length (front_bytes es) + 2 + length bs
      | Shutting \<Rightarrow> 1
      | Returned x \<Rightarrow> 0)"

lemma ends_Cons [simp]: "ends (Byte b # es) = ends es"
  by (simp add: ends_def)

lemma ends_append [simp]: "ends (map Byte bs @ es) = ends es"
  by (simp add: ends_def front_bytes_append)

lemma between_roundsD:
  assumes "between_rounds es v n r"
  shows "status r = Running" and "src r = es" and "dst r = taken v" and "dst_limit r = breaks v"
    and "shutdown_error r = closing v" and "total r = n"
  using assms by (auto simp: between_rounds_def view_of_def)

locale relay_loop =
  reader: byte_reader R will rwaits + writer: byte_writer W view wwaits
  for R :: "'r read_impl" and will rwaits and W :: "'w write_impl" and view wwaits
begin

abbreviation matches :: "('r, 'w) tunnel_stream relay_task \<Rightarrow> relay \<Rightarrow> bool" where
  "matches t r \<equiv> loop_matches (will (read_half (stream t))) (view (write_half (stream t)))
     (phase t) (sum t) r"

lemma step_reading:
  assumes m: "matches t r" and ph: "phase t = Reading"
  shows "\<exists>ks. matches (relay_with_logging R W t) (fold relay_step ks r)"
proof -
  obtain x r' where R: "R 1024 (read_half (stream t)) = (x, r')" by fastforce
  let ?t = "t\<lparr>stream := (stream t)\<lparr>read_half := r'\<rparr>\<rparr>"
  have st: "relay_with_logging R W t = after_read x ?t"
    by (simp add: relay_with_logging_def ph R)
  from m ph have b: "buf_size r = 1024"
      "between_rounds (will (read_half (stream t))) (view (write_half (stream t))) (sum t) r"
    by (simp_all add: loop_matches_def)
  consider (wait) "x = Poll_Pending" | (fail) e where "x = Poll_Ready (Inl e)"
    | (eof) "x = Poll_Ready (Inr [])" | (some) bs where "x = Poll_Ready (Inr bs)" "bs \<noteq> []"
    by (metis poll.exhaust sum.exhaust)
  then show ?thesis
  proof cases
    case wait
    with R reader.read_wait b have "matches (relay_with_logging R W t) (fold relay_step [] r)"
      by (simp add: st after_read_def loop_matches_def ph)
    then show ?thesis by blast
  next
    case fail
    with R reader.read_fail obtain es where "will (read_half (stream t)) = Broken e # es" by blast
    with b have "matches (relay_with_logging R W t) (fold relay_step [1] r)"
      by (auto simp: st fail after_read_def loop_matches_def relay_step_def between_roundsD [OF b(2)])
    then show ?thesis by blast
  next
    case eof
    with R reader.read_end [of 1024] b
    have "matches (relay_with_logging R W t) (fold relay_step [] r)"
      by (simp add: st after_read_def loop_matches_def)
    then show ?thesis by blast
  next
    case some
    with R reader.read_some [of 1024]
    have "length bs \<le> 1024 \<and> will (read_half (stream t)) = map Byte bs @ will r'" by simp
    with some b have "inside_write (will r') (view (write_half (stream t))) bs (length bs) (sum t) r"
      by (auto simp: inside_write_def between_rounds_def accept_nothing intro!: exI [of _ "[]"])
    with some b have "matches (relay_with_logging R W t) (fold relay_step [] r)"
      by (simp add: st after_read_def loop_matches_def)
    then show ?thesis by blast
  qed
qed

lemma step_writing:
  assumes m: "matches t r" and ph: "phase t = Writing bs k"
  shows "\<exists>ks. matches (relay_with_logging R W t) (fold relay_step ks r)"
proof -
  let ?es = "will (read_half (stream t))"
  obtain x w' where W: "poll_write W bs (write_half (stream t)) = (x, w')" by fastforce
  let ?t = "t\<lparr>stream := (stream t)\<lparr>write_half := w'\<rparr>\<rparr>"
  have st: "relay_with_logging R W t = after_write bs k x ?t"
    by (simp add: relay_with_logging_def ph W)
  from m ph have b: "buf_size r = 1024"
    and i: "inside_write ?es (view (write_half (stream t))) bs k (sum t) r"
    by (simp_all add: loop_matches_def)
  from i obtain cs where ne: "bs \<noteq> []" and k: "k = length (cs @ bs)" "k \<le> buf_size r"
    and br: "between_rounds (map Byte (cs @ bs) @ ?es) (view_of r) (sum t) r"
    and v: "view (write_half (stream t)) = accept_bytes cs (view_of r)"
    and lim: "\<forall>m e. dst_limit r = Some (m, e) \<longrightarrow> length cs \<le> m"
    by (auto simp: inside_write_def)
  consider (wait) "x = Poll_Pending" | (fail) e where "x = Poll_Ready (Inl e)"
    | (some) j where "x = Poll_Ready (Inr j)"
    by (metis poll.exhaust sum.exhaust)
  then show ?thesis
  proof cases
    case wait
    with W writer.write_wait b i have "matches (relay_with_logging R W t) (fold relay_step [] r)"
      by (simp add: st after_write_def loop_matches_def ph)
    then show ?thesis by blast
  next
    case fail
    with W ne writer.write_fail
    have f: "view w' = view (write_half (stream t))"
        "breaks (view (write_half (stream t))) = Some (0, e)" by blast+
    with v lim have "dst_limit r = Some (length cs, e)"
      by (force simp: accept_bytes_def view_of_def)
    from round_broken [OF br ne k(2) [unfolded k(1)] this] f(1) v b
    have "matches (relay_with_logging R W t) (fold relay_step [length (cs @ bs)] r)"
      by (simp add: st fail after_write_def loop_matches_def accept_bytes_def view_of_def)
    then show ?thesis by blast
  next
    case some
    with W ne writer.write_some
    have j: "0 < j" "j \<le> length bs" "view w' = accept_bytes (take j bs) (accept_bytes cs (view_of r))"
      and jl: "\<forall>m e. breaks (accept_bytes cs (view_of r)) = Some (m, e) \<longrightarrow> j \<le> m"
      unfolding v [symmetric] by blast+
    have lim': "\<forall>m e. dst_limit r = Some (m, e) \<longrightarrow> length (cs @ take j bs) \<le> m"
      using jl lim j(2) by (fastforce simp: accept_bytes_def view_of_def)
    show ?thesis
    proof (cases "drop j bs = []")
      case True
      then have t: "take j bs = bs" by simp
      have "between_rounds ?es (accept_bytes (cs @ bs) (view_of r)) (sum t + of_nat k)
          (relay_step (length (cs @ bs)) r)"
        unfolding k(1) using br ne k lim' t by (intro round_written) auto
      with b some True j t have "matches (relay_with_logging R W t)
          (fold relay_step [length (cs @ bs)] r)"
        by (simp add: st after_write_def loop_matches_def accept_more)
      then show ?thesis by blast
    next
      case False
      have "inside_write ?es (view w') (drop j bs) k (sum t) r"
        unfolding inside_write_def using False k br j lim'
        by (intro exI [of _ "cs @ take j bs"]) (simp add: accept_more)
      with b some False j(1) have "matches (relay_with_logging R W t) (fold relay_step [] r)"
        by (simp add: st after_write_def loop_matches_def)
      then show ?thesis by blast
    qed
  qed
qed

lemma step_shutting:
  assumes m: "matches t r" and ph: "phase t = Shutting"
  shows "\<exists>ks. matches (relay_with_logging R W t) (fold relay_step ks r)"
proof -
  obtain x w' where W: "poll_shutdown W (write_half (stream t)) = (x, w')" by fastforce
  let ?t = "t\<lparr>stream := (stream t)\<lparr>write_half := w'\<rparr>\<rparr>"
  have st: "relay_with_logging R W t = after_shutdown x ?t"
    by (simp add: relay_with_logging_def ph W)
  have w: "view w' = view (write_half (stream t))" using W by (rule writer.close_wait)
  from m ph obtain fs where b: "buf_size r = 1024" "will (read_half (stream t)) = Fin # fs"
      "between_rounds (Fin # fs) (view (write_half (stream t))) (sum t) r"
    by (auto simp: loop_matches_def)
  consider (wait) "x = Poll_Pending" | (fail) e where "x = Poll_Ready (Inl e)"
    | (closed) u where "x = Poll_Ready (Inr u)"
    by (metis poll.exhaust sum.exhaust)
  then show ?thesis
  proof cases
    case wait
    with w b have "matches (relay_with_logging R W t) (fold relay_step [] r)"
      by (simp add: st after_shutdown_def loop_matches_def ph)
    then show ?thesis by blast
  next
    case fail
    with W writer.close_fail have "closing (view (write_half (stream t))) = Some e" by blast
    with w b have "matches (relay_with_logging R W t) (fold relay_step [1] r)"
      by (auto simp: st fail after_shutdown_def loop_matches_def relay_step_def relay_shutdown_def
          between_roundsD [OF b(3)])
    then show ?thesis by blast
  next
    case closed
    with W writer.close_ok have "closing (view (write_half (stream t))) = None" by blast
    with w b have "matches (relay_with_logging R W t) (fold relay_step [1] r)"
      by (auto simp: st closed after_shutdown_def loop_matches_def relay_step_def relay_shutdown_def
          between_roundsD [OF b(3)])
    then show ?thesis by blast
  qed
qed

lemma step_matches:
  assumes "matches t r"
  shows "\<exists>ks. matches (relay_with_logging R W t) (fold relay_step ks r)"
proof (cases "phase t")
  case (Returned x)
  then have "matches (relay_with_logging R W t) (fold relay_step [] r)"
    using assms by (simp add: relay_with_logging_def)
  then show ?thesis by blast
qed (use assms step_reading step_writing step_shutting in auto)

lemma run_matches:
  "matches t r \<Longrightarrow> \<exists>ks. matches ((relay_with_logging R W ^^ n) t) (fold relay_step ks r)"
proof (induction n)
  case 0
  then have "matches ((relay_with_logging R W ^^ 0) t) (fold relay_step [] r)" by simp
  then show ?case by blast
next
  case (Suc n)
  then obtain ks where "matches ((relay_with_logging R W ^^ n) t) (fold relay_step ks r)" by blast
  from step_matches [OF this] obtain ls
    where "matches ((relay_with_logging R W ^^ Suc n) t) (fold relay_step ls (fold relay_step ks r))"
    by auto
  then have "matches ((relay_with_logging R W ^^ Suc n) t) (fold relay_step (ks @ ls) r)" by simp
  then show ?case by blast
qed

text \<open>
  Progress: every poll that does not use up a wait gets the loop nearer to its return, if the
  reader comes to an end at all. A byte costs at most three polls.
\<close>

definition work :: "('r, 'w) tunnel_stream relay_task \<Rightarrow> nat" where
  "work t = loop_work (will (read_half (stream t))) (phase t) +
     rwaits (read_half (stream t)) + wwaits (write_half (stream t))"

lemma step_works:
  assumes "ends (will (read_half (stream t)))" and "loop_work es (phase t) \<noteq> 0"
    and "\<And>k. phase t \<noteq> Writing [] k"
  shows "work (relay_with_logging R W t) < work t \<and>
    ends (will (read_half (stream (relay_with_logging R W t)))) \<and>
    (\<forall>k. phase (relay_with_logging R W t) \<noteq> Writing [] k)"
proof (cases "phase t")
  case Reading
  obtain x r' where R: "R 1024 (read_half (stream t)) = (x, r')" by fastforce
  have nz: "(0 :: nat) < 1024" by simp
  note d = reader.read_due [OF nz R]
  have st: "relay_with_logging R W t =
      after_read x (t\<lparr>stream := (stream t)\<lparr>read_half := r'\<rparr>\<rparr>)"
    by (simp add: relay_with_logging_def Reading R)
  consider (wait) "x = Poll_Pending" | (fail) e where "x = Poll_Ready (Inl e)"
    | (eof) "x = Poll_Ready (Inr [])" | (some) bs where "x = Poll_Ready (Inr bs)" "bs \<noteq> []"
    by (metis poll.exhaust sum.exhaust)
  then show ?thesis
  proof cases
    case wait
    have "will (read_half (stream t)) \<noteq> []" using assms(1) by (auto simp: ends_def)
    with R wait reader.read_wait reader.read_soon [OF nz]
    have "will r' = will (read_half (stream t))" "rwaits r' < rwaits (read_half (stream t))"
      by blast+
    with wait assms Reading show ?thesis by (simp add: st after_read_def work_def)
  next
    case fail
    with R reader.read_fail d assms Reading show ?thesis
      by (fastforce simp: st after_read_def work_def loop_work_def)
  next
    case eof
    with R reader.read_end [OF nz] d assms Reading show ?thesis
      by (fastforce simp: st after_read_def work_def loop_work_def)
  next
    case some
    with R reader.read_some [OF nz] have "will (read_half (stream t)) = map Byte bs @ will r'"
      by blast
    moreover from some(2) obtain b cs where "bs = b # cs" by (cases bs) auto
    ultimately show ?thesis using some(1) d assms(1) Reading
      by (simp add: st after_read_def work_def loop_work_def front_bytes_append)
  qed
next
  case (Writing bs k)
  then have ne: "bs \<noteq> []" using assms(3) by auto
  then obtain b cs where bs: "bs = b # cs" by (cases bs) auto
  obtain x w' where W: "poll_write W bs (write_half (stream t)) = (x, w')" by fastforce
  note d = writer.write_due [OF ne W]
  have st: "relay_with_logging R W t =
      after_write bs k x (t\<lparr>stream := (stream t)\<lparr>write_half := w'\<rparr>\<rparr>)"
    by (simp add: relay_with_logging_def Writing W)
  show ?thesis
  proof (cases "x = Poll_Pending")
    case True
    with W writer.write_soon [OF ne] have "wwaits w' < wwaits (write_half (stream t))" by blast
    with True assms Writing show ?thesis by (simp add: st after_write_def work_def)
  next
    case False
    with d assms(1) Writing bs show ?thesis
      by (auto simp: st after_write_def work_def loop_work_def split: poll.splits sum.splits)
  qed
next
  case Shutting
  obtain x w' where W: "poll_shutdown W (write_half (stream t)) = (x, w')" by fastforce
  note d = writer.close_due [OF W]
  have st: "relay_with_logging R W t =
      after_shutdown x (t\<lparr>stream := (stream t)\<lparr>write_half := w'\<rparr>\<rparr>)"
    by (simp add: relay_with_logging_def Shutting W)
  show ?thesis
  proof (cases "x = Poll_Pending")
    case True
    with W writer.close_soon have "wwaits w' < wwaits (write_half (stream t))" by blast
    with True assms Shutting show ?thesis by (simp add: st after_shutdown_def work_def)
  next
    case False
    with d assms(1) Shutting show ?thesis
      by (auto simp: st after_shutdown_def work_def loop_work_def split: poll.splits sum.splits)
  qed
qed (use assms in \<open>simp add: loop_work_def\<close>)

lemma loop_returns:
  assumes "ends (will (read_half (stream t)))" and "\<forall>k. phase t \<noteq> Writing [] k" and "work t \<le> n"
  shows "\<exists>x. phase ((relay_with_logging R W ^^ n) t) = Returned x"
  using assms
proof (induction n arbitrary: t)
  case 0
  then show ?case by (cases "phase t") (auto simp: work_def loop_work_def)
next
  case (Suc n)
  show ?case
  proof (cases "loop_work [] (phase t) = 0")
    case True
    then obtain x where x: "phase t = Returned x"
      by (cases "phase t") (simp_all add: loop_work_def)
    then have "relay_with_logging R W t = t" by (simp add: relay_with_logging_def)
    then have "(relay_with_logging R W ^^ m) t = t" for m by (induction m) simp_all
    with x show ?thesis by (simp only: relay_phase.inject ex_simps simp_thms)
  next
    case False
    with step_works [OF Suc.prems(1) False] Suc.prems
    have "\<exists>x. phase ((relay_with_logging R W ^^ n) (relay_with_logging R W t)) = Returned x"
      by (intro Suc.IH) auto
    then show ?thesis by (simp only: funpow_Suc_right comp_def)
  qed
qed

text \<open>A loop that starts afresh on a reader and a writer, and the direction it matches.\<close>

definition start :: "'r \<Rightarrow> 'w \<Rightarrow> relay" where
  "start r w = (relay_new 1024 (will r) (breaks (view w)) (closing (view w)))
     \<lparr>dst := taken (view w)\<rparr>"

lemma start_matches: "matches (relay_task_new (tunnel_stream_new r w)) (start r w)"
  by (simp add: loop_matches_def between_rounds_def relay_task_new_def tunnel_stream_new_def
      start_def relay_new_def view_of_def)

lemma loop_refines:
  "\<exists>ks. matches ((relay_with_logging R W ^^ n) (relay_task_new (tunnel_stream_new r w)))
     (relay_run ks (start r w))"
  unfolding relay_run_def by (rule run_matches [OF start_matches])

lemma loop_copies:
  assumes "will r = map Byte bs @ Fin # es" and "breaks (view w) = None"
    and "closing (view w) = None"
    and "3 * length bs + 2 + rwaits r + wwaits w \<le> n"
  defines "t \<equiv> (relay_with_logging R W ^^ n) (relay_task_new (tunnel_stream_new r w))"
  shows "phase t = Returned (Inr (of_nat (length bs))) \<and>
    taken (view (write_half (stream t))) = taken (view w) @ bs"
proof -
  let ?r = "start r w"
  have r0: "status ?r = Running" "src ?r = map Byte bs @ Fin # es" "dst_limit ?r = None"
      "shutdown_error ?r = None" "\<not> is_shut ?r" "0 < buf_size ?r" "total ?r = 0"
    using assms(1-3) by (simp_all add: start_def relay_new_def)
  have "\<exists>x. phase t = Returned x"
    unfolding t_def using assms(1,4)
    by (intro loop_returns)
      (simp_all add: relay_task_new_def tunnel_stream_new_def work_def loop_work_def ends_def)
  then obtain x where x: "phase t = Returned x" ..
  obtain ks where m: "matches t (relay_run ks ?r)" using loop_refines unfolding t_def by blast
  have ok: "status (relay_run ks ?r) \<noteq> Stopped e" for e
  proof
    assume e: "status (relay_run ks ?r) = Stopped e"
    have frozen: "fold relay_step ls u = u" if "status u = Stopped e" for ls u
      using that by (induction ls) (simp_all add: relay_frozen)
    have "status (fold relay_step (ks @ replicate (Suc (length bs)) 0) ?r) = Finished"
      using r0 by (intro relay_finishes) auto
    moreover have "fold relay_step (ks @ replicate (Suc (length bs)) 0) ?r = relay_run ks ?r"
      using frozen [OF e] by (simp only: relay_run_def fold_append comp_def)
    ultimately show False using e by simp
  qed
  with m x have f: "status (relay_run ks ?r) = Finished" "x = Inr (total (relay_run ks ?r))"
      "dst (relay_run ks ?r) = taken (view (write_half (stream t)))"
    by (auto simp: loop_matches_def split: sum.splits)
  have "relay_inv ?r (relay_run ks ?r)" using r0(1,5) by (rule relay_inv_run)
  with f(1) r0(2,7) have "total (relay_run ks ?r) = of_nat (length bs)"
      "dst (relay_run ks ?r) = dst ?r @ bs"
    by (auto simp: relay_inv_def)
  with x f show ?thesis by (simp add: start_def)
qed

end

subsection \<open>Sockets\<close>

text \<open>
  A socket: what the peer delivers, how many bytes have arrived at each coming poll of the
  reader and how many the kernel has room for at each poll of the writer (none makes the poll
  pending; after these, everything has arrived and there is room for everything), what was
  accepted, where writing breaks, and what a shutdown answers.
\<close>

record socket =
  coming :: "rx_event list"
  arrivals :: "nat list"
  accepted :: "u8 list"
  room :: "nat list"
  breaks_at :: "(nat \<times> io_error) option"
  close_error :: "io_error option"

definition socket_poll_read :: "socket read_impl" where
  "socket_poll_read n s =
     (let k = (case arrivals s of [] \<Rightarrow> n | a # _ \<Rightarrow> a); s' = s\<lparr>arrivals := tl (arrivals s)\<rparr> in
      if k = 0 then (Poll_Pending, s')
      else case coming s of
        [] \<Rightarrow> (Poll_Pending, s')
      | Byte b # _ \<Rightarrow>
          let bs = take (min n k) (front_bytes (coming s))
          in (Poll_Ready (Inr bs), s'\<lparr>coming := drop (length bs) (coming s)\<rparr>)
      | Fin # _ \<Rightarrow> (Poll_Ready (Inr []), s')
      | Broken e # _ \<Rightarrow> (Poll_Ready (Inl e), s'))"

definition socket_poll_write :: "u8 list \<Rightarrow> socket \<Rightarrow> (io_error + nat) poll \<times> socket" where
  "socket_poll_write bs s =
     (let k = (case room s of [] \<Rightarrow> length bs | a # _ \<Rightarrow> a); s' = s\<lparr>room := tl (room s)\<rparr> in
      if k = 0 then (Poll_Pending, s')
      else case breaks_at s of
        None \<Rightarrow>
          let j = min k (length bs)
          in (Poll_Ready (Inr j), s'\<lparr>accepted := accepted s @ take j bs\<rparr>)
      | Some (m, e) \<Rightarrow>
          if m = 0 then (Poll_Ready (Inl e), s')
          else let j = min (min k m) (length bs)
            in (Poll_Ready (Inr j),
                s'\<lparr>accepted := accepted s @ take j bs, breaks_at := Some (m - j, e)\<rparr>))"

definition socket_poll_shutdown :: "socket \<Rightarrow> (io_error + unit) poll \<times> socket" where
  "socket_poll_shutdown s =
     (Poll_Ready (case close_error s of None \<Rightarrow> Inr () | Some e \<Rightarrow> Inl e), s)"

definition socket_write :: "socket write_impl" where
  "socket_write =
     \<lparr>poll_write = socket_poll_write, poll_flush = \<lambda>s. (Poll_Ready (Inr ()), s),
      poll_shutdown = socket_poll_shutdown\<rparr>"

definition socket_view :: "socket \<Rightarrow> writer_view" where
  "socket_view s = \<lparr>taken = accepted s, breaks = breaks_at s, closing = close_error s\<rparr>"

definition zeros :: "nat list \<Rightarrow> nat" where
  "zeros ks = length (filter (\<lambda>k. k = 0) ks)"

lemma zeros_simps [simp]:
  "zeros [] = 0" "zeros (k # ks) = (if k = 0 then Suc (zeros ks) else zeros ks)"
  by (simp_all add: zeros_def)

lemma front_bytes_split:
  "es = map Byte (take k (front_bytes es)) @ drop (length (take k (front_bytes es))) es"
proof (induction es arbitrary: k rule: front_bytes.induct)
  case (1 b es)
  then show ?case by (cases k) auto
qed simp_all

interpretation socket_reader: byte_reader socket_poll_read coming "\<lambda>s. zeros (arrivals s)"
proof unfold_locales
  fix n r r' bs
  assume "0 < n" and "socket_poll_read n r = (Poll_Ready (Inr bs), r')" and "bs \<noteq> []"
  then show "length bs \<le> n \<and> coming r = map Byte bs @ coming r'"
    using front_bytes_split [of "coming r"]
    by (auto simp: socket_poll_read_def Let_def split: if_splits list.splits rx_event.splits)
qed (auto simp: socket_poll_read_def Let_def split: if_splits list.splits rx_event.splits)

interpretation socket_writer: byte_writer socket_write socket_view "\<lambda>s. zeros (room s)"
  by unfold_locales
    (auto simp: socket_write_def socket_poll_write_def socket_poll_shutdown_def socket_view_def
      accept_bytes_def Let_def split: if_splits list.splits option.splits)

subsection \<open>The loops over client streams\<close>

text \<open>
  A client stream whose plain and TLS streams are sockets; a TLS stream shows its plain text.
\<close>

abbreviation client_read :: "(socket, socket) client_io read_impl" where
  "client_read \<equiv> client_poll_read socket_poll_read socket_poll_read"

abbreviation client_writes :: "(socket, socket) client_io write_impl" where
  "client_writes \<equiv> client_write socket_write socket_write"

definition the_socket :: "(socket, socket) client_io \<Rightarrow> socket" where
  "the_socket = of_client id id"

interpretation sockets_r: client_reader socket_poll_read coming "\<lambda>s. zeros (arrivals s)"
  socket_poll_read coming "\<lambda>s. zeros (arrivals s)"
  by unfold_locales

interpretation sockets_w: client_writer socket_write socket_view "\<lambda>s. zeros (room s)"
  socket_write socket_view "\<lambda>s. zeros (room s)"
  by unfold_locales

interpretation client_loop: relay_loop client_read "of_client coming coming"
  "of_client (\<lambda>s. zeros (arrivals s)) (\<lambda>s. zeros (arrivals s))" client_writes
  "of_client socket_view socket_view" "of_client (\<lambda>s. zeros (room s)) (\<lambda>s. zeros (room s))"
  by unfold_locales

lemma of_client_same: "of_client f f s = f (the_socket s)"
  by (cases s) (simp_all add: of_client_def the_socket_def)

text \<open>
  C11: The two copies of the loop agree at every poll, and what they do is a run of the direction of
  the relay model that starts on the same streams: after any number of polls, with any pending
  polls, short reads and short writes, some list of rounds leads to the matching state.
\<close>

theorem relay_loops_refine:
  fixes r w :: "(socket, socket) client_io" and n :: nat
  shows "let t0 = relay_task_new (tunnel_stream_new r w);
      r0 = (relay_new 1024 (coming (the_socket r)) (breaks_at (the_socket w))
        (close_error (the_socket w)))\<lparr>dst := accepted (the_socket w)\<rparr>;
      t = (relay_with_logging client_read client_writes ^^ n) t0
    in (relay_with_tunnel_stream (tunnel_poll_read client_read) (tunnel_write client_writes) ^^ n)
         t0 = t \<and>
       (\<exists>ks. loop_matches (coming (the_socket (read_half (stream t))))
         (socket_view (the_socket (write_half (stream t)))) (phase t) (sum t) (relay_run ks r0))"
proof -
  have "relay_with_tunnel_stream (tunnel_poll_read client_read) (tunnel_write client_writes) =
      relay_with_logging client_read client_writes"
    by (rule ext) (rule copies_step)
  moreover have "client_loop.start r w = (relay_new 1024 (coming (the_socket r))
      (breaks_at (the_socket w)) (close_error (the_socket w)))\<lparr>dst := accepted (the_socket w)\<rparr>"
    by (simp add: client_loop.start_def of_client_same socket_view_def)
  ultimately show ?thesis
    using client_loop.loop_refines [of n r w] by (simp add: of_client_same Let_def)
qed

text \<open>
  C12: A reader that ends after \<open>bs\<close> and a writer that does not break: once polled often enough, three
  times for each byte, twice for the end and once for each pending poll, the loop has returned
  the number of the bytes and the writer has accepted exactly them.
\<close>

theorem relay_loop_returns:
  fixes r w :: "(socket, socket) client_io"
  assumes "coming (the_socket r) = map Byte bs @ Fin # es"
    and "breaks_at (the_socket w) = None" and "close_error (the_socket w) = None"
    and "3 * length bs + 2 + zeros (arrivals (the_socket r)) + zeros (room (the_socket w)) \<le> n"
  shows "let t = (relay_with_logging client_read client_writes ^^ n)
           (relay_task_new (tunnel_stream_new r w))
    in phase t = Returned (Inr (of_nat (length bs))) \<and>
       accepted (the_socket (write_half (stream t))) = accepted (the_socket w) @ bs"
  using client_loop.loop_copies [of r bs es w n] assms
  by (simp add: of_client_same socket_view_def Let_def)

definition sample_reader :: socket where
  "sample_reader = \<lparr>coming = [Byte 1, Byte 2, Byte 3, Fin], arrivals = [0, 2, 0, 1], accepted = [],
     room = [], breaks_at = None, close_error = None\<rparr>"

definition sample_writer :: socket where
  "sample_writer = \<lparr>coming = [], arrivals = [], accepted = [], room = [1, 0, 1],
     breaks_at = None, close_error = None\<rparr>"

theorem relay_loop_returns_witness:
  "let t = (relay_with_logging client_read client_writes ^^ 20)
           (relay_task_new (tunnel_stream_new (Tls_Stream sample_reader) (Plain_Stream sample_writer)))
    in phase t = Returned (Inr 3) \<and>
       accepted (the_socket (write_half (stream t))) = [1, 2, 3]"
  using relay_loop_returns [of "Tls_Stream sample_reader" "[1, 2, 3]" "[]" "Plain_Stream sample_writer" 20]
  by (simp add: the_socket_def of_client_def sample_reader_def sample_writer_def)

end
