(* ===== verification/Tunnel_Manager.thy ===== *)
theory Tunnel_Manager
  imports Port_Allocator Connection Relay
begin

section \<open>Reverse tunnels (src/tunnel/manager.rs, src/tunnel/error.rs)\<close>

text \<open>
  The tunnel manager with its three operations, the tasks it spawns on the runtime, and the
  errors it answers. A \<open>JoinHandle\<close> is the number of its task; \<open>tokio::spawn\<close> hands out
  fresh numbers, \<open>abort\<close> ends a task. \<open>Uuid\<close>s and the creation time come from outside.
  \<open>&mut self\<close> operations take and return the manager; the runtime is threaded beside it.
\<close>

subsection \<open>Errors\<close>

datatype tunnel_error =
    BindError u16 string
  | ClientConnectionError string string
  | AllocationError string
  | PortInUse u16
  | TunnelPortOutOfRange u16 u16 u16
  | TunnelNoPortsAvailable u16 u16
  | TunnelNotFound u16
  | PortReleaseError u16 string
  | DataTransferError string
  | TunnelIoError io_error
  | OperationFailed string

definition u16_string :: "u16 \<Rightarrow> string" where
  "u16_string p = dec_string (unat p)"

text \<open>The \<open>Display\<close> that \<open>thiserror\<close> derives for \<open>PortAllocError\<close>.\<close>

fun port_alloc_error_to_string :: "port_alloc_error \<Rightarrow> string" where
  "port_alloc_error_to_string (PortOutOfRange p lo hi) =
     ''Port '' @ u16_string p @ '' is out of allowed range ('' @ u16_string lo @ ''-'' @
     u16_string hi @ '')''"
| "port_alloc_error_to_string (PortUnavailable p) =
     ''Port '' @ u16_string p @ '' is already allocated''"
| "port_alloc_error_to_string (NoPortsAvailable lo hi) =
     ''No available ports in the range '' @ u16_string lo @ ''-'' @ u16_string hi"
| "port_alloc_error_to_string (PortNotAllocated p) =
     ''Port '' @ u16_string p @ '' is not currently allocated''"

text \<open>\<open>impl From<PortAllocError> for TunnelError\<close>.\<close>

fun tunnel_error_from :: "port_alloc_error \<Rightarrow> tunnel_error" where
  "tunnel_error_from (PortOutOfRange p lo hi) = TunnelPortOutOfRange p lo hi"
| "tunnel_error_from (PortUnavailable p) = PortInUse p"
| "tunnel_error_from (NoPortsAvailable lo hi) = TunnelNoPortsAvailable lo hi"
| "tunnel_error_from e = AllocationError (port_alloc_error_to_string e)"

subsection \<open>Tasks\<close>

text \<open>
  A task is the listener of a tunnel, bound or not yet, or a connection it accepted.
\<close>

datatype task =
    Listener u16 socket_addr bool
  | Handler socket_addr

text \<open>
  \<open>JoinHandle::abort\<close> only asks for the cancellation of a task: it moves the task from
  \<open>live\<close> to \<open>aborted\<close>, where it may still finish what it is doing before it stops.
\<close>

record runtime =
  next_task :: nat
  live :: "nat \<rightharpoonup> task"
  aborted :: "nat \<rightharpoonup> task"

definition spawn :: "runtime \<Rightarrow> task \<Rightarrow> nat \<times> runtime" where
  "spawn rt t =
     (next_task rt, rt\<lparr>next_task := Suc (next_task rt), live := (live rt)(next_task rt \<mapsto> t)\<rparr>)"

definition abort :: "nat \<Rightarrow> runtime \<Rightarrow> runtime" where
  "abort h rt =
     (case live rt h of
        None \<Rightarrow> rt
      | Some t \<Rightarrow> rt\<lparr>live := (live rt)(h := None), aborted := (aborted rt)(h \<mapsto> t)\<rparr>)"

subsection \<open>State and operations\<close>

record active_tunnel =
  tunnel_id :: uuid
  client_id :: uuid
  listen_port :: u16
  target_addr :: socket_addr
  tunnel_service :: service_type
  created_at :: instant

record tunnel_manager =
  active_tunnels :: "u16 \<rightharpoonup> active_tunnel"
  port_alloc :: port_allocator
  tasks :: "u16 \<rightharpoonup> nat list"

definition tunnel_manager_new :: "u16 \<Rightarrow> u16 \<Rightarrow> tunnel_manager option" where
  "tunnel_manager_new start_port end_port =
     map_option (\<lambda>pa. \<lparr>active_tunnels = Map.empty, port_alloc = pa, tasks = Map.empty\<rparr>)
       (port_allocator_new start_port end_port)"

definition create_reverse_tunnel ::
  "tunnel_manager \<Rightarrow> runtime \<Rightarrow> service_type \<Rightarrow> u16 option \<Rightarrow> socket_addr \<Rightarrow>
   uuid \<Rightarrow> uuid \<Rightarrow> instant \<Rightarrow> (tunnel_error + u16) \<times> tunnel_manager \<times> runtime" where
  "create_reverse_tunnel m rt service preferred addr id1 id2 now =
     (case allocate_port (port_alloc m) preferred of
        (Inl e, pa) \<Rightarrow> (Inl (tunnel_error_from e), m\<lparr>port_alloc := pa\<rparr>, rt)
      | (Inr p, pa) \<Rightarrow>
          let tunnel = \<lparr>tunnel_id = id1, client_id = id2, listen_port = p, target_addr = addr,
                        tunnel_service = service, created_at = now\<rparr>;
              (handle, rt') = spawn rt (Listener p addr False);
              handles = (case tasks m p of None \<Rightarrow> [] | Some hs \<Rightarrow> hs)
          in (Inr p,
              m\<lparr>port_alloc := pa, tasks := (tasks m)(p \<mapsto> handles @ [handle]),
                active_tunnels := (active_tunnels m)(p \<mapsto> tunnel)\<rparr>,
              rt'))"

definition close_tunnel ::
  "tunnel_manager \<Rightarrow> runtime \<Rightarrow> u16 \<Rightarrow> (tunnel_error + unit) \<times> tunnel_manager \<times> runtime" where
  "close_tunnel m rt p =
     (if active_tunnels m p = None then (Inl (TunnelNotFound p), m, rt)
      else
        let m1 = m\<lparr>active_tunnels := (active_tunnels m)(p := None)\<rparr> in
        case release_port (port_alloc m1) p of
          (Inl e, pa) \<Rightarrow>
            (Inl (PortReleaseError p (port_alloc_error_to_string e)), m1\<lparr>port_alloc := pa\<rparr>, rt)
        | (Inr u, pa) \<Rightarrow>
            (Inr (),
             m1\<lparr>port_alloc := pa, tasks := (tasks m1)(p := None)\<rparr>,
             fold abort (case tasks m1 p of None \<Rightarrow> [] | Some hs \<Rightarrow> hs) rt))"

text \<open>
  \<open>shutdown\<close> drains the task table and aborts every recorded task; \<open>order\<close> is the order
  in which \<open>HashMap::drain\<close> visits its ports.
\<close>

definition handles_at :: "tunnel_manager \<Rightarrow> u16 \<Rightarrow> nat list" where
  "handles_at m p = (case tasks m p of None \<Rightarrow> [] | Some hs \<Rightarrow> hs)"

definition shutdown_tunnels ::
  "tunnel_manager \<Rightarrow> runtime \<Rightarrow> u16 list \<Rightarrow> tunnel_manager \<times> runtime" where
  "shutdown_tunnels m rt order =
     (m\<lparr>tasks := Map.empty, active_tunnels := Map.empty\<rparr>,
      fold abort (concat (map (handles_at m) order)) rt)"

subsection \<open>What the tasks do\<close>

text \<open>
  \<open>tunnel_listener_task\<close>: it binds its port, or prints the error and returns; then it spawns
  a handler for every accepted connection and survives accept errors. An aborted listener may
  still bind its port or accept, until it stops and its socket is closed.
  \<open>handle_tunnel_connection\<close> ends on its own.
\<close>

inductive task_step :: "runtime \<Rightarrow> runtime \<Rightarrow> bool" where
  bind_ok: "live rt h = Some (Listener p addr False) \<Longrightarrow>
    task_step rt (rt\<lparr>live := (live rt)(h \<mapsto> Listener p addr True)\<rparr>)"
| bind_error: "live rt h = Some (Listener p addr False) \<Longrightarrow>
    task_step rt (rt\<lparr>live := (live rt)(h := None)\<rparr>)"
| accept_ok: "live rt h = Some (Listener p addr True) \<Longrightarrow>
    task_step rt (snd (spawn rt (Handler addr)))"
| accept_error: "live rt h = Some (Listener p addr True) \<Longrightarrow> task_step rt rt"
| handler_done: "live rt h = Some (Handler addr) \<Longrightarrow>
    task_step rt (rt\<lparr>live := (live rt)(h := None)\<rparr>)"
| late_bind: "aborted rt h = Some (Listener p addr False) \<Longrightarrow>
    task_step rt (rt\<lparr>aborted := (aborted rt)(h \<mapsto> Listener p addr True)\<rparr>)"
| late_accept: "aborted rt h = Some (Listener p addr True) \<Longrightarrow>
    task_step rt (snd (spawn rt (Handler addr)))"
| stop: "aborted rt h = Some t \<Longrightarrow>
    task_step rt (rt\<lparr>aborted := (aborted rt)(h := None)\<rparr>)"

inductive_cases task_stepE: "task_step rt rt'"

text \<open>
  \<open>handle_tunnel_connection\<close>: without a connection to the client it returns; otherwise both
  directions are copied with \<open>io::copy\<close> and shut down, under \<open>try_join!\<close>. As documented,
  \<open>io::copy\<close> moves what it reads to the writer, 8192 bytes at most at a time, until the reader
  ends, and answers the first error of either; these are the rounds of the relay loop.
\<close>

definition handle_tunnel_connection ::
  "io_error + endpoint \<Rightarrow> endpoint \<Rightarrow> (direction \<times> nat) list \<Rightarrow> tunnel option" where
  "handle_tunnel_connection connected client sched =
     (case connected of
        Inl e \<Rightarrow> None
      | Inr outbound \<Rightarrow> Some (tunnel_run sched (create_bidirectional_tunnel 8192 client outbound)))"

subsection \<open>Reachable states and their invariant\<close>

inductive tm_reach :: "u16 \<Rightarrow> u16 \<Rightarrow> tunnel_manager \<Rightarrow> runtime \<Rightarrow> bool"
  for lo hi :: u16 where
  start: "tunnel_manager_new lo hi = Some m \<Longrightarrow> live rt = Map.empty \<Longrightarrow> aborted rt = Map.empty \<Longrightarrow>
    tm_reach lo hi m rt"
| create: "tm_reach lo hi m rt \<Longrightarrow>
    create_reverse_tunnel m rt service pref addr id1 id2 now = (r, m', rt') \<Longrightarrow>
    tm_reach lo hi m' rt'"
| close: "tm_reach lo hi m rt \<Longrightarrow> close_tunnel m rt p = (r', m', rt') \<Longrightarrow> tm_reach lo hi m' rt'"
| shutdown: "tm_reach lo hi m rt \<Longrightarrow> set order = dom (tasks m) \<Longrightarrow>
    shutdown_tunnels m rt order = (m', rt') \<Longrightarrow> tm_reach lo hi m' rt'"
| run_task: "tm_reach lo hi m rt \<Longrightarrow> task_step rt rt' \<Longrightarrow> tm_reach lo hi m rt'"

definition registry_ok :: "tunnel_manager \<Rightarrow> bool" where
  "registry_ok m \<longleftrightarrow>
     pa_inv (port_alloc m) \<and>
     dom (tasks m) = dom (active_tunnels m) \<and>
     dom (active_tunnels m) \<subseteq> allocated_ports (port_alloc m) \<and>
     (\<forall>p t. active_tunnels m p = Some t \<longrightarrow> listen_port t = p) \<and>
     (\<forall>p hs. tasks m p = Some hs \<longrightarrow> length hs = 1)"

definition tasks_ok :: "tunnel_manager \<Rightarrow> runtime \<Rightarrow> bool" where
  "tasks_ok m rt \<longleftrightarrow>
     (\<forall>h. live rt h \<noteq> None \<or> aborted rt h \<noteq> None \<longrightarrow> h < next_task rt) \<and>
     (\<forall>p hs h. tasks m p = Some hs \<and> h \<in> set hs \<longrightarrow> h < next_task rt \<and> aborted rt h = None \<and>
        (\<forall>t. live rt h = Some t \<longrightarrow> (\<exists>addr b. t = Listener p addr b))) \<and>
     (\<forall>h p addr b. live rt h = Some (Listener p addr b) \<longrightarrow>
        tasks m p = Some [h] \<and> (\<exists>t. active_tunnels m p = Some t \<and> target_addr t = addr))"

lemma tasks_okI:
  assumes "\<And>h t. live rt h = Some t \<Longrightarrow> h < next_task rt"
    and "\<And>h t. aborted rt h = Some t \<Longrightarrow> h < next_task rt"
    and "\<And>p hs h. tasks m p = Some hs \<Longrightarrow> h \<in> set hs \<Longrightarrow> h < next_task rt"
    and "\<And>p hs h. tasks m p = Some hs \<Longrightarrow> h \<in> set hs \<Longrightarrow> aborted rt h = None"
    and "\<And>p hs h t. tasks m p = Some hs \<Longrightarrow> h \<in> set hs \<Longrightarrow> live rt h = Some t \<Longrightarrow>
      \<exists>addr b. t = Listener p addr b"
    and "\<And>h p addr b. live rt h = Some (Listener p addr b) \<Longrightarrow>
      tasks m p = Some [h] \<and> (\<exists>t. active_tunnels m p = Some t \<and> target_addr t = addr)"
  shows "tasks_ok m rt"
  unfolding tasks_ok_def
proof (intro conjI allI impI)
  show "h < next_task rt" if "live rt h \<noteq> None \<or> aborted rt h \<noteq> None" for h
    using that assms(1,2) by auto
  show "h < next_task rt" "aborted rt h = None" if "tasks m p = Some hs \<and> h \<in> set hs" for p hs h
    using that assms(3,4) by blast+
  show "\<exists>addr b. t = Listener p addr b"
    if "tasks m p = Some hs \<and> h \<in> set hs" and "live rt h = Some t" for p hs h t
    using that assms(5) by blast
  show "tasks m p = Some [h]" if "live rt h = Some (Listener p addr b)" for h p addr b
    using that assms(6) by blast
  show "\<exists>t. active_tunnels m p = Some t \<and> target_addr t = addr"
    if "live rt h = Some (Listener p addr b)" for h p addr b
    using that assms(6) by blast
qed

lemma tasks_okD:
  assumes "tasks_ok m rt"
  shows "live rt h = Some t \<Longrightarrow> h < next_task rt"
    and "tasks m p = Some hs \<Longrightarrow> h \<in> set hs \<Longrightarrow> h < next_task rt"
    and "tasks m p = Some hs \<Longrightarrow> h \<in> set hs \<Longrightarrow> live rt h = Some t \<Longrightarrow>
      \<exists>addr b. t = Listener p addr b"
    and "live rt h = Some (Listener p addr b) \<Longrightarrow>
      tasks m p = Some [h] \<and> (\<exists>t. active_tunnels m p = Some t \<and> target_addr t = addr)"
    and "aborted rt h = Some t \<Longrightarrow> h < next_task rt"
    and "tasks m p = Some hs \<Longrightarrow> h \<in> set hs \<Longrightarrow> aborted rt h = None"
  using assms unfolding tasks_ok_def by (force, blast, blast, blast, force, blast)

lemma fold_abort:
  "fold abort hs rt =
     rt\<lparr>live := (\<lambda>h. if h \<in> set hs then None else live rt h),
        aborted := (\<lambda>h. if h \<in> set hs \<and> live rt h \<noteq> None then live rt h else aborted rt h)\<rparr>"
proof (induction hs arbitrary: rt)
  case (Cons h hs)
  have a: "abort h rt = rt\<lparr>live := (live rt)(h := None),
      aborted := (\<lambda>x. if x = h \<and> live rt h \<noteq> None then live rt h else aborted rt x)\<rparr>"
    by (cases "live rt h") (auto simp: abort_def fun_eq_iff intro!: runtime.equality)
  show ?case
    unfolding fold_Cons comp_def Cons a by (rule runtime.equality) (auto simp: fun_eq_iff)
qed simp

lemma create_cases:
  assumes "registry_ok m"
    and "create_reverse_tunnel m rt service pref addr id1 id2 now = (r, m', rt')"
  obtains (refused) e where "fst (allocate_port (port_alloc m) pref) = Inl e"
      "r = Inl (tunnel_error_from e)" "m' = m" "rt' = rt"
  | (created) p pa t where "allocate_port (port_alloc m) pref = (Inr p, pa)" "pa_inv pa"
      "p \<notin> allocated_ports (port_alloc m)" "is_in_range (port_alloc m) p"
      "allocated_ports pa = insert p (allocated_ports (port_alloc m))"
      "active_tunnels m p = None" "tasks m p = None" "r = Inr p"
      "listen_port t = p" "target_addr t = addr"
      "m' = m\<lparr>port_alloc := pa, tasks := (tasks m)(p \<mapsto> [next_task rt]),
              active_tunnels := (active_tunnels m)(p \<mapsto> t)\<rparr>"
      "rt' = rt\<lparr>next_task := Suc (next_task rt),
                live := (live rt)(next_task rt \<mapsto> Listener p addr False)\<rparr>"
proof -
  obtain q pa where a: "allocate_port (port_alloc m) pref = (q, pa)" by force
  from assms(1) have inv: "pa_inv (port_alloc m)" by (simp add: registry_ok_def)
  from pa.alloc_inv [OF this, of pref] a have inv': "pa_inv pa" by simp
  show ?thesis
  proof (cases q)
    case (Inl e)
    with a pa.alloc_err have "pa = port_alloc m" by simp
    with a Inl assms(2) show ?thesis
      by (intro refused [of e]) (simp_all add: create_reverse_tunnel_def)
  next
    case (Inr p)
    with pa.alloc_ok [OF inv] a have p: "p \<notin> allocated_ports (port_alloc m)"
      "is_in_range (port_alloc m) p"
      "allocated_ports pa = insert p (allocated_ports (port_alloc m))" by auto
    with assms(1) have "tasks m p = None" "active_tunnels m p = None"
      by (auto simp: registry_ok_def)
    let ?t = "\<lparr>tunnel_id = id1, client_id = id2, listen_port = p, target_addr = addr,
        tunnel_service = service, created_at = now\<rparr>"
    from \<open>tasks m p = None\<close> \<open>active_tunnels m p = None\<close> a Inr assms(2) p inv'
    show ?thesis
      by (intro created [of p pa ?t]) (simp_all add: create_reverse_tunnel_def spawn_def Let_def)
  qed
qed

lemma registry_create:
  assumes "registry_ok m"
    and "create_reverse_tunnel m rt service pref addr id1 id2 now = (r, m', rt')"
  shows "registry_ok m'"
proof (cases rule: create_cases [OF assms, case_names refused created])
  case refused
  with assms(1) show ?thesis by simp
next
  case (created p pa t)
  from assms(1) show ?thesis
    unfolding created(11) registry_ok_def using created by auto
qed

lemma close_reachable_cases:
  assumes "registry_ok m" and "close_tunnel m rt p = (r, m', rt')"
  obtains (missing) "active_tunnels m p = None" "r = Inl (TunnelNotFound p)" "m' = m" "rt' = rt"
  | (closed) t h pa where "active_tunnels m p = Some t" "tasks m p = Some [h]" "r = Inr ()"
      "release_port (port_alloc m) p = (Inr (), pa)" "pa_inv pa"
      "allocated_ports pa = allocated_ports (port_alloc m) - {p}"
      "m' = m\<lparr>active_tunnels := (active_tunnels m)(p := None), port_alloc := pa,
              tasks := (tasks m)(p := None)\<rparr>"
      "rt' = abort h rt"
proof (cases "active_tunnels m p")
  case None
  with assms(2) show ?thesis by (intro missing) (simp_all add: close_tunnel_def)
next
  case (Some t)
  with assms(1) have in_A: "p \<in> allocated_ports (port_alloc m)" and "tasks m p \<noteq> None"
    by (auto simp: registry_ok_def)
  then obtain hs where hs: "tasks m p = Some hs" by auto
  with assms(1) have "length hs = 1" by (simp add: registry_ok_def)
  with hs obtain h where h: "tasks m p = Some [h]" by (auto simp: length_Suc_conv)
  obtain pa where pa: "release_port (port_alloc m) p = (Inr (), pa)"
    using pa.release_ok [OF in_A] by (metis prod.collapse)
  from pa.release_ok [OF in_A] pa have "allocated_ports pa = allocated_ports (port_alloc m) - {p}"
    by simp
  moreover have "pa_inv pa"
    using pa.release_inv [of "port_alloc m" p] pa assms(1) by (simp add: registry_ok_def)
  ultimately show ?thesis
    using assms(2) Some h pa by (intro closed [of t h pa]) (simp_all add: close_tunnel_def)
qed

lemma recorded_task:
  assumes "registry_ok m" and "active_tunnels m p = Some t"
  obtains h where "tasks m p = Some [h]"
proof -
  from assms have "p \<in> dom (tasks m)" by (auto simp: registry_ok_def)
  then obtain hs where hs: "tasks m p = Some hs" by auto
  with assms(1) have "length hs = 1" by (simp add: registry_ok_def)
  then obtain h where "hs = [h]" by (auto simp: length_Suc_conv)
  with hs that show ?thesis by simp
qed

lemma registry_close:
  assumes "registry_ok m" and "close_tunnel m rt p = (r, m', rt')"
  shows "registry_ok m'"
proof (cases rule: close_reachable_cases [OF assms, case_names missing closed])
  case missing
  with assms(1) show ?thesis by simp
next
  case closed
  with assms(1) show ?thesis by (auto simp: registry_ok_def split: if_splits)
qed

lemma tasks_create:
  assumes "registry_ok m" and "tasks_ok m rt"
    and "create_reverse_tunnel m rt service pref addr id1 id2 now = (r, m', rt')"
  shows "tasks_ok m' rt'"
proof (cases rule: create_cases [OF assms(1,3), case_names refused created])
  case refused
  with assms(2) show ?thesis by simp
next
  case (created p pa t)
  from assms(2) have "live rt (next_task rt) = None" "aborted rt (next_task rt) = None"
    by (force simp: tasks_ok_def)+
  with assms(2) created(7,10) show ?thesis
    unfolding created(11,12) tasks_ok_def by (fastforce split: if_splits)
qed

lemma tasks_close:
  assumes "registry_ok m" and "tasks_ok m rt" and "close_tunnel m rt p = (r, m', rt')"
  shows "tasks_ok m' rt'"
proof (cases rule: close_reachable_cases [OF assms(1,3), case_names missing closed])
  case missing
  with assms(2) show ?thesis by simp
next
  case (closed t h pa)
  note D = tasks_okD [OF assms(2)]
  have l: "live rt' = (live rt)(h := None)" "next_task rt' = next_task rt"
    and a: "aborted rt' x = (if x = h \<and> live rt h \<noteq> None then live rt h else aborted rt x)" for x
    using closed(8) by (auto simp: abort_def split: option.splits)
  have m: "tasks m' = (tasks m)(p := None)" "active_tunnels m' = (active_tunnels m)(p := None)"
    using closed(7) by simp_all
  have other: "x \<noteq> h \<or> live rt h = None" if "tasks m q = Some hs" "x \<in> set hs" "q \<noteq> p" for q hs x
    using D(3) [OF closed(2), of h] D(3) [OF that(1,2)] that(3) by (cases "live rt h") auto
  show ?thesis
  proof (rule tasks_okI)
    show "x < next_task rt'" if "live rt' x = Some y" for x y
      using that D(1) by (simp add: l split: if_splits)
    show "x < next_task rt'" if "aborted rt' x = Some y" for x y
      using that D(1,5) by (simp add: l a split: if_splits)
    show "x < next_task rt'" if "tasks m' q = Some hs" "x \<in> set hs" for q hs x
      using that D(2) by (simp add: l m split: if_splits)
    show "aborted rt' x = None" if "tasks m' q = Some hs" "x \<in> set hs" for q hs x
      using that D(6) other by (auto simp: a m split: if_splits)
    show "\<exists>addr b. y = Listener q addr b"
      if "tasks m' q = Some hs" "x \<in> set hs" "live rt' x = Some y" for q hs x y
      using that D(3) by (auto simp: l m split: if_splits)
    show "tasks m' q = Some [x] \<and> (\<exists>t. active_tunnels m' q = Some t \<and> target_addr t = addr)"
      if "live rt' x = Some (Listener q addr b)" for x q addr b
      using that D(4) [of x q addr b] closed(2) by (auto simp: l m split: if_splits)
  qed
qed

lemma shutdown_frame:
  assumes "tasks_ok m rt" and "set order = dom (tasks m)"
    and "shutdown_tunnels m rt order = (m', rt')"
  shows "live rt' h = Some t \<longleftrightarrow> live rt h = Some t \<and> (\<exists>addr. t = Handler addr)"
proof -
  let ?H = "set (concat (map (handles_at m) order))"
  have H: "h \<in> ?H \<longleftrightarrow> (\<exists>p hs. tasks m p = Some hs \<and> h \<in> set hs)" for h
    using assms(2) by (auto simp: handles_at_def split: option.splits) (metis domI)+
  from assms(3) have l: "live rt' = (\<lambda>h. if h \<in> ?H then None else live rt h)"
    by (auto simp: shutdown_tunnels_def fold_abort)
  have "h \<in> ?H \<longleftrightarrow> (\<exists>p addr b. live rt h = Some (Listener p addr b))" if "live rt h = Some t"
    using assms(1) that unfolding H tasks_ok_def by fastforce
  then show ?thesis unfolding l by (cases t) auto
qed

lemma shutdown_registry:
  assumes "registry_ok m" and "shutdown_tunnels m rt order = (m', rt')"
  shows "registry_ok m'"
  using assms by (auto simp: registry_ok_def shutdown_tunnels_def)

lemma shutdown_next: "shutdown_tunnels m rt order = (m', rt') \<Longrightarrow>
    next_task rt' = next_task rt \<and> tasks m' = Map.empty"
  by (auto simp: shutdown_tunnels_def fold_abort)

lemma shutdown_tasks:
  assumes "tasks_ok m rt" and "set order = dom (tasks m)"
    and "shutdown_tunnels m rt order = (m', rt')"
  shows "tasks_ok m' rt'"
proof -
  note l = shutdown_frame [OF assms]
  have a: "live rt h \<noteq> None" if "live rt' h \<noteq> None" for h
  proof -
    from that obtain t where "live rt' h = Some t" by auto
    then have "live rt h = Some t" by (simp only: l)
    then show ?thesis by simp
  qed
  have a': "live rt h \<noteq> None \<or> aborted rt h \<noteq> None" if "aborted rt' h \<noteq> None" for h
    using that assms(3) by (auto simp: shutdown_tunnels_def fold_abort split: if_splits)
  have b: "live rt' h \<noteq> Some (Listener p addr b)" for h p addr b
    by (simp only: l) simp
  from shutdown_next [OF assms(3)] have n: "next_task rt' = next_task rt" "tasks m' = Map.empty"
    by auto
  from assms(1) have lt: "live rt h \<noteq> None \<or> aborted rt h \<noteq> None \<Longrightarrow> h < next_task rt" for h
    unfolding tasks_ok_def by blast
  have "h < next_task rt" if "live rt' h \<noteq> None \<or> aborted rt' h \<noteq> None" for h
    using that a a' lt by blast
  then show ?thesis
    unfolding tasks_ok_def n using b by (intro conjI allI impI) simp_all
qed

lemma task_step_ok:
  assumes "task_step rt rt'" and "tasks_ok m rt"
  shows "tasks_ok m rt'"
proof -
  note D = tasks_okD [OF assms(2)]
  show ?thesis
    using assms(1)
  proof cases
    case (bind_ok h p addr)
    with D(4) have lp: "tasks m p = Some [h]" by blast
    have "q = p" if "tasks m q = Some hs" "h \<in> set hs" for q hs
      using D(3) [OF that bind_ok(2)] by auto
    with bind_ok D show ?thesis by (intro tasks_okI) (auto split: if_splits)
  next
    case (bind_error h p addr)
    with D show ?thesis by (intro tasks_okI) (auto split: if_splits)
  next
    case (accept_ok h p addr)
    have "h' \<noteq> next_task rt" if "tasks m q = Some hs" "h' \<in> set hs" for q hs h'
      using D(2) [OF that] by simp
    with accept_ok D show ?thesis
      by (intro tasks_okI) (auto simp: spawn_def less_Suc_eq split: if_splits)
  next
    case accept_error
    with assms(2) show ?thesis by simp
  next
    case (handler_done h addr)
    with D show ?thesis by (intro tasks_okI) (auto split: if_splits)
  next
    case (late_bind h p addr)
    with D show ?thesis by (intro tasks_okI) (auto split: if_splits)
  next
    case (late_accept h p addr)
    have "h' \<noteq> next_task rt" if "tasks m q = Some hs" "h' \<in> set hs" for q hs h'
      using D(2) [OF that] by simp
    with late_accept D show ?thesis
      by (intro tasks_okI) (auto simp: spawn_def less_Suc_eq split: if_splits)
  next
    case (stop h t)
    with D show ?thesis by (intro tasks_okI) (auto split: if_splits)
  qed
qed

lemma tm_reach_ok: "tm_reach lo hi m rt \<Longrightarrow> registry_ok m \<and> tasks_ok m rt"
proof (induction rule: tm_reach.induct)
  case (start m rt)
  then show ?case
    by (auto simp: tunnel_manager_new_def registry_ok_def tasks_ok_def dest: pa_inv_new)
next
  case create
  then show ?case by (blast intro: registry_create tasks_create)
next
  case close
  then show ?case by (blast intro: registry_close tasks_close)
next
  case shutdown
  then show ?case by (blast intro: shutdown_registry shutdown_tasks)
next
  case run_task
  then show ?case by (blast intro: task_step_ok)
qed

lemma create_alloc:
  "create_reverse_tunnel m rt service pref addr id1 id2 now = (r, m', rt') \<Longrightarrow>
   port_alloc m' = snd (allocate_port (port_alloc m) pref)"
  by (auto simp: create_reverse_tunnel_def spawn_def Let_def split: prod.splits sum.splits)

lemma close_alloc:
  "close_tunnel m rt p = (r, m', rt') \<Longrightarrow>
   port_alloc m' = port_alloc m \<or> port_alloc m' = snd (release_port (port_alloc m) p)"
  by (auto simp: close_tunnel_def Let_def split: prod.splits sum.splits if_splits)

lemma tm_reach_range:
  "tm_reach lo hi m rt \<Longrightarrow> min_port (port_alloc m) = lo \<and> max_port (port_alloc m) = hi"
proof (induction rule: tm_reach.induct)
  case start
  then show ?case by (auto simp: tunnel_manager_new_def port_allocator_new_def split: if_splits)
next
  case create
  then show ?case by (simp add: create_alloc range_frame)
next
  case (close m rt p r' m' rt')
  then show ?case using close_alloc [OF close.hyps(2)] by (auto simp: range_frame)
next
  case shutdown
  then show ?case by (auto simp: shutdown_tunnels_def)
qed

lemma tm_reach_in_range:
  assumes "tm_reach lo hi m rt" and "p \<in> allocated_ports (port_alloc m)"
  shows "lo \<le> p \<and> p \<le> hi"
  using tm_reach_ok [OF assms(1)] tm_reach_range [OF assms(1)] assms(2)
  by (auto simp: registry_ok_def pa_inv_def)

text \<open>A reachable state for the witnesses: one tunnel on port 9000, whose listener has number 0.\<close>

definition sample_manager :: tunnel_manager where
  "sample_manager =
     \<lparr>active_tunnels = [9000 \<mapsto> \<lparr>tunnel_id = 1, client_id = 2, listen_port = 9000,
         target_addr = SocketAddrV4 [10, 0, 0, 1] 80, tunnel_service = WebService, created_at = 3\<rparr>],
      port_alloc = \<lparr>min_port = 9000, max_port = 9001, allocated_ports = {9000},
         available_ports = [9001], next_port = 9001\<rparr>,
      tasks = [9000 \<mapsto> [0]]\<rparr>"

definition sample_runtime :: runtime where
  "sample_runtime =
     \<lparr>next_task = 1, live = [0 \<mapsto> Listener 9000 (SocketAddrV4 [10, 0, 0, 1] 80) False],
      aborted = Map.empty\<rparr>"

lemma sample_facts:
  "active_tunnels sample_manager 9000 \<noteq> None" "dom (tasks sample_manager) = {9000}"
  "allocated_ports (port_alloc sample_manager) = {9000}"
  by (simp_all add: sample_manager_def)

lemma sample_reach: "tm_reach 9000 9001 sample_manager sample_runtime"
proof -
  let ?m = "\<lparr>active_tunnels = Map.empty, port_alloc = \<lparr>min_port = 9000, max_port = 9001,
      allocated_ports = {}, available_ports = [9000, 9001], next_port = 9000\<rparr>,
      tasks = Map.empty\<rparr>"
  let ?rt = "\<lparr>next_task = 0, live = Map.empty, aborted = Map.empty\<rparr>"
  have reach: "tm_reach 9000 9001 ?m ?rt"
    by (rule tm_reach.start)
       (simp_all add: tunnel_manager_new_def port_allocator_new_def word_range_def upt_rec)
  show ?thesis
    by (rule tm_reach.create [OF reach, of WebService None "SocketAddrV4 [10, 0, 0, 1] 80" 1 2 3
          "Inr 9000"])
       (simp add: create_reverse_tunnel_def op_defs spawn_def Let_def sample_manager_def
         sample_runtime_def)
qed

subsection \<open>Properties\<close>

text \<open>
  C7: the registry in every reachable state, whatever calls were made and however the tasks ran.
  A listed tunnel is stored under its own port, which is in the range and leased, and has exactly
  one recorded task; nobody aborted that task, and while it runs it is the listener of that port
  for the client of the tunnel. A port without a listed tunnel has no recorded task. A listener
  that was not aborted is the recorded task of the listed tunnel of its port, so no port has two
  of them. The converses fail: a listed tunnel may have lost its listener, a leased
  port may have no tunnel, and an aborted listener may still hold its port.
\<close>

theorem tunnel_registry_consistent:
  assumes "tm_reach lo hi m rt"
  shows "(\<forall>p t. active_tunnels m p = Some t \<longrightarrow>
        listen_port t = p \<and> p \<in> allocated_ports (port_alloc m) \<and> lo \<le> p \<and> p \<le> hi \<and>
        (\<exists>h. tasks m p = Some [h] \<and> aborted rt h = None \<and>
          (\<forall>x. live rt h = Some x \<longrightarrow> (\<exists>b. x = Listener p (target_addr t) b)))) \<and>
    (\<forall>p. active_tunnels m p = None \<longrightarrow> tasks m p = None) \<and>
    (\<forall>h p addr b. live rt h = Some (Listener p addr b) \<longrightarrow> tasks m p = Some [h] \<and>
        (\<exists>t. active_tunnels m p = Some t \<and> target_addr t = addr)) \<and>
    (\<forall>h h' p a a' b b'. live rt h = Some (Listener p a b) \<and> live rt h' = Some (Listener p a' b')
        \<longrightarrow> h = h')"
proof (intro conjI allI impI)
  from tm_reach_ok [OF assms] have r: "registry_ok m" and t: "tasks_ok m rt" by auto
  note D = tasks_okD(4) [OF t]
  show "listen_port t = p" if "active_tunnels m p = Some t" for p t
    using r that by (simp add: registry_ok_def)
  have al: "p \<in> allocated_ports (port_alloc m)" if "active_tunnels m p = Some t" for p t
    using r that unfolding registry_ok_def by blast
  then show "p \<in> allocated_ports (port_alloc m)" if "active_tunnels m p = Some t" for p t
    using that by blast
  show "lo \<le> p" "p \<le> hi" if "active_tunnels m p = Some t" for p t
    using tm_reach_in_range [OF assms al [OF that]] by auto
  show "\<exists>h. tasks m p = Some [h] \<and> aborted rt h = None \<and>
      (\<forall>x. live rt h = Some x \<longrightarrow> (\<exists>b. x = Listener p (target_addr t) b))"
    if a: "active_tunnels m p = Some t" for p t
  proof -
    from r a obtain h where h: "tasks m p = Some [h]" by (rule recorded_task)
    have "\<exists>b. x = Listener p (target_addr t) b" if "live rt h = Some x" for x
    proof -
      from tasks_okD(3) [OF t h _ that] obtain addr b where x: "x = Listener p addr b" by auto
      with D [of h p addr b] that a show ?thesis by auto
    qed
    with h tasks_okD(6) [OF t h] show ?thesis by auto
  qed
  show "tasks m p = None" if "active_tunnels m p = None" for p
    using r that by (auto simp: registry_ok_def)
  show "tasks m p = Some [h]" "\<exists>t. active_tunnels m p = Some t \<and> target_addr t = addr"
    if "live rt h = Some (Listener p addr b)" for h p addr b
    using D [OF that] by blast+
  show "h = h'" if "live rt h = Some (Listener p a b) \<and> live rt h' = Some (Listener p a' b')"
    for h h' p a a' b b'
    using D [of h p a b] D [of h' p a' b'] that by simp
qed

theorem tunnel_registry_consistent_witness:
  "9000 \<in> allocated_ports (port_alloc sample_manager) \<and> (9000 :: u16) \<le> 9001"
proof -
  obtain t where "active_tunnels sample_manager 9000 = Some t" using sample_facts(1) by auto
  with tunnel_registry_consistent [OF sample_reach] show ?thesis by blast
qed

text \<open>
  C21: a successful \<open>create_reverse_tunnel\<close> opens its tunnel on a port of the range that no
  listed tunnel and no listener uses that was not aborted, the preferred one if there is one; it adds exactly
  that tunnel and one listener task, not yet bound, and leaves everything else as it was.
\<close>

theorem create_uses_free_port:
  assumes "tm_reach lo hi m rt"
    and "create_reverse_tunnel m rt service pref addr id1 id2 now = (Inr p, m', rt')"
  shows "lo \<le> p \<and> p \<le> hi \<and> active_tunnels m p = None \<and>
    (\<forall>h a b. live rt h \<noteq> Some (Listener p a b)) \<and>
    (pref = None \<or> pref = Some p) \<and>
    (\<forall>q. q \<noteq> p \<longrightarrow> active_tunnels m' q = active_tunnels m q) \<and>
    map_option target_addr (active_tunnels m' p) = Some addr \<and>
    live rt' = (live rt)(next_task rt \<mapsto> Listener p addr False) \<and> live rt (next_task rt) = None"
proof -
  from tm_reach_ok [OF assms(1)] have r: "registry_ok m" and t: "tasks_ok m rt" by auto
  show ?thesis
  proof (cases rule: create_cases [OF r assms(2), case_names refused created])
    case refused
    then show ?thesis by simp
  next
    case (created q pa tn)
    then have q: "q = p" by simp
    from created(4) q tm_reach_range [OF assms(1)] have "lo \<le> p" "p \<le> hi"
      by (simp_all add: is_in_range_def)
    moreover have "pref = None \<or> pref = Some p"
      using port_refines [of "port_alloc m" pref] r created(1) q
      by (auto simp: pool_alloc_spec_def registry_ok_def split: option.splits)
    moreover have "live rt h \<noteq> Some (Listener p a b)" for h a b
      using tasks_okD(4) [OF t, of h p a b] created(6) q by auto
    moreover have "live rt (next_task rt) = None"
      using tasks_okD(1) [OF t, of "next_task rt"] by (cases "live rt (next_task rt)") auto
    ultimately show ?thesis using created q by simp
  qed
qed

theorem create_uses_free_port_witness:
  "\<exists>m rt. tm_reach 9000 9001 m rt \<and>
     fst (create_reverse_tunnel m rt WebService None (SocketAddrV4 [10, 0, 0, 1] 80) 1 2 3) = Inr 9000
     \<and> active_tunnels m 9000 = None"
proof -
  let ?m = "\<lparr>active_tunnels = Map.empty, port_alloc = \<lparr>min_port = 9000, max_port = 9001,
      allocated_ports = {}, available_ports = [9000, 9001], next_port = 9000\<rparr>,
      tasks = Map.empty\<rparr>"
  let ?rt = "\<lparr>next_task = 0, live = Map.empty, aborted = Map.empty\<rparr>"
  have reach: "tm_reach 9000 9001 ?m ?rt"
    by (rule tm_reach.start)
       (simp_all add: tunnel_manager_new_def port_allocator_new_def word_range_def upt_rec)
  let ?c = "create_reverse_tunnel ?m ?rt WebService None (SocketAddrV4 [10, 0, 0, 1] 80) 1 2 3"
  have c: "fst ?c = Inr 9000"
    by (simp add: create_reverse_tunnel_def op_defs spawn_def Let_def)
  then have "?c = (Inr 9000, fst (snd ?c), snd (snd ?c))" by (metis prod.collapse)
  from create_uses_free_port [OF reach this] reach c show ?thesis by blast
qed

text \<open>
  C20: \<open>close_tunnel\<close> succeeds exactly on the listed tunnels. It frees the port and aborts the
  listener of that port if it still runs, and nothing else: every other tunnel, listener and established
  connection (which has no recorded handle) goes on.
\<close>

theorem close_tunnel_exact:
  assumes "tm_reach lo hi m rt" and "close_tunnel m rt p = (r, m', rt')"
  shows "if active_tunnels m p = None then r = Inl (TunnelNotFound p) \<and> m' = m \<and> rt' = rt
    else r = Inr () \<and> active_tunnels m' = (active_tunnels m)(p := None) \<and>
      allocated_ports (port_alloc m') = allocated_ports (port_alloc m) - {p} \<and>
      (\<forall>h t. live rt' h = Some t \<longleftrightarrow> live rt h = Some t \<and> (\<forall>a b. t \<noteq> Listener p a b)) \<and>
      (\<forall>h t. aborted rt' h = Some t \<longleftrightarrow>
         aborted rt h = Some t \<or> live rt h = Some t \<and> (\<exists>a b. t = Listener p a b))"
proof -
  from tm_reach_ok [OF assms(1)] have r: "registry_ok m" and t: "tasks_ok m rt" by auto
  show ?thesis
  proof (cases rule: close_reachable_cases [OF r assms(2), case_names missing closed])
    case missing
    then show ?thesis by simp
  next
    case (closed tn h pa)
    have "live rt' h' = Some x \<longleftrightarrow> live rt h' = Some x \<and> (\<forall>a b. x \<noteq> Listener p a b)" for h' x
    proof (cases "h' = h")
      case True
      with tasks_okD(3) [OF t closed(2), of h x] closed(8) show ?thesis
        by (auto simp: abort_def split: option.splits)
    next
      case False
      with tasks_okD(4) [OF t, of h' p] closed(2,8) show ?thesis
        by (auto simp: abort_def split: option.splits)
    qed
    moreover have "aborted rt' h' = Some x \<longleftrightarrow>
        aborted rt h' = Some x \<or> live rt h' = Some x \<and> (\<exists>a b. x = Listener p a b)" for h' x
    proof (cases "h' = h")
      case True
      with tasks_okD(3,6) [OF t closed(2), of h] closed(8) show ?thesis
        by (auto simp: abort_def split: option.splits)
    next
      case False
      with tasks_okD(4) [OF t, of h' p] closed(2,8) show ?thesis
        by (auto simp: abort_def split: option.splits)
    qed
    ultimately show ?thesis using closed by simp
  qed
qed

theorem close_tunnel_exact_witness:
  "\<exists>r m' rt'. close_tunnel sample_manager sample_runtime 9000 = (r, m', rt') \<and> r = Inr () \<and>
     9000 \<notin> allocated_ports (port_alloc m') \<and> (\<forall>h a b. live rt' h \<noteq> Some (Listener 9000 a b))"
proof -
  obtain r m' rt' where c: "close_tunnel sample_manager sample_runtime 9000 = (r, m', rt')"
    by (metis prod.collapse)
  from close_tunnel_exact [OF sample_reach c] sample_facts(1)
  have r: "r = Inr ()" "allocated_ports (port_alloc m') = allocated_ports (port_alloc sample_manager) - {9000}"
    and l: "\<forall>h t. live rt' h = Some t \<longleftrightarrow>
      live sample_runtime h = Some t \<and> (\<forall>a b. t \<noteq> Listener 9000 a b)" by simp_all
  from l have "\<forall>h a b. live rt' h \<noteq> Some (Listener 9000 a b)" by simp
  with r c show ?thesis by simp
qed

text \<open>
  the error branches. In a reachable state \<open>create_reverse_tunnel\<close> fails only for a port
  out of range, a port in use or an exhausted range, changing nothing; the conversion to
  \<open>AllocationError\<close> and the \<open>PortReleaseError\<close> of \<open>close_tunnel\<close> are unreachable.
\<close>

theorem tunnel_errors_exact:
  assumes "tm_reach lo hi m rt"
  shows "(\<forall>e m' rt'. create_reverse_tunnel m rt service pref addr id1 id2 now = (Inl e, m', rt') \<longrightarrow>
        m' = m \<and> rt' = rt \<and>
        (case pref of None \<Rightarrow> e = TunnelNoPortsAvailable lo hi
         | Some q \<Rightarrow> if lo \<le> q \<and> q \<le> hi then e = PortInUse q else e = TunnelPortOutOfRange q lo hi)) \<and>
    (\<forall>e m' rt'. close_tunnel m rt p = (Inl e, m', rt') \<longrightarrow> e = TunnelNotFound p)"
proof (intro conjI allI impI)
  from tm_reach_ok [OF assms] have r: "registry_ok m" by simp
  fix e m' rt'
  {
    assume c: "create_reverse_tunnel m rt service pref addr id1 id2 now = (Inl e, m', rt')"
    from r c have "m' = m \<and> rt' = rt \<and>
        (\<exists>f. fst (allocate_port (port_alloc m) pref) = Inl f \<and> e = tunnel_error_from f)"
      by (cases rule: create_cases [OF r c, case_names refused created]) auto
    then obtain f where f: "m' = m" "rt' = rt" "fst (allocate_port (port_alloc m) pref) = Inl f"
      "e = tunnel_error_from f" by blast
    from r have "pa_inv (port_alloc m)" by (simp add: registry_ok_def)
    from port_refines [OF this, of pref] f tm_reach_range [OF assms]
    show "m' = m" "rt' = rt" "case pref of None \<Rightarrow> e = TunnelNoPortsAvailable lo hi
      | Some q \<Rightarrow> if lo \<le> q \<and> q \<le> hi then e = PortInUse q else e = TunnelPortOutOfRange q lo hi"
      by (auto simp: pool_alloc_spec_def split: option.splits if_splits)
  }
  assume c: "close_tunnel m rt p = (Inl e, m', rt')"
  then show "e = TunnelNotFound p"
    by (cases rule: close_reachable_cases [OF r c, case_names missing closed]) auto
qed

theorem tunnel_errors_exact_witness:
  "\<exists>m' rt'. create_reverse_tunnel sample_manager sample_runtime WebService (Some 9000)
       (SocketAddrV4 [10, 0, 0, 2] 80) 4 5 6 = (Inl (PortInUse 9000), m', rt') \<and>
     m' = sample_manager \<and> rt' = sample_runtime"
proof -
  let ?c = "create_reverse_tunnel sample_manager sample_runtime WebService (Some 9000)
      (SocketAddrV4 [10, 0, 0, 2] 80) 4 5 6"
  have "fst ?c = Inl (PortInUse 9000)"
    by (simp add: create_reverse_tunnel_def op_defs sample_manager_def)
  then have c: "?c = (Inl (PortInUse 9000), fst (snd ?c), snd (snd ?c))" by (metis prod.collapse)
  from tunnel_errors_exact [OF sample_reach] c
  have "fst (snd ?c) = sample_manager \<and> snd (snd ?c) = sample_runtime" by blast
  with c show ?thesis by metis
qed

text \<open>
  C38: \<open>shutdown\<close> aborts every listener and empties the registry but does not release the
  ports. Afterwards the allocator still counts them as allocated: asking for one of them again is
  refused with \<open>PortInUse\<close>, and closing it is refused with \<open>TunnelNotFound\<close>, so no
  call of the manager can ever free it.
\<close>

theorem shutdown_leaks_ports:
  assumes "tm_reach lo hi m rt" and "set order = dom (tasks m)"
    and "shutdown_tunnels m rt order = (m', rt')" and "p \<in> allocated_ports (port_alloc m)"
  shows "active_tunnels m' = Map.empty \<and> (\<forall>h q a b. live rt' h \<noteq> Some (Listener q a b)) \<and>
    fst (create_reverse_tunnel m' rt' service (Some p) addr id1 id2 now) = Inl (PortInUse p) \<and>
    close_tunnel m' rt' p = (Inl (TunnelNotFound p), m', rt')"
proof -
  from tm_reach_ok [OF assms(1)] have t: "tasks_ok m rt" by simp
  have m': "active_tunnels m' = Map.empty" "port_alloc m' = port_alloc m"
    using assms(3) by (auto simp: shutdown_tunnels_def)
  have "live rt' h \<noteq> Some (Listener q a b)" for h q a b
    by (simp only: shutdown_frame [OF t assms(2,3)]) simp
  moreover have "fst (allocate_port (port_alloc m) (Some p)) = Inl (PortUnavailable p)"
    using tm_reach_in_range [OF assms(1,4)] tm_reach_range [OF assms(1)] assms(4)
    by (simp add: allocate_port_def allocate_specific_def not_less)
  then have "fst (create_reverse_tunnel m' rt' service (Some p) addr id1 id2 now) = Inl (PortInUse p)"
    by (auto simp: create_reverse_tunnel_def m' split: prod.splits)
  ultimately show ?thesis by (simp add: m' close_tunnel_def)
qed

theorem shutdown_leaks_ports_witness:
  "\<exists>m' rt'. shutdown_tunnels sample_manager sample_runtime [9000] = (m', rt') \<and>
     close_tunnel m' rt' 9000 = (Inl (TunnelNotFound 9000), m', rt')"
proof -
  obtain m' rt' where s: "shutdown_tunnels sample_manager sample_runtime [9000] = (m', rt')"
    by (metis prod.collapse)
  have "set [9000] = dom (tasks sample_manager)" by (simp add: sample_facts)
  moreover have "9000 \<in> allocated_ports (port_alloc sample_manager)" by (simp add: sample_facts)
  ultimately have "close_tunnel m' rt' 9000 = (Inl (TunnelNotFound 9000), m', rt')"
    using shutdown_leaks_ports [OF sample_reach _ s] by blast
  with s show ?thesis by blast
qed

text \<open>
  a listener that cannot bind its port is not reported. There is a reachable state in which
  \<open>create_reverse_tunnel\<close> answered a port, the tunnel is listed and its port leased, but
  nothing listens there: the task returned after the failed bind.
\<close>

theorem bind_failure_unreported:
  "\<exists>m rt. tm_reach 9000 9001 m rt \<and> active_tunnels m 9000 \<noteq> None \<and>
     9000 \<in> allocated_ports (port_alloc m) \<and> (\<forall>h a b. live rt h \<noteq> Some (Listener 9000 a b))"
proof -
  have l: "live sample_runtime 0 = Some (Listener 9000 (SocketAddrV4 [10, 0, 0, 1] 80) False)"
    by (simp add: sample_runtime_def)
  let ?rt = "sample_runtime\<lparr>live := (live sample_runtime)(0 := None)\<rparr>"
  have "tm_reach 9000 9001 sample_manager ?rt"
    by (rule tm_reach.run_task [OF sample_reach task_step.bind_error [OF l]])
  moreover have "live ?rt h = None" for h by (simp add: sample_runtime_def)
  ultimately show ?thesis using sample_facts
    by (intro exI [of _ sample_manager] exI [of _ ?rt]) simp
qed

text \<open>
  A connection to a reverse tunnel: nothing is relayed if the client cannot be reached, and if
  both directions end without an error, each side has received exactly what the other sent and
  has been shut down.
\<close>

theorem reverse_connection_relays:
  "handle_tunnel_connection (Inl e) client sched = None \<and>
   (\<forall>t n. handle_tunnel_connection (Inr outbound) client sched = Some t \<and>
      tunnel_result t = Some (Inr n) \<longrightarrow>
      dst (c2t t) = front_bytes (ep_rx client) \<and> dst (t2c t) = front_bytes (ep_rx outbound) \<and>
      is_shut (c2t t) \<and> is_shut (t2c t))"
  using tunnel_run_success [of sched 8192 client outbound] by (auto simp: handle_tunnel_connection_def)

text \<open>
  \<open>close_tunnel\<close> does not wait for the listener it aborts. There is a reachable state in which
  the port of a closed tunnel is free and is leased to a new tunnel while the aborted listener
  still holds its socket, so that the new listener cannot bind, which nobody is told.
\<close>

theorem closed_port_still_bound:
  "\<exists>m rt m' rt' h a. tm_reach 9000 9001 m rt \<and> active_tunnels m 9000 = None \<and>
     aborted rt h = Some (Listener 9000 a True) \<and>
     create_reverse_tunnel m rt WebService (Some 9000) a 4 5 6 = (Inr 9000, m', rt')"
proof -
  let ?a = "SocketAddrV4 [10, 0, 0, 1] 80"
  let ?rt = "sample_runtime\<lparr>live := (live sample_runtime)(0 \<mapsto> Listener 9000 ?a True)\<rparr>"
  have l: "live sample_runtime 0 = Some (Listener 9000 ?a False)" by (simp add: sample_runtime_def)
  have bound: "tm_reach 9000 9001 sample_manager ?rt"
    by (rule tm_reach.run_task [OF sample_reach task_step.bind_ok [OF l]])
  let ?c = "close_tunnel sample_manager ?rt 9000"
  let ?m = "fst (snd ?c)" and ?rt1 = "snd (snd ?c)"
  have closed: "tm_reach 9000 9001 ?m ?rt1"
    by (rule tm_reach.close [OF bound, of 9000 "fst ?c"]) simp
  have m: "active_tunnels ?m 9000 = None" "aborted ?rt1 0 = Some (Listener 9000 ?a True)"
    by (simp_all add: close_tunnel_def op_defs sample_manager_def sample_runtime_def abort_def)
  let ?d = "create_reverse_tunnel ?m ?rt1 WebService (Some 9000) ?a 4 5 6"
  have "fst ?d = Inr 9000"
    by (simp add: create_reverse_tunnel_def close_tunnel_def op_defs spawn_def Let_def
        sample_manager_def sample_runtime_def abort_def)
  then have "?d = (Inr 9000, fst (snd ?d), snd (snd ?d))" by (metis prod.collapse)
  with closed m show ?thesis by blast
qed

end
