(* ===== verification/Auth.thy ===== *)
theory Auth
  imports Protocol Connection
begin

section \<open>Authentication (src/app_state.rs, src/proxy/listener.rs)\<close>

text \<open>
  The shared state of the proxy, the checks of credentials, and the authentication of a client
  in each protocol. The base64 decoder is a crate: it is the argument \<open>b64\<close> of the functions
  that use it.
\<close>

subsection \<open>The shared state\<close>

text \<open>
  \<open>AppState\<close>; its notification channel is never used and is left out. A TLS acceptor is the
  handshake it performs on the stream.
\<close>

record app_state =
  connections :: connection_manager
  require_creds :: bool
  username :: "string option"
  password :: "string option"
  tls_acceptor :: "(io_error, unit) async option"

definition app_state_new ::
  "bool \<Rightarrow> string option \<Rightarrow> string option \<Rightarrow> (io_error, unit) async option \<Rightarrow> app_state" where
  "app_state_new creds user pass tls =
     \<lparr>connections = connection_manager_new, require_creds = creds, username = user,
      password = pass, tls_acceptor = tls\<rparr>"

subsection \<open>Checks\<close>

definition validate_credentials :: "string \<Rightarrow> string \<Rightarrow> app_state \<Rightarrow> bool" where
  "validate_credentials user pass state =
     (case (username state, password state) of
        (Some expected_username, Some expected_password) \<Rightarrow>
          as_bytes expected_username = as_bytes user \<and> as_bytes expected_password = as_bytes pass
      | _ \<Rightarrow> False)"

definition validate_socks4_user_id :: "string \<Rightarrow> app_state \<Rightarrow> bool" where
  "validate_socks4_user_id user_id state =
     (case username state of
        Some expected_username \<Rightarrow> as_bytes expected_username = as_bytes user_id
      | None \<Rightarrow> False)"

definition validate_auth_header ::
  "(string \<Rightarrow> u8 list option) \<Rightarrow> string \<Rightarrow> app_state \<Rightarrow> string + unit" where
  "validate_auth_header b64 auth_header state =
     (if starts_with auth_header ''Basic '' then
        (case b64 (drop 6 auth_header) of
           None \<Rightarrow> Inl ''Invalid base64 encoding''
         | Some decoded \<Rightarrow>
             (case from_utf8 decoded of
                None \<Rightarrow> Inl ''Invalid UTF-8 in credentials''
              | Some credentials \<Rightarrow>
                  (case splitn2 (CHR '':'') credentials of
                     (user, None) \<Rightarrow> Inl ''Missing password''
                   | (user, Some pass) \<Rightarrow>
                       if validate_credentials user pass state then Inr ()
                       else Inl ''Invalid credentials'')))
      else Inl ''Unsupported authentication method'')"

text \<open>The first line that names the header, whatever the case of its letters.\<close>

fun find_auth_line :: "string list \<Rightarrow> string option" where
  "find_auth_line [] = None"
| "find_auth_line (line # ls) =
     (if starts_with (to_lowercase line) ''proxy-authorization:''
      then Some (trim (trim_start_matches ''Proxy-Authorization:'' line))
      else find_auth_line ls)"

definition extract_proxy_auth_header :: "string \<Rightarrow> string option" where
  "extract_proxy_auth_header request_data = find_auth_line (str_lines request_data)"

subsection \<open>Per protocol\<close>

datatype auth_error = AuthMsg string | AuthIo io_error | AuthUtf8

definition io :: "(io_error, 'a) async \<Rightarrow> (auth_error, 'a) async" where
  "io m = map_err AuthIo m"

definition http_auth_required :: "u8 list" where
  "http_auth_required =
     as_bytes ''HTTP/1.1 407 Proxy Authentication Required'' @ [13, 10] @
     as_bytes ''Proxy-Authenticate: Basic realm=\"Proxy\"'' @ [13, 10] @
     as_bytes ''Content-Length: 0'' @ [13, 10] @
     as_bytes ''Connection: close'' @ [13, 10, 13, 10]"

text \<open>The flush after the write has nothing to wait for in this model.\<close>

definition send_http_auth_required_response :: "(io_error, unit) async" where
  "send_http_auth_required_response = write_all http_auth_required"

definition authenticate_http_or_https ::
  "(string \<Rightarrow> u8 list option) \<Rightarrow> app_state \<Rightarrow> (auth_error, bool) async" where
  "authenticate_http_or_https b64 state =
     await (io (peek_or_read 4096)) (\<lambda>bs.
       if bs = [] then fail (AuthMsg ''Connection closed by client'')
       else
         let denied = await (attempt send_http_auth_required_response) (\<lambda>_.
               fail (AuthMsg ''HTTP authentication required''))
         in case extract_proxy_auth_header (from_utf8_lossy bs) of
              Some auth_header \<Rightarrow>
                (case validate_auth_header b64 auth_header state of
                   Inr _ \<Rightarrow> ret True
                 | Inl _ \<Rightarrow> denied)
            | None \<Rightarrow> denied)"

definition authenticate_socks4 :: "app_state \<Rightarrow> (auth_error, bool) async" where
  "authenticate_socks4 state =
     await (io (read_exact 8)) (\<lambda>request_buf.
       if request_buf ! 0 \<noteq> 0x04 then fail (AuthMsg ''Invalid SOCKS4 version'')
       else if require_creds state then
         await (io read_nul) (\<lambda>user_id.
           let user_id_str = (case from_utf8 user_id of Some s \<Rightarrow> s | None \<Rightarrow> [])
           in if validate_socks4_user_id user_id_str state then ret True
              else await (io (write_all ([0x00, 0x5B] @ [0, 0, 0, 0] @ [0, 0]))) (\<lambda>_.
                fail (AuthMsg ''SOCKS4 authentication failed'')))
       else ret False)"

definition from_utf8_or_fail :: "u8 list \<Rightarrow> (auth_error, string) async" where
  "from_utf8_or_fail bs = (case from_utf8 bs of Some s \<Rightarrow> ret s | None \<Rightarrow> fail AuthUtf8)"

definition authenticate_socks5 :: "app_state \<Rightarrow> (auth_error, bool) async" where
  "authenticate_socks5 state =
     await (io (read_exact 2)) (\<lambda>handshake_buf.
     let version = handshake_buf ! 0; num_methods = handshake_buf ! 1 in
     if version \<noteq> 0x05 then fail (AuthMsg ''Invalid SOCKS version'')
     else await (io (read_exact (unat num_methods))) (\<lambda>methods_buf.
     let supports_auth = (0x02 \<in> set methods_buf) in
     if require_creds state \<and> supports_auth then
       await (io (write_all [0x05, 0x02])) (\<lambda>_.
       await (io (read_exact 2)) (\<lambda>auth_buf.
       if auth_buf ! 0 \<noteq> 0x01 then fail (AuthMsg ''Unsupported SOCKS5 auth version'')
       else
         await (io (read_exact (unat (auth_buf ! 1)))) (\<lambda>username_buf.
         await (io (read_exact 1)) (\<lambda>pass_len_buf.
         await (io (read_exact (unat (pass_len_buf ! 0)))) (\<lambda>password_buf.
         await (from_utf8_or_fail username_buf) (\<lambda>user.
         await (from_utf8_or_fail password_buf) (\<lambda>pass.
         if validate_credentials user pass state then
           await (io (write_all [0x01, 0x00])) (\<lambda>_. ret True)
         else
           await (io (write_all [0x01, 0x01])) (\<lambda>_.
           fail (AuthMsg ''SOCKS5 authentication failed'')))))))))
     else if require_creds state then
       await (io (write_all [0x05, 0xFF])) (\<lambda>_.
       fail (AuthMsg ''SOCKS5 authentication required but not supported by client''))
     else
       await (io (write_all [0x05, 0x00])) (\<lambda>_. ret False)))"

definition authenticate_by_protocol ::
  "(string \<Rightarrow> u8 list option) \<Rightarrow> proxy_protocol \<Rightarrow> app_state \<Rightarrow> (auth_error, bool) async" where
  "authenticate_by_protocol b64 protocol state =
     (case protocol of
        HTTP \<Rightarrow> authenticate_http_or_https b64 state
      | HTTPS \<Rightarrow> authenticate_http_or_https b64 state
      | SOCKS5 \<Rightarrow> authenticate_socks5 state
      | SOCKS4 \<Rightarrow> authenticate_socks4 state
      | TCP \<Rightarrow> ret False)"

subsection \<open>What an accepted client has shown\<close>

text \<open>
  The credentials that a client puts on the wire, per protocol, in terms of the bytes it sends.
  In SOCKS4 a user id that is not UTF-8 counts as the empty user name.
\<close>

fun shows_credentials ::
  "(string \<Rightarrow> u8 list option) \<Rightarrow> proxy_protocol \<Rightarrow> app_state \<Rightarrow> u8 list \<Rightarrow> bool" where
  "shows_credentials b64 SOCKS5 state input \<longleftrightarrow>
     (\<exists>methods user pass rest. 2 \<in> set methods \<and>
        username state = Some user \<and> password state = Some pass \<and>
        input = [5, of_nat (length methods)] @ methods @ [1, of_nat (length user)] @ as_bytes user @
          [of_nat (length pass)] @ as_bytes pass @ rest)"
| "shows_credentials b64 SOCKS4 state input \<longleftrightarrow>
     (\<exists>request uid user rest. length request = 8 \<and> request ! 0 = 4 \<and> 0 \<notin> set uid \<and>
        username state = Some user \<and> (from_utf8 uid = Some user \<or> from_utf8 uid = None \<and> user = []) \<and>
        input = request @ uid @ 0 # rest)"
| "shows_credentials b64 TCP state input \<longleftrightarrow> False"
| "shows_credentials b64 _ state input \<longleftrightarrow>
     (\<exists>seen rest enc user pass. input = seen @ rest \<and> CHR '':'' \<notin> set user \<and>
        username state = Some user \<and> password state = Some pass \<and>
        extract_proxy_auth_header (from_utf8_lossy seen) = Some (''Basic '' @ enc) \<and>
        b64 enc = Some (as_bytes (user @ '':'' @ pass)))"

lemma validate_credentials_iff:
  "validate_credentials user pass state \<longleftrightarrow>
     username state = Some user \<and> password state = Some pass"
  by (auto simp: validate_credentials_def split: option.splits)

lemma validate_socks4_user_id_iff:
  "validate_socks4_user_id user state \<longleftrightarrow> username state = Some user"
  by (auto simp: validate_socks4_user_id_def split: option.splits)

lemma io_Done [simp]: "io m s = (Done x, t) \<longleftrightarrow> m s = (Done x, t)"
  by (simp add: io_def)

lemma from_utf8_or_fail_Done [simp]:
  "from_utf8_or_fail bs s = (Done x, t) \<longleftrightarrow> from_utf8 bs = Some x \<and> t = s"
  by (auto simp: from_utf8_or_fail_def split: option.splits)

lemma unat_length: "unat (n :: u8) = length xs \<Longrightarrow> of_nat (length xs) = n"
  by (drule sym) simp

text \<open>
  C17: the check of a \<open>Proxy-Authorization\<close> header accepts exactly the headers
  \<open>Basic \<close>\<open>enc\<close> whose decoding is the UTF-8 text of the configured user name, a colon and
  the configured password; the user name ends at the first colon, so a configured name with a
  colon in it is never accepted.
\<close>

theorem basic_auth_exact:
  "validate_auth_header b64 header state = Inr () \<longleftrightarrow>
     (\<exists>enc bs user pass. header = ''Basic '' @ enc \<and> b64 enc = Some bs \<and>
        from_utf8 bs = Some (user @ CHR '':'' # pass) \<and> CHR '':'' \<notin> set user \<and>
        username state = Some user \<and> password state = Some pass)"
proof
  assume "validate_auth_header b64 header state = Inr ()"
  then obtain bs c user pass where h: "starts_with header ''Basic ''"
    and b: "b64 (drop 6 header) = Some bs" "from_utf8 bs = Some c"
    and s: "splitn2 (CHR '':'') c = (user, Some pass)" and v: "validate_credentials user pass state"
    by (auto simp: validate_auth_header_def split: if_splits option.splits prod.splits)
  from h obtain enc where "header = ''Basic '' @ enc" by (auto simp: starts_with_iff)
  with b v splitn2_Some [OF s] show "\<exists>enc bs user pass. header = ''Basic '' @ enc \<and>
      b64 enc = Some bs \<and> from_utf8 bs = Some (user @ CHR '':'' # pass) \<and> CHR '':'' \<notin> set user \<and>
      username state = Some user \<and> password state = Some pass"
    by (auto simp: validate_credentials_iff)
next
  assume "\<exists>enc bs user pass. header = ''Basic '' @ enc \<and> b64 enc = Some bs \<and>
      from_utf8 bs = Some (user @ CHR '':'' # pass) \<and> CHR '':'' \<notin> set user \<and>
      username state = Some user \<and> password state = Some pass"
  then obtain enc bs user pass where h: "header = ''Basic '' @ enc" "b64 enc = Some bs"
    "from_utf8 bs = Some (user @ CHR '':'' # pass)" "CHR '':'' \<notin> set user"
    "username state = Some user" "password state = Some pass" by blast
  have "starts_with header ''Basic ''" unfolding h(1) by (rule starts_with_append)
  moreover have "drop 6 header = enc" unfolding h(1) by simp
  ultimately show "validate_auth_header b64 header state = Inr ()"
    using h(2-) splitn2_append [OF h(4), of pass]
    by (simp add: validate_auth_header_def validate_credentials_iff)
qed

lemma validate_auth_header_bytes:
  assumes "validate_auth_header b64 header state = Inr ()"
  obtains enc user pass where "header = ''Basic '' @ enc" "CHR '':'' \<notin> set user"
    "b64 enc = Some (as_bytes (user @ '':'' @ pass))"
    "username state = Some user" "password state = Some pass"
proof -
  from assms obtain bs c user pass where h: "starts_with header ''Basic ''"
    and b: "b64 (drop 6 header) = Some bs" "from_utf8 bs = Some c"
    and s: "splitn2 (CHR '':'') c = (user, Some pass)" and v: "validate_credentials user pass state"
    by (auto simp: validate_auth_header_def split: if_splits option.splits prod.splits)
  from h obtain enc where "header = ''Basic '' @ enc" by (auto simp: starts_with_iff)
  with b v splitn2_Some [OF s] from_utf8_Some [OF b(2)] that show ?thesis
    by (auto simp: validate_credentials_iff)
qed

lemma socks5_sound:
  assumes "authenticate_socks5 state s = (Done True, t)"
  shows "shows_credentials b64 SOCKS5 state (inbound (rx s))"
proof -
  from assms obtain hs u1 ms u2 u3 ab u4 ub u5 pl u6 pb u7 user pass where
    1: "read_exact 2 s = (Done hs, u1)" "hs ! 0 = 5"
    and 2: "read_exact (unat (hs ! 1)) u1 = (Done ms, u2)" "2 \<in> set ms"
    and 3: "write_all [5, 2] u2 = (Done (), u3)"
    and 4: "read_exact 2 u3 = (Done ab, u4)" "ab ! 0 = 1"
    and 5: "read_exact (unat (ab ! 1)) u4 = (Done ub, u5)" "from_utf8 ub = Some user"
    and 6: "read_exact 1 u5 = (Done pl, u6)"
    and 7: "read_exact (unat (pl ! 0)) u6 = (Done pb, u7)" "from_utf8 pb = Some pass"
    and v: "validate_credentials user pass state"
    by (auto simp: authenticate_socks5_def Let_def await_Done_iff split: if_splits)
  note r = read_exact_Done [OF 1(1)] read_exact_Done [OF 2(1)] read_exact_Done [OF 4(1)]
    read_exact_Done [OF 5(1)] read_exact_Done [OF 6] read_exact_Done [OF 7(1)]
  from r(1) 1(2) have hs: "hs = [5, hs ! 1]" by (auto simp: length_2_iff)
  from r(3) 4(2) have ab: "ab = [1, ab ! 1]" by (auto simp: length_2_iff)
  from r(5) have pl: "pl = [pl ! 0]" by (auto simp: length_Suc_conv)
  have ub: "ub = as_bytes user" and pb: "pb = as_bytes pass"
    using from_utf8_Some [OF 5(2)] from_utf8_Some [OF 7(2)] by simp_all
  have len: "of_nat (length ms) = hs ! 1" "of_nat (length user) = ab ! 1" "of_nat (length pass) = pl ! 0"
    using r ub pb by (auto intro!: unat_length)
  have "inbound (rx s) = hs @ ms @ ab @ ub @ pl @ pb @ inbound (rx u7)"
    using r write_all_Done [OF 3] by simp
  then have "inbound (rx s) = [5, of_nat (length ms)] @ ms @ [1, of_nat (length user)] @ as_bytes user @
      [of_nat (length pass)] @ as_bytes pass @ inbound (rx u7)"
    by (simp only: len hs [symmetric] ab [symmetric] pl [symmetric] ub pb)
  with 2(2) v show ?thesis by (auto simp: validate_credentials_iff)
qed

lemma socks4_sound:
  assumes "authenticate_socks4 state s = (Done True, t)"
  shows "shows_credentials b64 SOCKS4 state (inbound (rx s))"
proof -
  from assms obtain rq u1 uid u2 where 1: "read_exact 8 s = (Done rq, u1)" "rq ! 0 = 4"
    and 2: "read_nul u1 = (Done uid, u2)"
    and v: "validate_socks4_user_id (case from_utf8 uid of Some s \<Rightarrow> s | None \<Rightarrow> []) state"
    by (auto simp: authenticate_socks4_def Let_def await_Done_iff split: if_splits)
  from read_exact_Done [OF 1(1)] read_nul_Done [OF 2] have
    "length rq = 8" "0 \<notin> set uid" "inbound (rx s) = rq @ uid @ 0 # inbound (rx u2)" by simp_all
  moreover from v have "\<exists>user. username state = Some user \<and>
      (from_utf8 uid = Some user \<or> from_utf8 uid = None \<and> user = [])"
    by (auto simp: validate_socks4_user_id_iff split: option.splits)
  ultimately show ?thesis using 1(2) by (simp only: shows_credentials.simps) blast
qed

lemma peek_or_read_Done:
  "peek_or_read n s = (Done bs, t) \<Longrightarrow> \<exists>rest. inbound (rx s) = bs @ rest"
  by (auto simp: peek_or_read_def peer_addr_def await_Done_iff
      split: stream_kind.splits option.splits dest!: peek_Done read_Done)

lemma http_sound:
  assumes "authenticate_http_or_https b64 state s = (Done True, t)" and "p = HTTP \<or> p = HTTPS"
  shows "shows_credentials b64 p state (inbound (rx s))"
proof -
  from assms(1) obtain bs u h where 1: "peek_or_read 4096 s = (Done bs, u)"
    and h: "extract_proxy_auth_header (from_utf8_lossy bs) = Some h"
    and v: "validate_auth_header b64 h state = Inr ()"
    by (auto simp: authenticate_http_or_https_def Let_def await_Done_iff
        split: if_splits option.splits sum.splits)
  from peek_or_read_Done [OF 1] obtain rest where "inbound (rx s) = bs @ rest" by blast
  moreover from v obtain enc user pass where "h = ''Basic '' @ enc" "CHR '':'' \<notin> set user"
    "b64 enc = Some (as_bytes (user @ '':'' @ pass))" "username state = Some user"
    "password state = Some pass" by (rule validate_auth_header_bytes)
  ultimately have "shows_credentials b64 HTTP state (inbound (rx s))"
    using h by (simp only: shows_credentials.simps) blast
  with assms(2) show ?thesis by (elim disjE) (simp_all only: shows_credentials.simps)
qed

lemma accepted_shows_credentials:
  assumes "authenticate_by_protocol b64 p state s = (Done True, t)"
  shows "shows_credentials b64 p state (inbound (rx s))"
  using assms socks4_sound socks5_sound http_sound
  by (cases p) (simp_all add: authenticate_by_protocol_def del: shows_credentials.simps)

text \<open>
  C2: authentication is sound. Whatever the segmentation and the deadlines, a client that is
  authenticated has sent the configured credentials in the form of its protocol; a client of
  the raw TCP protocol never is.
\<close>

theorem authentication_sound:
  assumes "authenticate_by_protocol b64 p state s = (Done True, t)"
  shows "shows_credentials b64 p state (inbound (rx s))"
  using assms by (rule accepted_shows_credentials)

subsection \<open>The exchanges\<close>

lemma exchange_read:
  assumes "n = length i" and "transcript (f i) j out r"
  shows "transcript (await (io (read_exact n)) f) (i @ j) out r"
  unfolding io_def
  by (rule transcript_step [where f = f, OF transcript_map_err(1) [OF transcript_read [OF assms(1)]] assms(2)])
     simp_all

lemma exchange_write:
  assumes "transcript (f ()) j out r"
  shows "transcript (await (io (write_all bs)) f) j (bs @ out) r"
  unfolding io_def
  by (rule transcript_step [where f = f, OF transcript_map_err(1) [OF transcript_write] assms]) simp_all

lemma exchange_nul:
  assumes "0 \<notin> set bs" and "transcript (f bs) j out r"
  shows "transcript (await (io read_nul) f) (bs @ [0] @ j) out r"
  unfolding io_def
  by (rule transcript_step [where f = f, OF transcript_map_err(1) [OF transcript_read_nul [OF assms(1)]] assms(2)])
     simp_all

lemma exchange_utf8:
  assumes "from_utf8 bs = Some x" and "transcript (f x) j out r"
  shows "transcript (await (from_utf8_or_fail bs) f) j out r"
  using assms by (simp add: from_utf8_or_fail_def)

text \<open>The answer to the credentials of a SOCKS5 client.\<close>

definition socks5_verdict :: "bool \<Rightarrow> (auth_error, bool) outcome" where
  "socks5_verdict ok = (if ok then Done True else Failed (AuthMsg ''SOCKS5 authentication failed''))"

lemma socks5_verdict_sent:
  "transcript
     (if ok then await (io (write_all [1, 0])) (\<lambda>_. ret True)
      else await (io (write_all [1, 1])) (\<lambda>_. fail (AuthMsg ''SOCKS5 authentication failed'')))
     [] (if ok then [1, 0] else [1, 1]) (socks5_verdict ok)"
proof -
  have "transcript (await (io (write_all [1, 0])) (\<lambda>_. ret True)) [] ([1, 0] @ []) (Done True)"
    by (rule exchange_write) (rule transcript_ret)
  moreover have "transcript (await (io (write_all [1, 1]))
      (\<lambda>_. fail (AuthMsg ''SOCKS5 authentication failed''))) [] ([1, 1] @ [])
      (Failed (AuthMsg ''SOCKS5 authentication failed'') :: (auth_error, bool) outcome)"
    by (rule exchange_write) (rule transcript_fail)
  ultimately show ?thesis by (simp add: socks5_verdict_def)
qed

text \<open>
  What a client gets that sends these two byte strings as user name and password: no further byte
  and an error if one of them is not UTF-8, and otherwise the verdict.
\<close>

definition socks5_reply ::
  "app_state \<Rightarrow> u8 list \<Rightarrow> u8 list \<Rightarrow> u8 list \<times> (auth_error, bool) outcome" where
  "socks5_reply state ubytes pbytes =
     (case (from_utf8 ubytes, from_utf8 pbytes) of
        (Some user, Some pass) \<Rightarrow>
          if validate_credentials user pass state then ([1, 0], Done True)
          else ([1, 1], Failed (AuthMsg ''SOCKS5 authentication failed''))
      | _ \<Rightarrow> ([], Failed AuthUtf8))"

lemma not_utf8_fails:
  "from_utf8 bs = None \<Longrightarrow> transcript (await (from_utf8_or_fail bs) f) [] [] (Failed AuthUtf8)"
  by (simp add: from_utf8_or_fail_def transcript_fail)

lemma socks5_reply_sent:
  "transcript
     (await (from_utf8_or_fail ubytes) (\<lambda>user.
      await (from_utf8_or_fail pbytes) (\<lambda>pass.
      if validate_credentials user pass state
      then await (io (write_all [1, 0])) (\<lambda>_. ret True)
      else await (io (write_all [1, 1])) (\<lambda>_. fail (AuthMsg ''SOCKS5 authentication failed'')))))
     [] (fst (socks5_reply state ubytes pbytes)) (snd (socks5_reply state ubytes pbytes))"
proof (cases "from_utf8 ubytes")
  case None
  then show ?thesis by (simp add: socks5_reply_def not_utf8_fails)
next
  case u: (Some user)
  show ?thesis
  proof (cases "from_utf8 pbytes")
    case None
    with u show ?thesis
      by (simp add: socks5_reply_def from_utf8_or_fail_def transcript_fail)
  next
    case (Some pass)
    have "fst (socks5_reply state ubytes pbytes) =
          (if validate_credentials user pass state then [1, 0] else [1, 1])"
      and "snd (socks5_reply state ubytes pbytes) =
          socks5_verdict (validate_credentials user pass state)"
      using u Some by (simp_all add: socks5_reply_def socks5_verdict_def)
    then show ?thesis
      by (simp only:) (rule exchange_utf8, rule u, rule exchange_utf8, rule Some, rule socks5_verdict_sent)
  qed
qed

lemma socks5_exchange_run:
  assumes "require_creds state" and "2 \<in> set methods" and "length methods < 256"
    and "length ubytes < 256" and "length pbytes < 256"
  shows "transcript (authenticate_socks5 state)
    ([5, of_nat (length methods)] @ methods @ [1, of_nat (length ubytes)] @ ubytes @
      [of_nat (length pbytes)] @ pbytes)
    ([5, 2] @ fst (socks5_reply state ubytes pbytes)) (snd (socks5_reply state ubytes pbytes))"
proof -
  have "transcript (authenticate_socks5 state)
    ([5, of_nat (length methods)] @ methods @ [1, of_nat (length ubytes)] @ ubytes @
      [of_nat (length pbytes)] @ pbytes @ [])
    ([5, 2] @ fst (socks5_reply state ubytes pbytes)) (snd (socks5_reply state ubytes pbytes))"
    unfolding authenticate_socks5_def Let_def
    by (rule exchange_read, simp, rule exchange_else, simp,
        rule exchange_read, simp add: unat_of_nat_u8 assms, rule exchange_then, simp add: assms,
        rule exchange_write, rule exchange_read, simp, rule exchange_else, simp,
        rule exchange_read, simp add: unat_of_nat_u8 assms, rule exchange_read, simp,
        rule exchange_read, simp add: unat_of_nat_u8 assms, rule socks5_reply_sent)
  then show ?thesis by simp
qed

lemma socks5_auth_run:
  assumes "require_creds state" and "2 \<in> set methods" and "length methods < 256"
    and "length user < 256" and "length pass < 256"
    and "from_utf8 (as_bytes user) = Some user" and "from_utf8 (as_bytes pass) = Some pass"
  shows "transcript (authenticate_socks5 state)
    ([5, of_nat (length methods)] @ methods @ [1, of_nat (length user)] @ as_bytes user @
      [of_nat (length pass)] @ as_bytes pass)
    ([5, 2] @ (if validate_credentials user pass state then [1, 0] else [1, 1]))
    (socks5_verdict (validate_credentials user pass state))"
  using socks5_exchange_run [OF assms(1-3), of "as_bytes user" "as_bytes pass"] assms(4-7)
  by (simp add: socks5_reply_def socks5_verdict_def split: if_splits)

text \<open>
  C16: the SOCKS5 sub-negotiation of RFC 1929, for every two byte strings of up to 255 bytes that
  a client sends as user name and password after offering this method, among any others. The
  proxy answers \<open>05 02\<close> to the offer. If both strings are UTF-8 it answers \<open>01 00\<close> and the
  client is authenticated, if they are the configured credentials, and \<open>01 01\<close> and an error
  otherwise. If one of them is not UTF-8 it fails without a verdict, and the client gets no
  further byte. It consumes exactly these two messages, however they are segmented, and whatever
  follows them.
\<close>

theorem socks5_auth_exchange:
  assumes "require_creds state" and "2 \<in> set methods" and "length methods < 256"
    and "length ubytes < 256" and "length pbytes < 256"
  shows "transcript (authenticate_socks5 state)
    ([5, of_nat (length methods)] @ methods @ [1, of_nat (length ubytes)] @ ubytes @
      [of_nat (length pbytes)] @ pbytes)
    ([5, 2] @ fst (socks5_reply state ubytes pbytes)) (snd (socks5_reply state ubytes pbytes))"
  using assms by (rule socks5_exchange_run)

theorem socks5_auth_exchange_witness:
  "transcript (authenticate_socks5 (app_state_new True (Some ''u'') (Some ''pw'') None))
     [5, 2, 0, 2, 1, 1, 117, 2, 112, 119] [5, 2, 1, 0] (Done True) \<and>
   transcript (authenticate_socks5 (app_state_new True (Some ''u'') (Some ''pw'') None))
     [5, 1, 2, 1, 1, 0xFF, 2, 112, 119] [5, 2] (Failed AuthUtf8)"
proof -
  let ?state = "app_state_new True (Some ''u'') (Some ''pw'') None"
  have "validate_credentials ''u'' ''pw'' ?state"
    by (simp add: validate_credentials_iff app_state_new_def)
  moreover have "from_utf8 [117] = Some ''u''" "from_utf8 [112, 119] = Some ''pw''"
    "from_utf8 [0xFF] = None" by code_simp+
  ultimately have r: "socks5_reply ?state [117] [112, 119] = ([1, 0], Done True)"
    "socks5_reply ?state [0xFF] [112, 119] = ([], Failed AuthUtf8)"
    by (simp_all add: socks5_reply_def)
  show ?thesis
    using socks5_auth_exchange [of ?state "[0, 2]" "[117]" "[112, 119]"]
      socks5_auth_exchange [of ?state "[2]" "[0xFF]" "[112, 119]"]
    by (simp add: app_state_new_def r [unfolded app_state_new_def])
qed

text \<open>
  a SOCKS5 client that does not offer user name and password is turned away with
  \<open>05 FF\<close> when credentials are required.
\<close>

theorem socks5_auth_refused:
  assumes "require_creds state" and "2 \<notin> set methods" and "length methods < 256"
  shows "transcript (authenticate_socks5 state) ([5, of_nat (length methods)] @ methods) [5, 0xFF]
    (Failed (AuthMsg ''SOCKS5 authentication required but not supported by client''))"
proof -
  have "transcript (authenticate_socks5 state) ([5, of_nat (length methods)] @ methods @ [])
    ([5, 0xFF] @ []) (Failed (AuthMsg ''SOCKS5 authentication required but not supported by client''))"
    unfolding authenticate_socks5_def Let_def
    by (rule exchange_read, simp, rule exchange_else, simp,
        rule exchange_read, simp add: unat_of_nat_u8 assms, rule exchange_else, simp add: assms,
        rule exchange_then, rule assms, rule exchange_write, rule transcript_fail)
  then show ?thesis by simp
qed

theorem socks5_auth_refused_witness:
  "transcript (authenticate_socks5 (app_state_new True (Some ''u'') (Some ''pw'') None))
     [5, 1, 0] [5, 0xFF]
     (Failed (AuthMsg ''SOCKS5 authentication required but not supported by client''))"
  using socks5_auth_refused [of "app_state_new True (Some ''u'') (Some ''pw'') None" "[0]"]
  by (simp add: app_state_new_def)

lemma socks4_auth_run:
  assumes "require_creds state" and "length rest = 7" and "0 \<notin> set uid"
    and "from_utf8 uid = Some user"
  shows "transcript (authenticate_socks4 state) (4 # rest @ uid @ [0])
    (if username state = Some user then [] else [0, 0x5B, 0, 0, 0, 0, 0, 0])
    (if username state = Some user then Done True
     else Failed (AuthMsg ''SOCKS4 authentication failed''))"
proof -
  have v: "transcript (if validate_socks4_user_id user state then ret True
      else await (io (write_all ([0, 0x5B] @ [0, 0, 0, 0] @ [0, 0])))
        (\<lambda>_. fail (AuthMsg ''SOCKS4 authentication failed''))) []
    (if username state = Some user then [] else ([0, 0x5B] @ [0, 0, 0, 0] @ [0, 0]) @ [])
    (if username state = Some user then Done True
     else Failed (AuthMsg ''SOCKS4 authentication failed''))"
    by (cases "username state = Some user", simp_all only: validate_socks4_user_id_iff if_True if_False simp_thms)
       (rule transcript_ret, rule exchange_write, rule transcript_fail)
  have "transcript (authenticate_socks4 state) ((4 # rest) @ uid @ [0] @ [])
    (if username state = Some user then [] else ([0, 0x5B] @ [0, 0, 0, 0] @ [0, 0]) @ [])
    (if username state = Some user then Done True
     else Failed (AuthMsg ''SOCKS4 authentication failed''))"
    unfolding authenticate_socks4_def Let_def
    by (rule exchange_read, simp add: assms, rule exchange_else, simp,
        rule exchange_then, rule assms, rule exchange_nul, rule assms,
        simp only: assms option.case, rule v)
  then show ?thesis by (simp split: if_splits)
qed

text \<open>
  SOCKS4 authentication consumes the whole request, up to and including the zero byte after
  the user id, and succeeds without an answer exactly if the user id is the configured user
  name; otherwise it answers the 8 bytes of a rejection.
\<close>

theorem socks4_auth_exchange:
  assumes "require_creds state" and "length rest = 7" and "0 \<notin> set uid"
    and "from_utf8 uid = Some user"
  shows "transcript (authenticate_socks4 state) (4 # rest @ uid @ [0])
    (if username state = Some user then [] else [0, 0x5B, 0, 0, 0, 0, 0, 0])
    (if username state = Some user then Done True
     else Failed (AuthMsg ''SOCKS4 authentication failed''))"
  using assms by (rule socks4_auth_run)

theorem socks4_auth_exchange_witness:
  "transcript (authenticate_socks4 (app_state_new True (Some ''u'') None None))
     [4, 1, 0, 80, 127, 0, 0, 1, 117, 0] [] (Done True)"
proof -
  have "from_utf8 [117] = Some ''u''" by code_simp
  then show ?thesis
    using socks4_auth_exchange [of "app_state_new True (Some ''u'') None None"
        "[1, 0, 80, 127, 0, 0, 1]" "[117]" "''u''"]
    by (simp add: app_state_new_def)
qed

subsection \<open>Segmentation\<close>

lemma seg_io [seg_intros]: "segmentation_free m \<Longrightarrow> segmentation_free (io m)"
  unfolding io_def by (rule seg_map_err)

lemma seg_from_utf8 [seg_intros]: "segmentation_free (from_utf8_or_fail bs)"
  unfolding from_utf8_or_fail_def by (intro seg_intros)

text \<open>
  SOCKS authentication does not depend on how the messages of the client are cut into
  segments or when these arrive: the answers, the verdict and what is left to read are the same.
\<close>

theorem socks_auth_segmentation_free:
  "segmentation_free (authenticate_socks4 state) \<and> segmentation_free (authenticate_socks5 state)"
  unfolding authenticate_socks4_def authenticate_socks5_def Let_def
  by (intro conjI seg_intros)

subsection \<open>HTTP\<close>

text \<open>The head of a request: lines that each end in a carriage return and a line feed.\<close>

definition crlf_lines :: "string list \<Rightarrow> string" where
  "crlf_lines ls = concat (map (\<lambda>l. l @ [CHR 0x0D, CHR 0x0A]) ls)"

lemma str_lines_crlf:
  "list_all (\<lambda>l. CHR 0x0A \<notin> set l) ls \<Longrightarrow> str_lines (crlf_lines ls @ t) = ls @ str_lines t"
  by (induction ls) (simp_all add: crlf_lines_def str_lines_line)

lemma find_auth_line_skip:
  "list_all (\<lambda>l. \<not> starts_with (to_lowercase l) ''proxy-authorization:'') ls \<Longrightarrow>
   find_auth_line (ls @ ms) = find_auth_line ms"
  by (induction ls) simp_all

lemma header_name_lower:
  "starts_with (to_lowercase (''Proxy-Authorization:'' @ t)) ''proxy-authorization:''"
  "starts_with (to_lowercase (''proxy-authorization:'' @ t)) ''proxy-authorization:''"
proof -
  have a: "is_ascii ''Proxy-Authorization:''" "is_ascii ''proxy-authorization:''"
    "map lower_char ''Proxy-Authorization:'' = ''proxy-authorization:''"
    "map lower_char ''proxy-authorization:'' = ''proxy-authorization:''"
    by code_simp+
  from a show "starts_with (to_lowercase (''Proxy-Authorization:'' @ t)) ''proxy-authorization:''"
    by (simp only: to_lowercase_ascii starts_with_append)
  from a show "starts_with (to_lowercase (''proxy-authorization:'' @ t)) ''proxy-authorization:''"
    by (simp only: to_lowercase_ascii starts_with_append)
qed

text \<open>A header value that trimming leaves alone.\<close>

definition plain_value :: "string \<Rightarrow> bool" where
  "plain_value v \<longleftrightarrow> is_ascii v \<and> v \<noteq> [] \<and> \<not> ascii_ws (hd v) \<and> \<not> ascii_ws (last v) \<and>
     CHR 0x0A \<notin> set v"

lemma extract_after:
  assumes "list_all (\<lambda>l. CHR 0x0A \<notin> set l \<and>
      \<not> starts_with (to_lowercase l) ''proxy-authorization:'') before"
    and "CHR 0x0A \<notin> set line" and "starts_with (to_lowercase line) ''proxy-authorization:''"
  shows "extract_proxy_auth_header (crlf_lines (before @ line # after) @ body)
    = Some (trim (trim_start_matches ''Proxy-Authorization:'' line))"
proof -
  have "crlf_lines (before @ line # after) @ body
      = crlf_lines (before @ [line]) @ crlf_lines after @ body"
    by (simp add: crlf_lines_def)
  moreover have "list_all (\<lambda>l. CHR 0x0A \<notin> set l) (before @ [line])"
    using assms by (simp add: list_all_iff)
  moreover have "find_auth_line (before @ line # ms) = find_auth_line (line # ms)" for ms
    using assms(1) by (intro find_auth_line_skip) (simp add: list_all_iff)
  ultimately show ?thesis using assms(3)
    by (simp add: extract_proxy_auth_header_def str_lines_crlf del: to_lowercase_ascii)
qed

lemma header_extracted:
  assumes "list_all (\<lambda>l. CHR 0x0A \<notin> set l \<and>
      \<not> starts_with (to_lowercase l) ''proxy-authorization:'') before"
    and "plain_value v"
  shows "extract_proxy_auth_header
      (crlf_lines (before @ (''Proxy-Authorization: '' @ v) # after) @ body) = Some v"
proof -
  let ?line = "''Proxy-Authorization:'' @ (CHR '' '' # v)"
  have n: "CHR 0x0A \<notin> set ?line" using assms(2) by (simp add: plain_value_def)
  have "trim_start_matches ''Proxy-Authorization:'' ?line = CHR '' '' # v"
    by (rule trim_start_matches_once) (simp_all add: starts_with_def)
  moreover have "trim (CHR '' '' # v) = v"
    using assms(2) by (intro trim_ascii) (simp_all add: plain_value_def)
  moreover have "''Proxy-Authorization: '' @ v = ?line" by simp
  ultimately show ?thesis
    using extract_after [OF assms(1) n header_name_lower(1)] by (simp only:)
qed

text \<open>
  the header that is checked is the first one named \<open>Proxy-Authorization\<close>: of a request
  with that header, the value without the blank before it, whatever lines and whatever data
  follow.
\<close>

theorem proxy_authorization_extracted:
  assumes "list_all (\<lambda>l. CHR 0x0A \<notin> set l \<and>
      \<not> starts_with (to_lowercase l) ''proxy-authorization:'') before"
    and "plain_value v"
  shows "extract_proxy_auth_header
      (crlf_lines (before @ (''Proxy-Authorization: '' @ v) # after) @ body) = Some v"
  using assms by (rule header_extracted)

theorem proxy_authorization_extracted_witness:
  "extract_proxy_auth_header
     (crlf_lines [''CONNECT a:1 HTTP/1.1'', ''Proxy-Authorization: Basic dTpw'', ''Host: a''] @ [])
   = Some ''Basic dTpw''"
proof -
  have "list_all (\<lambda>l. CHR 0x0A \<notin> set l \<and>
      \<not> starts_with (to_lowercase l) ''proxy-authorization:'') [''CONNECT a:1 HTTP/1.1'']"
    by code_simp
  moreover have "plain_value ''Basic dTpw''" by code_simp
  ultimately show ?thesis
    using proxy_authorization_extracted [of "[''CONNECT a:1 HTTP/1.1'']" "''Basic dTpw''"
        "[''Host: a'']" "[]"] by simp
qed

text \<open>
  header names are matched without regard to case, but only the spelling
  \<open>Proxy-Authorization\<close> is taken off the line: the same header in lower case, which HTTP/1.1
  declares equivalent, leaves a value that starts with its own name, and so no credentials are
  ever accepted in it.
\<close>

theorem lower_case_header_rejected:
  assumes "list_all (\<lambda>l. CHR 0x0A \<notin> set l \<and>
      \<not> starts_with (to_lowercase l) ''proxy-authorization:'') before"
    and "plain_value v"
  shows "\<exists>h. extract_proxy_auth_header
        (crlf_lines (before @ (''proxy-authorization: '' @ v) # after) @ body) = Some h \<and>
      validate_auth_header b64 h state = Inl ''Unsupported authentication method''"
proof -
  let ?line = "''proxy-authorization:'' @ (CHR '' '' # v)"
  have n: "CHR 0x0A \<notin> set ?line" using assms(2) by (simp add: plain_value_def)
  have a: "is_ascii ?line" "hd ?line = CHR ''p''" "last ?line = last v"
    using assms(2) by (simp_all add: plain_value_def)
  have "\<not> ascii_ws (CHR ''p'')" by code_simp
  then have t: "trim ?line = ?line"
    using assms(2) a by (intro trim_ascii(1)) (simp_all only: plain_value_def, simp_all)
  have "trim_start_matches ''Proxy-Authorization:'' ?line = ?line"
    by (rule trim_start_matches_id) (simp add: starts_with_def)
  with t extract_after [OF assms(1) n header_name_lower(2), of after body]
  have "extract_proxy_auth_header (crlf_lines (before @ ?line # after) @ body) = Some ?line" by simp
  moreover have "validate_auth_header b64 ?line state = Inl ''Unsupported authentication method''"
    by (simp add: validate_auth_header_def starts_with_def)
  moreover have "''proxy-authorization: '' @ v = ?line" by simp
  ultimately show ?thesis by (simp only:) blast
qed

definition sample_b64 :: "string \<Rightarrow> u8 list option" where
  "sample_b64 s = (if s = ''dTpw'' then Some (as_bytes ''u:p'') else None)"

definition sample_state :: app_state where
  "sample_state = app_state_new True (Some ''u'') (Some ''p'') None"

theorem lower_case_header_rejected_witness:
  "\<exists>h. extract_proxy_auth_header
        (crlf_lines [''GET / HTTP/1.1'', ''proxy-authorization: Basic dTpw''] @ []) = Some h \<and>
      validate_auth_header sample_b64 h sample_state = Inl ''Unsupported authentication method''"
proof -
  have "list_all (\<lambda>l. CHR 0x0A \<notin> set l \<and>
      \<not> starts_with (to_lowercase l) ''proxy-authorization:'') [''GET / HTTP/1.1'']"
    by code_simp
  moreover have "plain_value ''Basic dTpw''" by code_simp
  ultimately show ?thesis
    using lower_case_header_rejected [of "[''GET / HTTP/1.1'']" "''Basic dTpw''" "[]" "[]"
        sample_b64 sample_state] by simp
qed

text \<open>
  an HTTP client whose whole request, of at most 4096 bytes, arrives at once is
  authenticated if its \<open>Proxy-Authorization\<close> header holds the configured credentials; on a plain
  connection nothing is consumed and nothing is answered, so the request is still there for the
  handler.
\<close>

theorem http_auth_accepts:
  assumes "kind s = Plain" and "deadline s = None" and "is_ascii request" and "length request \<le> 4096"
    and "request = crlf_lines (before @ (''Proxy-Authorization: '' @ v) # after) @ body"
    and "list_all (\<lambda>l. CHR 0x0A \<notin> set l \<and>
      \<not> starts_with (to_lowercase l) ''proxy-authorization:'') before"
    and "plain_value v" and "validate_auth_header b64 v state = Inr ()"
    and "rx s = arrives t (as_bytes request)"
  shows "\<exists>u. authenticate_http_or_https b64 state s = (Done True, u) \<and> idle_eq s u"
proof -
  have ne: "as_bytes request \<noteq> []"
    unfolding assms(5) by (simp add: crlf_lines_def)
  from peek_arrived [OF assms(9) ne _ assms(2), of 4096] assms(4) obtain u where
    u: "peek 4096 s = (Done (as_bytes request), u)" "idle_eq s u" by auto
  have x: "extract_proxy_auth_header (from_utf8_lossy (as_bytes request)) = Some v"
    using header_extracted [OF assms(6,7), of after body]
    by (simp only: from_utf8_lossy_ascii [OF assms(3)] assms(5) [symmetric])
  have "io (peek_or_read 4096) s = (Done (as_bytes request), u)"
    using u(1) assms(1) by (simp add: peek_or_read_def)
  then have "authenticate_http_or_https b64 state s = (Done True, u)"
    using ne x assms(8) by (simp add: authenticate_http_or_https_def await_def io_def map_err_def Let_def ret_def)
  with u(2) show ?thesis by blast
qed

definition sample_request :: string where
  "sample_request = crlf_lines [''CONNECT a:1 HTTP/1.1'', ''Proxy-Authorization: Basic dTpw'', ''Host: a'', '''']"

lemma sample_auth: "validate_auth_header sample_b64 ''Basic dTpw'' sample_state = Inr ()"
  by code_simp

theorem http_auth_accepts_witness:
  "\<exists>u. authenticate_http_or_https sample_b64 sample_state
       (sample_client Plain (arrives 3 (as_bytes sample_request))) = (Done True, u) \<and>
     idle_eq (sample_client Plain (arrives 3 (as_bytes sample_request))) u"
proof -
  have "list_all (\<lambda>l. CHR 0x0A \<notin> set l \<and>
      \<not> starts_with (to_lowercase l) ''proxy-authorization:'') [''CONNECT a:1 HTTP/1.1'']"
    "plain_value ''Basic dTpw''" "is_ascii sample_request" "length sample_request \<le> 4096"
    by code_simp+
  moreover have "sample_request = crlf_lines ([''CONNECT a:1 HTTP/1.1''] @
      (''Proxy-Authorization: '' @ ''Basic dTpw'') # [''Host: a'', '''']) @ []"
    by (simp add: sample_request_def)
  ultimately show ?thesis
    by (intro http_auth_accepts [where v = "''Basic dTpw''" and request = sample_request and t = 3
          and before = "[''CONNECT a:1 HTTP/1.1'']" and after = "[''Host: a'', '''']" and body = "[]"]
        sample_auth) simp_all
qed

text \<open>
  HTTP authentication looks at the first segment only. If the header comes in a later
  segment than the request line, the client is refused with a 407, whatever credentials the
  later segment holds; sent at once, the same bytes may be accepted, so the verdict depends on
  the segmentation.
\<close>

theorem http_auth_first_segment_only:
  assumes "kind s = Plain" and "deadline s = None" and "lags s = []" and "clock s \<le> t" and "arrives_after t later"
    and "tx_limit s = None" and "ls \<noteq> []"
    and "list_all (\<lambda>l. CHR 0x0A \<notin> set l \<and>
      \<not> starts_with (to_lowercase l) ''proxy-authorization:'') ls"
    and "is_ascii (crlf_lines ls)" and "length (crlf_lines ls) \<le> 4096"
    and "rx s = arrives t (as_bytes (crlf_lines ls)) @ later"
  shows "authenticate_http_or_https b64 state s =
    (Failed (AuthMsg ''HTTP authentication required''),
     s\<lparr>clock := t, tx := tx s @ http_auth_required\<rparr>)"
proof -
  have ne: "as_bytes (crlf_lines ls) \<noteq> []"
    using assms(7) by (cases ls) (simp_all add: crlf_lines_def)
  have "peek 4096 s = (Done (as_bytes (crlf_lines ls)), s\<lparr>clock := t\<rparr>)"
    using peek_segment [OF assms(11) ne due_None [OF assms(2)] assms(3-5), of 4096] assms(10) by simp
  then have p: "peek_or_read 4096 s = (Done (as_bytes (crlf_lines ls)), s\<lparr>clock := t\<rparr>)"
    using assms(1) by (simp add: peek_or_read_def)
  have "list_all (\<lambda>l. CHR 0x0A \<notin> set l) ls" using assms(8) by (simp add: list_all_iff)
  then have "str_lines (crlf_lines ls) = ls"
    using str_lines_crlf [of ls "[]"] by (simp add: str_lines_def Let_def)
  moreover have "find_auth_line ls = None"
    using assms(8) find_auth_line_skip [of ls "[]"] by (simp add: list_all_iff)
  ultimately have "extract_proxy_auth_header (from_utf8_lossy (as_bytes (crlf_lines ls))) = None"
    by (simp add: from_utf8_lossy_ascii [OF assms(9)] extract_proxy_auth_header_def)
  with p ne assms(6) show ?thesis
    by (simp add: authenticate_http_or_https_def await_def io_def map_err_def Let_def attempt_def
        send_http_auth_required_response_def write_all_def fail_def)
qed

theorem http_auth_first_segment_only_witness:
  "fst (authenticate_http_or_https sample_b64 sample_state
      (sample_client Plain (arrives 0 (as_bytes (take 22 sample_request)) @
         arrives 1 (as_bytes (drop 22 sample_request)))))
     = Failed (AuthMsg ''HTTP authentication required'')"
proof -
  have "list_all (\<lambda>l. CHR 0x0A \<notin> set l \<and>
      \<not> starts_with (to_lowercase l) ''proxy-authorization:'') [''CONNECT a:1 HTTP/1.1'']"
    "is_ascii (crlf_lines [''CONNECT a:1 HTTP/1.1''])"
    "length (crlf_lines [''CONNECT a:1 HTTP/1.1'']) \<le> 4096"
    "take 22 sample_request = crlf_lines [''CONNECT a:1 HTTP/1.1'']"
    by code_simp+
  then show ?thesis
    by (subst http_auth_first_segment_only [where t = 0
          and later = "arrives 1 (as_bytes (drop 22 sample_request))"
          and ls = "[''CONNECT a:1 HTTP/1.1'']"])
       (simp_all add: arrives_after_arrives)
qed

theorem authentication_sound_witness:
  "shows_credentials sample_b64 SOCKS5 sample_state [5, 1, 2, 1, 1, 117, 1, 112]"
proof -
  let ?s = "sample_client Plain (arrives 0 [5, 1, 2, 1, 1, 117, 1, 112])"
  have e: "as_bytes ''u'' = [117]" "as_bytes ''p'' = [112]"
    "from_utf8 (as_bytes ''u'') = Some ''u''" "from_utf8 (as_bytes ''p'') = Some ''p''" by code_simp+
  have v: "validate_credentials ''u'' ''p'' sample_state" "require_creds sample_state"
    by (simp_all add: validate_credentials_iff sample_state_def app_state_new_def)
  have "transcript (authenticate_by_protocol sample_b64 SOCKS5 sample_state)
      [5, 1, 2, 1, 1, 117, 1, 112] [5, 2, 1, 0] (Done True)"
    using socks5_auth_run [of sample_state "[2]" "''u''" "''p''"] e v
    by (simp add: authenticate_by_protocol_def socks5_verdict_def)
  moreover have "steady ?s" by simp
  moreover have "delivers ?s ([5, 1, 2, 1, 1, 117, 1, 112] @ []) []"
    by (simp add: delivers_def arrives_def)
  ultimately obtain u where
    "authenticate_by_protocol sample_b64 SOCKS5 sample_state ?s = (Done True, u)"
    by (rule transcriptD)
  from authentication_sound [OF this] show ?thesis
    by (simp add: arrives_def del: shows_credentials.simps)
qed

end
