(* ===== verification/Targets.thy ===== *)
theory Targets
  imports Protocol Frames
begin

section \<open>Targets of requests (src/proxy/listener.rs)\<close>

text \<open>
  How each protocol names the target of a request: the request line of HTTP, the server name in
  a TLS hello, the SOCKS4 and SOCKS5 requests, and the length-prefixed address of the raw
  protocol.
\<close>

subsection \<open>Addresses in text\<close>

definition invalid_data :: "string \<Rightarrow> io_error" where
  "invalid_data msg = IoError InvalidData msg"

definition parse_connect_target :: "string \<Rightarrow> io_error + proxy_target" where
  "parse_connect_target url =
     (let parts = split_on (CHR '':'') url in
      if length parts \<noteq> 2 then Inl (invalid_data ''Invalid CONNECT target'')
      else case parse_u16 (parts ! 1) of
             None \<Rightarrow> Inl (invalid_data ''Invalid port'')
           | Some p \<Rightarrow> Inr \<lparr>host = parts ! 0, port = p\<rparr>)"

definition parse_http_target :: "string \<Rightarrow> io_error + proxy_target" where
  "parse_http_target url =
     (if starts_with url ''http://'' then
        let url_without_scheme = drop 7 url;
            parts = split_on (CHR '':'') (hd (split_on (CHR ''/'') url_without_scheme));
            p = (if length parts > 1
                 then (case parse_u16 (parts ! 1) of Some p \<Rightarrow> p | None \<Rightarrow> 80)
                 else 80)
        in Inr \<lparr>host = parts ! 0, port = p\<rparr>
      else Inl (invalid_data ''Invalid HTTP URL''))"

definition from_result :: "'e + 'a \<Rightarrow> ('e, 'a) async" where
  "from_result r = (case r of Inl e \<Rightarrow> fail e | Inr x \<Rightarrow> ret x)"

subsection \<open>HTTP\<close>

text \<open>
  \<open>BufReader::read_line\<close>: blocks of up to 8192 bytes are read until one holds a line feed or
  the stream ends; the line is what precedes, with the line feed. The reader is dropped with
  whatever it has read beyond the line.
\<close>

function read_line_bytes :: "(io_error, u8 list) async" where
  "read_line_bytes s = await (read 8192) (\<lambda>bs s'.
     if bs = [] then ret [] s'
     else if 10 \<in> set bs then ret (takeWhile (\<lambda>b. b \<noteq> 10) bs @ [10]) s'
     else await read_line_bytes (\<lambda>cs. ret (bs @ cs)) s') s"
  by pat_completeness auto
termination
proof (relation "measure (\<lambda>s. length (rx s))")
  fix s bs s'
  assume "read 8192 s = (Done bs, s')" and "bs \<noteq> []"
  with read_consumes [of 8192 s bs s'] show "(s', s) \<in> measure (\<lambda>s. length (rx s))"
    by (cases bs) auto
qed simp

declare read_line_bytes.simps [simp del]

definition read_line :: "(io_error, string) async" where
  "read_line = await read_line_bytes (\<lambda>bs.
     case from_utf8 bs of
       Some l \<Rightarrow> ret l
     | None \<Rightarrow> fail (invalid_data ''stream did not contain valid UTF-8''))"

definition parse_http_target_from_stream :: "(io_error, proxy_target) async" where
  "parse_http_target_from_stream = await read_line (\<lambda>request_line.
     let parts = split_whitespace request_line in
     if length parts < 2 then fail (invalid_data ''Invalid HTTP request'')
     else let method = parts ! 0; url = parts ! 1 in
       if method = ''CONNECT'' then from_result (parse_connect_target url)
       else from_result (parse_http_target url))"

context read_frame begin

lemma keeps_read_line_bytes: "keeps read_line_bytes"
proof -
  have "frame s (snd (read_line_bytes s))" for s
  proof (induction s rule: read_line_bytes.induct)
    case (1 s)
    show ?case
      unfolding read_line_bytes.simps [of s]
    proof (rule keeps_await_at)
      show "frame s (snd (read 8192 s))" using keeps_read by (simp add: keeps_def)
      fix bs u assume r: "read 8192 s = (Done bs, u)"
      have "frame u (snd (await read_line_bytes (\<lambda>cs. ret (bs @ cs)) u))"
        if "bs \<noteq> []" "10 \<notin> set bs"
        by (rule keeps_await_at [where m = read_line_bytes, OF "1.IH" [OF r that]])
           (simp add: ret_def frame_refl)
      then show "frame u (snd (if bs = [] then ret [] u
          else if 10 \<in> set bs then ret (takeWhile (\<lambda>b. b \<noteq> 10) bs @ [10]) u
          else await read_line_bytes (\<lambda>cs. ret (bs @ cs)) u))"
        by (auto simp: ret_def frame_refl)
    qed
  qed
  then show ?thesis by (simp add: keeps_def)
qed

lemma keeps_from_result: "keeps (from_result r)"
  unfolding from_result_def by (intro keeps_read_intros)

lemma keeps_http_target: "keeps parse_http_target_from_stream"
  unfolding parse_http_target_from_stream_def read_line_def Let_def
  by (intro keeps_read_intros keeps_read_line_bytes keeps_from_result)

end

subsection \<open>TLS\<close>

text \<open>
  A slice out of range panics: \<open>None\<close>. Indices stay far below the width of \<open>usize\<close>, so
  \<open>checked_add\<close> never fails.
\<close>

definition slice :: "u8 list \<Rightarrow> nat \<Rightarrow> nat \<Rightarrow> u8 list option" where
  "slice data i j = (if i \<le> j \<and> j \<le> length data then Some (take (j - i) (drop i data)) else None)"

definition sni_at :: "u8 list \<Rightarrow> nat \<Rightarrow> string option option" where
  "sni_at data i =
     (case slice data i (i + 4) of
        None \<Rightarrow> None
      | Some window \<Rightarrow>
          if window = [0, 0, 0, 0] \<and> i + 9 < length data then
            (let name_len = unat (data ! (i + 9)); name_start = i + 9 + 1 in
             if name_start + name_len \<le> length data then
               (case slice data name_start (name_start + name_len) of
                  None \<Rightarrow> None
                | Some name \<Rightarrow> Some (from_utf8 name))
             else Some None)
          else Some None)"

fun sni_scan :: "u8 list \<Rightarrow> nat list \<Rightarrow> string option option" where
  "sni_scan data [] = Some None"
| "sni_scan data (i # is) =
     (case sni_at data i of
        None \<Rightarrow> None
      | Some (Some hostname) \<Rightarrow> Some (Some hostname)
      | Some None \<Rightarrow> sni_scan data is)"

definition extract_sni_from_tls :: "u8 list \<Rightarrow> string option option" where
  "extract_sni_from_tls data =
     (if length data < 43 \<or> data ! 0 \<noteq> 0x16 then Some None
      else sni_scan data [0 ..< length data - 10])"

definition parse_https_target_from_stream :: "(io_error, proxy_target) async" where
  "parse_https_target_from_stream = await (peek_or_read 512) (\<lambda>buf.
     case extract_sni_from_tls buf of
       None \<Rightarrow> panic
     | Some (Some sni) \<Rightarrow> ret \<lparr>host = sni, port = 443\<rparr>
     | Some None \<Rightarrow> ret \<lparr>host = ''unknown.host'', port = 443\<rparr>)"

subsection \<open>SOCKS4 and SOCKS5\<close>

definition parse_socks4_target :: "(io_error, proxy_target) async" where
  "parse_socks4_target = await (read_exact 8) (\<lambda>buf.
     if buf ! 0 \<noteq> 0x04 then fail (invalid_data ''Invalid SOCKS4 version'')
     else if buf ! 1 \<noteq> 0x01 then fail (invalid_data ''Only CONNECT supported'')
     else await read_nul (\<lambda>user_id.
       ret \<lparr>host = ipv4_to_string (buf ! 4) (buf ! 5) (buf ! 6) (buf ! 7),
            port = u16_from_be (buf ! 2) (buf ! 3)\<rparr>))"

definition socks5_ipv4 :: "(io_error, proxy_target) async" where
  "socks5_ipv4 = await (read_exact 6) (\<lambda>addr_buf.
     ret \<lparr>host = ipv4_to_string (addr_buf ! 0) (addr_buf ! 1) (addr_buf ! 2) (addr_buf ! 3),
          port = u16_from_be (addr_buf ! 4) (addr_buf ! 5)\<rparr>)"

definition socks5_domain :: "(io_error, proxy_target) async" where
  "socks5_domain = await (read_exact 1) (\<lambda>len_buf.
     await (read_exact (unat (len_buf ! 0))) (\<lambda>domain_buf.
     case from_utf8 domain_buf of
       None \<Rightarrow> fail (invalid_data ''Invalid domain'')
     | Some domain \<Rightarrow> await (read_exact 2) (\<lambda>port_buf.
         ret \<lparr>host = domain, port = u16_from_be (port_buf ! 0) (port_buf ! 1)\<rparr>)))"

definition socks5_ipv6 :: "(io_error, proxy_target) async" where
  "socks5_ipv6 = await (read_exact 18) (\<lambda>addr_buf.
     ret \<lparr>host = ipv6_to_string (take 16 addr_buf),
          port = u16_from_be (addr_buf ! 16) (addr_buf ! 17)\<rparr>)"

definition parse_socks5_target :: "(io_error, proxy_target) async" where
  "parse_socks5_target = await (read_exact 2) (\<lambda>buf.
     if buf ! 0 \<noteq> 0x05 then fail (invalid_data ''Invalid SOCKS5 version'')
     else await (read_exact (unat (buf ! 1))) (\<lambda>methods.
       await (write_all [0x05, 0x00]) (\<lambda>_.
       await (read_exact 4) (\<lambda>req_buf.
       if req_buf ! 0 \<noteq> 0x05 \<or> req_buf ! 1 \<noteq> 0x01
       then fail (invalid_data ''Invalid SOCKS5 request'')
       else if req_buf ! 3 = 0x01 then socks5_ipv4
       else if req_buf ! 3 = 0x03 then socks5_domain
       else if req_buf ! 3 = 0x04 then socks5_ipv6
       else fail (invalid_data ''Unsupported address type'')))))"

subsection \<open>The raw protocol\<close>

definition early_eof_as :: "string \<Rightarrow> io_error \<Rightarrow> io_error" where
  "early_eof_as msg e = (case e of IoError UnexpectedEof _ \<Rightarrow> IoError UnexpectedEof msg | _ \<Rightarrow> e)"

definition parse_host_port :: "string \<Rightarrow> io_error + proxy_target" where
  "parse_host_port target_str =
     (let parts = split_on (CHR '':'') target_str in
      if length parts \<noteq> 2
      then Inl (invalid_data ''Invalid target format (expected host:port)'')
      else case parse_u16 (parts ! 1) of
             None \<Rightarrow> Inl (invalid_data ''Invalid port number'')
           | Some p \<Rightarrow> Inr \<lparr>host = parts ! 0, port = p\<rparr>)"

definition parse_target_body :: "(io_error, proxy_target) async" where
  "parse_target_body =
     await (map_err (early_eof_as ''Client disconnected before sending length'') (read_exact 2))
       (\<lambda>length_buf.
     let n = unat (u16_from_be (length_buf ! 0) (length_buf ! 1)) in
     if n = 0 \<or> n > 1024 then fail (invalid_data ''Invalid target length'')
     else await (map_err (early_eof_as
              (''Client disconnected while sending target data (expected '' @ dec_string n @ '' bytes)''))
            (read_exact n)) (\<lambda>target_buf.
       case from_utf8 target_buf of
         None \<Rightarrow> fail (invalid_data ''Invalid UTF-8 in target'')
       | Some target_str \<Rightarrow> from_result (parse_host_port target_str)))"

definition parse_target :: "(io_error, proxy_target) async" where
  "parse_target = await (timeout 5000 parse_target_body) (\<lambda>r.
     case r of
       None \<Rightarrow> fail (IoError TimedOut ''Timeout reading target'')
     | Some res \<Rightarrow> from_result res)"

context read_frame begin

lemma keeps_raw_target: "keeps parse_target"
  unfolding parse_target_def parse_target_body_def Let_def
  by (intro keeps_read_intros keeps_from_result)

end

definition parse_target_by_protocol :: "proxy_protocol \<Rightarrow> (io_error, proxy_target) async" where
  "parse_target_by_protocol protocol =
     (case protocol of
        HTTP \<Rightarrow> parse_http_target_from_stream
      | HTTPS \<Rightarrow> parse_https_target_from_stream
      | SOCKS4 \<Rightarrow> parse_socks4_target
      | SOCKS5 \<Rightarrow> parse_socks5_target
      | TCP \<Rightarrow> parse_target)"

subsection \<open>Addresses in text\<close>

lemma split_host_port:
  "CHR '':'' \<notin> set h \<Longrightarrow> CHR '':'' \<notin> set ds \<Longrightarrow> split_on (CHR '':'') (h @ CHR '':'' # ds) = [h, ds]"
  by (simp add: split_on_append split_on_none)

lemma length_two_split:
  "length (split_on c s) = 2 \<Longrightarrow> \<exists>a b. split_on c s = [a, b] \<and> s = a @ c # b \<and> c \<notin> set a \<and> c \<notin> set b"
  by (auto simp: length_2_iff dest: split_on_two)

lemma colon_not_digit [simp]: "CHR '':'' \<notin> set (dec_string n)"
  by (rule dec_string_no) (simp add: digit_val_def Let_def)

lemma connect_target_iff:
  "parse_connect_target url = Inr t \<longleftrightarrow>
     (\<exists>digits. url = host t @ CHR '':'' # digits \<and> CHR '':'' \<notin> set (host t) \<and>
        CHR '':'' \<notin> set digits \<and> parse_u16 digits = Some (port t))"
proof
  assume "parse_connect_target url = Inr t"
  then have l: "length (split_on (CHR '':'') url) = 2"
    and p: "parse_u16 (split_on (CHR '':'') url ! 1) = Some (port t)"
    and h: "host t = split_on (CHR '':'') url ! 0"
    by (auto simp: parse_connect_target_def Let_def split: if_splits option.splits)
  from length_two_split [OF l] p h show "\<exists>digits. url = host t @ CHR '':'' # digits \<and>
      CHR '':'' \<notin> set (host t) \<and> CHR '':'' \<notin> set digits \<and> parse_u16 digits = Some (port t)"
    by auto
next
  assume "\<exists>digits. url = host t @ CHR '':'' # digits \<and> CHR '':'' \<notin> set (host t) \<and>
      CHR '':'' \<notin> set digits \<and> parse_u16 digits = Some (port t)"
  then show "parse_connect_target url = Inr t"
    by (auto simp: parse_connect_target_def Let_def split_host_port)
qed

text \<open>
  the target of a \<open>CONNECT\<close> is parsed exactly: the text before the only colon is the host
  and the text after it, read as a 16-bit decimal number, is the port; everything else is an
  error.
\<close>

theorem connect_target_exact:
  "parse_connect_target url = Inr t \<longleftrightarrow>
     (\<exists>digits. url = host t @ CHR '':'' # digits \<and> CHR '':'' \<notin> set (host t) \<and>
        CHR '':'' \<notin> set digits \<and> parse_u16 digits = Some (port t))"
  by (rule connect_target_iff)

text \<open>
  C35: printing a target as the address to dial and parsing it back as a \<open>CONNECT\<close> target gives
  the same target for every port, exactly for the hosts without a colon; so the proxy cannot be
  asked by \<open>CONNECT\<close> for an IPv6 literal.
\<close>

theorem connect_target_roundtrip:
  "parse_connect_target (target_address t) = Inr t \<longleftrightarrow> CHR '':'' \<notin> set (host t)"
  by (auto simp: connect_target_iff target_address_def parse_u16_dec_string)

lemma http_authority:
  assumes "CHR ''/'' \<notin> set a" and "path = [] \<or> hd path = CHR ''/''"
  shows "hd (split_on (CHR ''/'') (a @ path)) = a"
proof (cases path)
  case Nil
  with assms(1) show ?thesis by (simp add: split_on_none)
next
  case (Cons c p)
  with assms show ?thesis by (simp add: split_on_append)
qed

lemma http_scheme: "starts_with (''http://'' @ u) ''http://''" "drop 7 (''http://'' @ u) = u"
  by (rule starts_with_append) simp

lemma parse_http_url: "parse_http_target (''http://'' @ u) =
    (let parts = split_on (CHR '':'') (hd (split_on (CHR ''/'') u)) in
     Inr \<lparr>host = parts ! 0, port = (if length parts > 1
       then (case parse_u16 (parts ! 1) of Some p \<Rightarrow> p | None \<Rightarrow> 80) else 80)\<rparr>)"
  by (simp only: parse_http_target_def http_scheme if_True Let_def)

lemma http_url_default:
  assumes "CHR '':'' \<notin> set h" and "CHR ''/'' \<notin> set h" and "path = [] \<or> hd path = CHR ''/''"
  shows "parse_http_target (''http://'' @ h @ path) = Inr \<lparr>host = h, port = 80\<rparr>"
  using assms
  by (simp only: parse_http_url http_authority [OF assms(2,3)]) (simp add: split_on_none Let_def)



subsection \<open>SOCKS\<close>

lemma plain_read:
  assumes "n = length i" and "transcript (f i) j out r"
  shows "transcript (await (read_exact n) f) (i @ j) out r"
  by (rule transcript_step [where f = f, OF transcript_read [OF assms(1)] assms(2)]) simp_all

lemma plain_write:
  assumes "transcript (f ()) j out r"
  shows "transcript (await (write_all bs) f) j (bs @ out) r"
  by (rule transcript_step [where f = f, OF transcript_write assms]) simp_all

lemma plain_nul:
  assumes "0 \<notin> set bs" and "transcript (f bs) j out r"
  shows "transcript (await read_nul f) (bs @ [0] @ j) out r"
  by (rule transcript_step [where f = f, OF transcript_read_nul [OF assms(1)] assms(2)]) simp_all

text \<open>
  C15: a SOCKS4 \<open>CONNECT\<close> request is consumed exactly, with its user id, and answered with
  nothing; the target is the dotted address and the big-endian port of the request.
\<close>

theorem socks4_target_parsed:
  assumes "0 \<notin> set uid"
  shows "transcript parse_socks4_target ([4, 1] @ u16_be_bytes p @ [a, b, c, d] @ uid @ [0]) []
    (Done \<lparr>host = ipv4_to_string a b c d, port = p\<rparr>)"
proof -
  have "transcript parse_socks4_target (([4, 1] @ u16_be_bytes p @ [a, b, c, d]) @ uid @ [0] @ []) []
    (Done \<lparr>host = ipv4_to_string a b c d, port = p\<rparr>)"
    unfolding parse_socks4_target_def u16_be_bytes_def
    by (rule plain_read, simp, simp add: u16_from_be_bytes, rule plain_nul [where j = "[]", simplified])
       (rule assms, rule transcript_ret)
  then show ?thesis by simp
qed

theorem socks4_target_parsed_witness:
  "transcript parse_socks4_target [4, 1, 0, 80, 10, 0, 0, 1, 117, 0] []
     (Done \<lparr>host = ''10.0.0.1'', port = 80\<rparr>)"
proof -
  have "u16_be_bytes 80 = [0, 80]" "ipv4_to_string 10 0 0 1 = ''10.0.0.1''" by code_simp+
  then show ?thesis using socks4_target_parsed [of "[117]" 80 10 0 0 1] by simp
qed

text \<open>The three kinds of address of a SOCKS5 request, their encoding and the host they name.\<close>

datatype socks5_address = IPv4 u8 u8 u8 u8 | Domain string | IPv6 "u8 list"

fun encode_address :: "socks5_address \<Rightarrow> u8 list" where
  "encode_address (IPv4 a b c d) = [1, a, b, c, d]"
| "encode_address (Domain name) = [3, of_nat (length name)] @ as_bytes name"
| "encode_address (IPv6 bs) = 4 # bs"

fun address_host :: "socks5_address \<Rightarrow> string" where
  "address_host (IPv4 a b c d) = ipv4_to_string a b c d"
| "address_host (Domain name) = name"
| "address_host (IPv6 bs) = ipv6_to_string bs"

fun encodable :: "socks5_address \<Rightarrow> bool" where
  "encodable (IPv4 a b c d) = True"
| "encodable (Domain name) = (length name < 256 \<and> from_utf8 (as_bytes name) = Some name)"
| "encodable (IPv6 bs) = (length bs = 16)"

definition socks5_address_parser :: "u8 \<Rightarrow> (io_error, proxy_target) async" where
  "socks5_address_parser ty =
     (if ty = 0x01 then socks5_ipv4 else if ty = 0x03 then socks5_domain
      else if ty = 0x04 then socks5_ipv6 else fail (invalid_data ''Unsupported address type''))"

lemma u16_be_bytes_nth: "u16_from_be (u16_be_bytes p ! 0) (u16_be_bytes p ! Suc 0) = p"
  by (simp add: u16_be_bytes_def u16_from_be_bytes)

lemma length_u16_be_bytes [simp]: "length (u16_be_bytes p) = 2"
  by (simp add: u16_be_bytes_def)

lemma socks5_address_parsed:
  assumes "encodable a"
  shows "transcript (socks5_address_parser (hd (encode_address a)))
    (tl (encode_address a) @ u16_be_bytes p) [] (Done \<lparr>host = address_host a, port = p\<rparr>)"
proof (cases a)
  case (IPv4 b c d e)
  have "transcript socks5_ipv4 (([b, c, d, e] @ u16_be_bytes p) @ []) []
      (Done \<lparr>host = ipv4_to_string b c d e, port = p\<rparr>)"
    unfolding socks5_ipv4_def
    by (rule plain_read, simp) (simp add: u16_be_bytes_def u16_from_be_bytes transcript_ret)
  with IPv4 show ?thesis by (simp add: socks5_address_parser_def)
next
  case (Domain name)
  with assms have n: "length name < 256" "from_utf8 (as_bytes name) = Some name" by simp_all
  have "transcript socks5_domain ([of_nat (length name)] @ as_bytes name @ u16_be_bytes p @ []) []
      (Done \<lparr>host = name, port = p\<rparr>)"
    unfolding socks5_domain_def
    by (rule plain_read, simp, rule plain_read, simp add: unat_of_nat_u8 n,
        simp only: n option.case, rule plain_read, simp)
       (simp add: u16_be_bytes_nth transcript_ret)
  with Domain show ?thesis by (simp add: socks5_address_parser_def)
next
  case (IPv6 bs)
  with assms have n: "length bs = 16" by simp
  have "transcript socks5_ipv6 ((bs @ u16_be_bytes p) @ []) []
      (Done \<lparr>host = ipv6_to_string bs, port = p\<rparr>)"
    unfolding socks5_ipv6_def
    by (rule plain_read, simp add: n)
       (simp add: n nth_append u16_be_bytes_nth transcript_ret)
  with IPv6 show ?thesis by (simp add: socks5_address_parser_def)
qed

lemma socks5_target_step:
  assumes "length methods < 256"
    and "transcript (if cmd \<noteq> 1 then fail (invalid_data ''Invalid SOCKS5 request'')
      else socks5_address_parser ty) j [] r"
  shows "transcript parse_socks5_target
    ([5, of_nat (length methods)] @ methods @ [5, cmd, rsv, ty] @ j) [5, 0] r"
proof -
  have "transcript parse_socks5_target
      ([5, of_nat (length methods)] @ methods @ [5, cmd, rsv, ty] @ j) ([5, 0] @ []) r"
    unfolding parse_socks5_target_def socks5_address_parser_def [symmetric]
    by (rule plain_read, simp, rule exchange_else, simp, rule plain_read,
        simp add: unat_of_nat_u8 assms, rule plain_write, rule plain_read, simp)
       (use assms(2) in \<open>simp split: if_splits\<close>)
  then show ?thesis by simp
qed

lemma socks5_request_parsed:
  assumes "length methods < 256" and "encodable a"
  shows "transcript parse_socks5_target
    ([5, of_nat (length methods)] @ methods @ [5, 1, rsv] @ encode_address a @ u16_be_bytes p)
    [5, 0] (Done \<lparr>host = address_host a, port = p\<rparr>)"
proof -
  have e: "encode_address a = hd (encode_address a) # tl (encode_address a)"
    by (cases a) simp_all
  have "transcript (if 1 \<noteq> (1::u8) then fail (invalid_data ''Invalid SOCKS5 request'')
      else socks5_address_parser (hd (encode_address a))) (tl (encode_address a) @ u16_be_bytes p) []
      (Done \<lparr>host = address_host a, port = p\<rparr>)"
    using socks5_address_parsed [OF assms(2)] by simp
  from socks5_target_step [OF assms(1) this, of rsv] show ?thesis
    by (subst e) simp
qed

text \<open>
  C13: a SOCKS5 dialogue. After a greeting with any methods and a \<open>CONNECT\<close> request for an IPv4
  address, a domain name or an IPv6 address, and any port, the proxy has written \<open>05 00\<close>,
  consumed exactly these two messages, and found the address and the port they hold.
\<close>

theorem socks5_target_parsed:
  assumes "length methods < 256" and "encodable a"
  shows "transcript parse_socks5_target
    ([5, of_nat (length methods)] @ methods @ [5, 1, rsv] @ encode_address a @ u16_be_bytes p)
    [5, 0] (Done \<lparr>host = address_host a, port = p\<rparr>)"
  using assms by (rule socks5_request_parsed)

theorem socks5_target_parsed_witness:
  "transcript parse_socks5_target [5, 1, 0, 5, 1, 0, 3, 1, 97, 31, 144] [5, 0]
     (Done \<lparr>host = ''a'', port = 8080\<rparr>)"
proof -
  have "encodable (Domain ''a'')" "u16_be_bytes 8080 = [31, 144]" by code_simp+
  moreover have "as_bytes ''a'' = [97]" by code_simp
  ultimately show ?thesis
    using socks5_target_parsed [of "[0]" "Domain ''a''" 0 8080] by simp
qed

text \<open>
  SOCKS requests other than \<open>CONNECT\<close>, and address types other than the three, are refused
  as invalid data before anything is dialled; a SOCKS5 client has by then been told \<open>05 00\<close>.
\<close>

theorem socks_other_commands_refused:
  assumes "cmd \<noteq> 1" and "length methods < 256" and "length rest = 6"
    and "ty \<noteq> 1" and "ty \<noteq> 3" and "ty \<noteq> 4"
  shows "transcript parse_socks5_target ([5, of_nat (length methods)] @ methods @ [5, cmd, rsv, ty])
      [5, 0] (Failed (invalid_data ''Invalid SOCKS5 request'')) \<and>
    transcript parse_socks5_target ([5, of_nat (length methods)] @ methods @ [5, 1, rsv, ty])
      [5, 0] (Failed (invalid_data ''Unsupported address type'')) \<and>
    transcript parse_socks4_target ([4, cmd] @ rest) []
      (Failed (invalid_data ''Only CONNECT supported''))"
proof (intro conjI)
  show "transcript parse_socks5_target ([5, of_nat (length methods)] @ methods @ [5, cmd, rsv, ty])
      [5, 0] (Failed (invalid_data ''Invalid SOCKS5 request''))"
    using socks5_target_step [OF assms(2), of cmd ty "[]" _ rsv] assms(1)
    by (simp add: transcript_fail)
  show "transcript parse_socks5_target ([5, of_nat (length methods)] @ methods @ [5, 1, rsv, ty])
      [5, 0] (Failed (invalid_data ''Unsupported address type''))"
    using socks5_target_step [OF assms(2), of 1 ty "[]" _ rsv] assms(4-6)
    by (simp add: socks5_address_parser_def transcript_fail)
  have "transcript parse_socks4_target (([4, cmd] @ rest) @ []) []
      (Failed (invalid_data ''Only CONNECT supported''))"
    unfolding parse_socks4_target_def
    by (rule plain_read, simp add: assms, rule exchange_else, simp,
        rule exchange_then, simp add: assms, rule transcript_fail)
  then show "transcript parse_socks4_target ([4, cmd] @ rest) []
      (Failed (invalid_data ''Only CONNECT supported''))" by simp
qed

theorem socks_other_commands_refused_witness:
  "transcript parse_socks4_target [4, 2, 0, 80, 10, 0, 0, 1] []
      (Failed (invalid_data ''Only CONNECT supported''))"
  using socks_other_commands_refused [of 2 "[]" "[0, 80, 10, 0, 0, 1]" 9] by simp

text \<open>
  C25: the SOCKS parsers do not depend on how the requests are cut into segments or when these
  arrive.
\<close>

theorem socks_targets_segmentation_free:
  "segmentation_free parse_socks4_target \<and> segmentation_free parse_socks5_target"
  unfolding parse_socks4_target_def parse_socks5_target_def socks5_ipv4_def socks5_domain_def
    socks5_ipv6_def
  by (intro conjI seg_intros)

subsection \<open>The raw protocol\<close>

lemma answers_from_result: "answers (from_result r)"
  unfolding from_result_def by (cases r) (simp_all add: answers_ret answers_fail)

lemma answers_parse_target_body: "answers parse_target_body"
  unfolding parse_target_body_def Let_def
  by (intro answers_intros answers_from_result)

text \<open>
  C24: the raw protocol never waits for ever and never panics: whatever the client sends or does
  not send, and whenever, a target is parsed, or the client is dropped with an error.
\<close>

theorem raw_target_answers:
  "(\<exists>t. fst (parse_target s) = Done t) \<or> (\<exists>e. fst (parse_target s) = Failed e)"
proof -
  let ?m = "timeout 5000 parse_target_body :: (io_error, (io_error + proxy_target) option) async"
  from timeout_completes [OF answers_parse_target_body, of 5000 s] obtain r where
    "fst (?m s) = Done r" by blast
  then obtain u where t: "?m s = (Done r, u)" by (cases "?m s") simp
  then show ?thesis
    by (cases r; cases "the r")
       (auto simp: parse_target_def await_def from_result_def ret_def fail_def)
qed

text \<open>
  a raw client that stays silent is dropped with the error \<open>TimedOut\<close> when its five seconds
  are over.
\<close>

theorem raw_target_timeout:
  assumes "rx s = []" and "lags s = []"
  shows "fst (parse_target s) = Failed (IoError TimedOut ''Timeout reading target'') \<and>
    clock (snd (parse_target s)) = clock s + 5000"
proof -
  let ?s = "s\<lparr>deadline := Some (clock s + 5000)\<rparr>"
  have "read_exact 2 ?s = (Elapsed, ?s\<lparr>clock := clock s + 5000\<rparr>)"
    using assms by (simp add: read_exact.simps [of 2] read_def peek_def wait_rx_def pass_time_def
        await_def)
  then show ?thesis
    by (simp add: parse_target_def timeout_def parse_target_body_def await_def map_err_def fail_def)
qed

theorem raw_target_timeout_witness:
  "fst (parse_target (sample_client Plain [])) = Failed (IoError TimedOut ''Timeout reading target'')"
  using raw_target_timeout [of "sample_client Plain []"] by simp

lemma parse_host_port_address:
  "CHR '':'' \<notin> set (host t) \<Longrightarrow> parse_host_port (target_address t) = Inr t"
  by (simp add: parse_host_port_def target_address_def Let_def split_host_port parse_u16_dec_string)

lemma read_in_time:
  assumes "delivers s i es" and "\<forall>x \<in> set (take (length i) (rx s)). due s (fst x)"
  shows "\<exists>u. read_exact (length i) s = (Done i, u) \<and> idle_eq (s\<lparr>rx := drop (length i) (rx s)\<rparr>) u \<and>
    delivers u [] es"
proof -
  note d = delivers_inbound [OF assms(1)]
  from read_exact_in_time [OF d(2) assms(2)] d(1) obtain u where
    "read_exact (length i) s = (Done i, u)" "idle_eq (s\<lparr>rx := drop (length i) (rx s)\<rparr>) u" by auto
  moreover from this d(3) have "delivers u [] es" by (simp add: idle_eq_def delivers_def)
  ultimately show ?thesis by blast
qed

text \<open>
  C14: the raw protocol round trip. A client that sends the address of a target, prefixed with
  its length as two big-endian bytes, within five seconds and in any segments, gets that target;
  exactly these bytes are consumed and nothing is answered.
\<close>

theorem raw_target_parsed:
  assumes "CHR '':'' \<notin> set (host t)" and "length (target_address t) \<le> 1024"
    and "from_utf8 (as_bytes (target_address t)) = Some (target_address t)"
    and "map snd (rx s) = map Byte (u16_be_bytes (of_nat (length (target_address t))) @
      as_bytes (target_address t)) @ es"
    and "\<forall>x \<in> set (take (2 + length (target_address t)) (rx s)). fst x \<le> clock s + 5000"
  shows "\<exists>u. parse_target s = (Done t, u) \<and> map snd (rx u) = es \<and> tx u = tx s \<and>
    deadline u = deadline s"
proof -
  let ?a = "target_address t" and ?n = "length (target_address t)"
  let ?s = "s\<lparr>deadline := Some (clock s + 5000)\<rparr>" and ?w = "of_nat (length (target_address t)) :: u16"
  have n: "unat ?w = ?n" using assms(2) by (intro unat_of_nat_u16) simp
  have pos: "?n \<noteq> 0" by (simp add: target_address_def)
  have w: "u16_from_be (u16_be_bytes ?w ! 0) (u16_be_bytes ?w ! Suc 0) = ?w"
    by (simp add: u16_be_bytes_nth)
  have d: "\<forall>x \<in> set (take (2 + ?n) (rx ?s)). due ?s (fst x)"
    using assms(5) by (simp add: due_def)
  have "set (take (length (u16_be_bytes ?w)) (rx ?s)) \<subseteq> set (take (2 + ?n) (rx ?s))"
    by (simp add: set_take_subset_set_take)
  with d have due2: "\<forall>x \<in> set (take (length (u16_be_bytes ?w)) (rx ?s)). due ?s (fst x)" by blast
  have dl: "delivers ?s (u16_be_bytes ?w) (map Byte (as_bytes ?a) @ es)"
    using assms(4) by (simp add: delivers_def)
  from read_in_time [OF dl due2, unfolded length_u16_be_bytes] obtain u where u: "read_exact 2 ?s = (Done (u16_be_bytes ?w), u)"
    "idle_eq (?s\<lparr>rx := drop 2 (rx ?s)\<rparr>) u" "delivers u [] (map Byte (as_bytes ?a) @ es)"
    by blast
  have "take ?n (rx u) = drop 2 (take (2 + ?n) (rx ?s))"
    using u(2) by (simp add: idle_eq_def drop_take)
  then have "\<forall>x \<in> set (take ?n (rx u)). due u (fst x)"
    using d due_idle [OF u(2)] by (metis in_set_dropD)
  moreover have "delivers u (as_bytes ?a) es" using u(3) by (simp add: delivers_def)
  ultimately obtain v where v: "read_exact ?n u = (Done (as_bytes ?a), v)"
    "idle_eq (u\<lparr>rx := drop ?n (rx u)\<rparr>) v" "delivers v [] es"
    using read_in_time [of u "as_bytes ?a" es] by auto
  have "parse_target_body ?s = (Done t, v)"
    using u(1) v(1) w n pos assms(2,3) parse_host_port_address [OF assms(1)]
    by (simp add: parse_target_body_def await_def map_err_def from_result_def ret_def Let_def)
  then have "parse_target s = (Done t, v\<lparr>deadline := deadline s\<rparr>)"
    by (simp add: parse_target_def timeout_def await_def from_result_def ret_def)
  moreover have "tx v = tx s" using u(2) v(2) by (simp add: idle_eq_def)
  ultimately show ?thesis using v(3) by (simp add: delivers_def)
qed

theorem raw_target_parsed_witness:
  "\<exists>u. parse_target (sample_client Plain ([(0, Byte 0)] @ arrives 1 [3] @ arrives 4999 [97, 58, 57, 7]))
     = (Done \<lparr>host = ''a'', port = 9\<rparr>, u) \<and> map snd (rx u) = [Byte 7]"
proof -
  let ?s = "sample_client Plain ([(0, Byte 0)] @ arrives 1 [3] @ arrives 4999 [97, 58, 57, 7])"
  have a: "target_address \<lparr>host = ''a'', port = 9\<rparr> = ''a:9''" by code_simp
  have b: "from_utf8 (as_bytes ''a:9'') = Some ''a:9''" "u16_be_bytes 3 = [0, 3]"
    "as_bytes ''a:9'' = [97, 58, 57]" by code_simp+
  have "map snd (rx ?s) = map Byte (u16_be_bytes 3 @ [97, 58, 57]) @ [Byte 7]"
    "\<forall>x \<in> set (take 5 (rx ?s)). fst x \<le> clock ?s + 5000"
    by (simp_all add: arrives_def b)
  then have "\<exists>u. parse_target ?s = (Done \<lparr>host = ''a'', port = 9\<rparr>, u) \<and> map snd (rx u) = [Byte 7] \<and>
      tx u = tx ?s \<and> deadline u = deadline ?s"
    using a b by (intro raw_target_parsed) (simp_all del: sample_client_simps(3))
  then show ?thesis by (elim exE conjE) (intro exI conjI)
qed

subsection \<open>HTTP requests\<close>

text \<open>The line that a sequence of events holds, and how it ends otherwise.\<close>

fun line_result :: "rx_event list \<Rightarrow> (io_error, u8 list) outcome" where
  "line_result (Byte b # es) =
     (if b = 10 then Done [10]
      else case line_result es of Done bs \<Rightarrow> Done (b # bs) | r \<Rightarrow> r)"
| "line_result (Fin # es) = Done []"
| "line_result (Broken e # es) = Failed e"
| "line_result [] = Hangs"

lemma line_result_found:
  "10 \<in> set bs \<Longrightarrow> line_result (map Byte bs @ es) = Done (takeWhile (\<lambda>b. b \<noteq> 10) bs @ [10])"
  by (induction bs) auto

lemma line_result_not_found:
  "10 \<notin> set bs \<Longrightarrow> line_result (map Byte bs @ es) =
    (case line_result es of Done cs \<Rightarrow> Done (bs @ cs) | r \<Rightarrow> r)"
  by (induction bs) (auto split: outcome.splits)

lemma events_split:
  "k \<le> length (inbound es) \<Longrightarrow> map snd es = map Byte (take k (inbound es)) @ map snd (drop k es)"
  by (induction es arbitrary: k rule: inbound.induct) (auto simp: take_Cons drop_Cons split: nat.splits)

lemma read_line_result:
  "deadline s = None \<Longrightarrow> fst (read_line_bytes s) = line_result (map snd (rx s))"
proof (induction s rule: read_line_bytes.induct)
  case (1 s)
  note step = read_line_bytes.simps [of s] await_def
  consider (silent) "rx s = []" | (fin) t r where "rx s = (t, Fin) # r"
    | (broken) t e r where "rx s = (t, Broken e) # r" | (byte) t b r where "rx s = (t, Byte b) # r"
    by (metis list.exhaust prod.exhaust rx_event.exhaust)
  then show ?case
  proof cases
    case silent
    with read_silent [OF "1.prems" silent, of 8192] show ?thesis by (auto simp: step)
  next
    case fin
    with read_fin [OF "1.prems" fin, of 8192] show ?thesis by (auto simp: step ret_def)
  next
    case broken
    with read_broken [OF "1.prems" broken, of 8192] show ?thesis by (auto simp: step)
  next
    case byte
    from read_bytes [OF due_None [OF "1.prems"] byte, of 8192] obtain u k where
      rd: "read 8192 s = (Done (take k (inbound (rx s))), u)"
      and eq: "idle_eq (s\<lparr>rx := drop k (rx s)\<rparr>) u"
      and k: "0 < k" "k \<le> length (inbound (rx s))" by auto
    let ?bs = "take k (inbound (rx s))"
    from k have ne: "?bs \<noteq> []" by auto
    from eq "1.prems" have u: "deadline u = None" "rx u = drop k (rx s)" by (simp_all add: idle_eq_def)
    have ev: "map snd (rx s) = map Byte ?bs @ map snd (rx u)"
      using events_split [OF k(2)] by (simp only: u)
    have run: "read_line_bytes s = (if 10 \<in> set ?bs then ret (takeWhile (\<lambda>b. b \<noteq> 10) ?bs @ [10]) u
        else await read_line_bytes (\<lambda>cs. ret (?bs @ cs)) u)"
      using rd ne by (simp add: step(1) await_Done [of "read 8192" s, OF rd] del: take_eq_Nil take_eq_Nil2)
    show ?thesis
    proof (cases "10 \<in> set ?bs")
      case True
      with run ev line_result_found [OF True] show ?thesis by (simp add: ret_def)
    next
      case False
      have "fst (read_line_bytes u) = line_result (map snd (rx u))"
        by (rule "1.IH" [OF rd ne False u(1)])
      with run ev line_result_not_found [OF False] False show ?thesis
        by (cases "read_line_bytes u"; cases "fst (read_line_bytes u)")
           (simp_all add: await_def ret_def)
    qed
  qed
qed

lemma fst_await_cong:
  assumes "fst (m s) = fst (m t)" and "\<And>x u v. fst (f x u) = fst (f x v)"
  shows "fst (await m f s) = fst (await m f t)"
  using assms by (cases "m s"; cases "m t"; cases "fst (m s)") (auto simp: await_def)

lemma fst_from_result: "fst (from_result r u) = fst (from_result r v)"
  by (cases r) (simp_all add: from_result_def ret_def fail_def)

text \<open>
  C26: the target of an HTTP request, or the error, depends on the bytes of the request alone and
  not on how they are cut into segments.
\<close>

theorem http_target_same_for_all_segments:
  assumes "same_bytes s t"
  shows "fst (parse_http_target_from_stream s) = fst (parse_http_target_from_stream t)"
proof -
  have "deadline s = None" "deadline t = None" "map snd (rx s) = map snd (rx t)"
    using assms by (simp_all add: same_bytes_def)
  then have l: "fst (read_line_bytes s) = fst (read_line_bytes t)" by (simp add: read_line_result)
  have "fst (read_line s) = fst (read_line t)"
    unfolding read_line_def using l
    by (rule fst_await_cong) (simp add: ret_def fail_def split: option.splits)
  then show ?thesis
    unfolding parse_http_target_from_stream_def
    by (rule fst_await_cong) (simp add: Let_def fail_def fst_from_result)
qed

lemma request_line_words:
  assumes "list_all (\<lambda>w. is_ascii w \<and> w \<noteq> [] \<and> list_all (\<lambda>c. \<not> ascii_ws c) w) [m, u, v]"
  shows "split_whitespace (m @ '' '' @ u @ '' '' @ v @ [CHR 0x0D, CHR 0x0A]) = [m, u, v]"
proof -
  have b: "is_ascii '' ''" "is_ascii [CHR 0x0D, CHR 0x0A]" "is_whitespace '' ''"
    "is_whitespace [CHR 0x0D]" "is_whitespace [CHR 0x0A]" by code_simp+
  have "chars (m @ '' '' @ u @ '' '' @ v @ [CHR 0x0D, CHR 0x0A]) =
      map (\<lambda>c. [c]) m @ '' '' # map (\<lambda>c. [c]) u @ '' '' # map (\<lambda>c. [c]) v @ [[CHR 0x0D], [CHR 0x0A]]"
    using assms b by (subst chars_ascii) simp_all
  with assms b show ?thesis
    by (simp add: split_whitespace_def words_of_ascii del: is_whitespace_single)
qed

lemma newline_ends_line:
  assumes "CHR 0x0A \<notin> set l"
  shows "takeWhile (\<lambda>b. b \<noteq> 10) (as_bytes (l @ CHR 0x0A # r)) = as_bytes l"
proof -
  have nl: "(of_char (CHR 0x0A) :: u8) = 10" by code_simp
  have inj: "(of_char c :: u8) = 10 \<longleftrightarrow> c = CHR 0x0A" for c
    by (metis nl char_of_of_char_u8)
  have "takeWhile (\<lambda>b. b \<noteq> 10) (as_bytes l @ as_bytes (CHR 0x0A # r)) = as_bytes l"
    using assms by (subst takeWhile_append2) (auto simp: as_bytes_def inj nl)
  then show ?thesis by simp
qed

lemma read_segment:
  assumes "rx s = arrives t bs @ es" and "bs \<noteq> []" and "length bs \<le> n"
    and "deadline s = None" and "lags s = []" and "clock s \<le> t" and "arrives_after t es"
  shows "read n s = (Done bs, s\<lparr>clock := t, rx := es\<rparr>)"
  using peek_segment [OF assms(1,2) due_None [OF assms(4)] assms(5-7), of n] assms(1,3)
  by (simp add: read_def await_Done arrives_def)

lemma request_line_parsed:
  assumes "rx s = arrives t (as_bytes (m @ '' '' @ u @ '' '' @ v @ CHR 0x0D # CHR 0x0A # rest)) @ later"
    and "length (m @ '' '' @ u @ '' '' @ v @ CHR 0x0D # CHR 0x0A # rest) \<le> 8192"
    and "list_all (\<lambda>w. is_ascii w \<and> w \<noteq> [] \<and> list_all (\<lambda>c. \<not> ascii_ws c) w) [m, u, v]"
    and "deadline s = None" and "lags s = []" and "clock s \<le> t" and "arrives_after t later"
  shows "parse_http_target_from_stream s =
    from_result (if m = ''CONNECT'' then parse_connect_target u else parse_http_target u)
      (s\<lparr>clock := t, rx := later\<rparr>)"
proof -
  let ?l = "m @ '' '' @ u @ '' '' @ v @ [CHR 0x0D]" and ?s = "s\<lparr>clock := t, rx := later\<rparr>"
  have nws: "CHR 0x0A \<notin> set w" if "list_all (\<lambda>c. \<not> ascii_ws c) w" for w
    using that by (auto simp: list_all_iff ascii_ws_def)
  then have n: "CHR 0x0A \<notin> set ?l" using assms(3) by simp
  have sp: "m @ '' '' @ u @ '' '' @ v @ CHR 0x0D # CHR 0x0A # rest = ?l @ CHR 0x0A # rest" by simp
  have asc: "is_ascii (?l @ [CHR 0x0A])" using assms(3) by simp
  have nl: "(of_char (CHR 0x0A) :: u8) = 10" by code_simp
  have "read 8192 s = (Done (as_bytes (?l @ CHR 0x0A # rest)), ?s)"
    by (rule read_segment [OF _ _ _ assms(4-7)]) (use assms(1,2) in \<open>simp_all add: sp\<close>)
  moreover have "10 \<in> set (as_bytes (?l @ CHR 0x0A # rest))" by (simp add: nl)
  moreover have "as_bytes (?l @ CHR 0x0A # rest) \<noteq> []" by simp
  ultimately have "read_line_bytes s = (Done (as_bytes ?l @ [10]), ?s)"
    by (simp only: read_line_bytes.simps [of s] await_def newline_ends_line [OF n] ret_def
        prod.case outcome.case if_True if_False)
  moreover have "as_bytes ?l @ [10] = as_bytes (?l @ [CHR 0x0A])" by (simp add: nl)
  ultimately have "read_line_bytes s = (Done (as_bytes (?l @ [CHR 0x0A])), ?s)" by (simp only:)
  then have "read_line s = (Done (?l @ [CHR 0x0A]), ?s)"
    by (simp only: read_line_def await_def from_utf8_ascii [OF asc] ret_def
        prod.case outcome.case option.case)
  moreover have "split_whitespace (?l @ [CHR 0x0A]) = [m, u, v]"
    using request_line_words [OF assms(3)] by simp
  ultimately show ?thesis
    by (simp add: parse_http_target_from_stream_def await_def Let_def del: append_assoc)
qed

text \<open>The same for the result alone, whatever the segments and whatever follows.\<close>

lemma request_line_result:
  assumes "deadline s = None"
    and "delivers s (as_bytes (m @ '' '' @ u @ '' '' @ v @ CHR 0x0D # CHR 0x0A # rest)) es"
    and "list_all (\<lambda>w. is_ascii w \<and> w \<noteq> [] \<and> list_all (\<lambda>c. \<not> ascii_ws c) w) [m, u, v]"
  shows "fst (parse_http_target_from_stream s) =
    (case (if m = ''CONNECT'' then parse_connect_target u else parse_http_target u) of
       Inl e \<Rightarrow> Failed e | Inr x \<Rightarrow> Done x)"
proof -
  let ?l = "m @ '' '' @ u @ '' '' @ v @ [CHR 0x0D]"
  have nws: "CHR 0x0A \<notin> set w" if "list_all (\<lambda>c. \<not> ascii_ws c) w" for w
    using that by (auto simp: list_all_iff ascii_ws_def)
  then have n: "CHR 0x0A \<notin> set ?l" using assms(3) by simp
  have asc: "is_ascii (?l @ [CHR 0x0A])" using assms(3) by simp
  have nl: "(of_char (CHR 0x0A) :: u8) = 10" by code_simp
  have sp: "m @ '' '' @ u @ '' '' @ v @ CHR 0x0D # CHR 0x0A # rest = ?l @ CHR 0x0A # rest" by simp
  have "line_result (map snd (rx s)) =
      Done (takeWhile (\<lambda>b. b \<noteq> 10) (as_bytes (?l @ CHR 0x0A # rest)) @ [10])"
    using assms(2) unfolding delivers_def sp by (simp only:) (rule line_result_found, simp add: nl)
  also have "\<dots> = Done (as_bytes (?l @ [CHR 0x0A]))"
    by (simp only: newline_ends_line [OF n]) (simp add: nl)
  finally have "fst (read_line_bytes s) = Done (as_bytes (?l @ [CHR 0x0A]))"
    by (simp only: read_line_result [OF assms(1)])
  then obtain w where w: "read_line_bytes s = (Done (as_bytes (?l @ [CHR 0x0A])), w)"
    by (metis prod.collapse)
  then have "read_line s = (Done (?l @ [CHR 0x0A]), w)"
    by (simp only: read_line_def await_def from_utf8_ascii [OF asc] ret_def
        prod.case outcome.case option.case)
  moreover have "split_whitespace (?l @ [CHR 0x0A]) = [m, u, v]"
    using request_line_words [OF assms(3)] by simp
  ultimately show ?thesis
    by (simp add: parse_http_target_from_stream_def await_def Let_def from_result_def ret_def
        fail_def del: append_assoc split: sum.split)
qed

text \<open>
  the request line decides the target, and everything that has arrived with it, up to 8192
  bytes, is read and thrown away: the other headers of a \<open>CONNECT\<close>, data sent along with them,
  and the whole of a plain HTTP request, which is therefore never forwarded to its target. What
  arrives in a later segment is left, to be relayed.
\<close>

theorem http_request_discarded:
  assumes "rx s = arrives t (as_bytes (m @ '' '' @ u @ '' '' @ v @ CHR 0x0D # CHR 0x0A # rest)) @ later"
    and "length (m @ '' '' @ u @ '' '' @ v @ CHR 0x0D # CHR 0x0A # rest) \<le> 8192"
    and "list_all (\<lambda>w. is_ascii w \<and> w \<noteq> [] \<and> list_all (\<lambda>c. \<not> ascii_ws c) w) [m, u, v]"
    and "deadline s = None" and "lags s = []" and "clock s \<le> t" and "arrives_after t later"
  shows "parse_http_target_from_stream s =
    from_result (if m = ''CONNECT'' then parse_connect_target u else parse_http_target u)
      (s\<lparr>clock := t, rx := later\<rparr>)"
  using assms by (rule request_line_parsed)

theorem http_request_discarded_witness:
  "parse_http_target_from_stream
     (sample_client Plain (arrives 0 (as_bytes (''GET '' @ ''http://a/'' @ '' '' @ ''HTTP/1.1'' @
        [CHR 0x0D, CHR 0x0A, CHR 0x0D, CHR 0x0A] @ ''body'')) @ arrives 1 [1]))
   = (Done \<lparr>host = ''a'', port = 80\<rparr>, sample_client Plain (arrives 1 [1]))"
proof -
  let ?s = "sample_client Plain (arrives 0 (as_bytes (''GET'' @ '' '' @ ''http://a/'' @ '' '' @ ''HTTP/1.1'' @
    CHR 0x0D # CHR 0x0A # CHR 0x0D # CHR 0x0A # ''body'')) @ arrives 1 [1])"
  have w: "list_all (\<lambda>w. is_ascii w \<and> w \<noteq> [] \<and> list_all (\<lambda>c. \<not> ascii_ws c) w)
      [''GET'', ''http://a/'', ''HTTP/1.1'']" by code_simp
  have p: "parse_http_target ''http://a/'' = Inr \<lparr>host = ''a'', port = 80\<rparr>"
    using http_url_default [of "''a''" "''/''"] by simp
  have "parse_http_target_from_stream ?s =
      from_result (if ''GET'' = ''CONNECT'' then parse_connect_target ''http://a/''
        else parse_http_target ''http://a/'') (?s\<lparr>clock := 0, rx := arrives 1 [1]\<rparr>)"
    by (rule http_request_discarded [OF sample_client_simps(3) _ w]) (simp_all add: arrives_after_arrives)
  moreover have "?s\<lparr>clock := 0, rx := arrives 1 [1]\<rparr> = sample_client Plain (arrives 1 [1])"
    by (simp add: sample_client_def)
  ultimately show ?thesis by (simp add: p from_result_def ret_def)
qed

definition two_segments :: client_stream where
  "two_segments = sample_client Plain (arrives 0 [71, 69] @ arrives 5 [84, 10])"

definition one_segment :: client_stream where
  "one_segment = sample_client Plain (arrives 3 [71, 69, 84, 10])"

theorem http_target_same_for_all_segments_witness:
  "fst (parse_http_target_from_stream two_segments) = fst (parse_http_target_from_stream one_segment)"
  by (rule http_target_same_for_all_segments)
     (simp add: two_segments_def one_segment_def same_bytes_def arrives_def)

subsection \<open>Server names\<close>

lemma sni_at_total: "i + 10 < length data \<Longrightarrow> sni_at data i \<noteq> None"
  by (simp add: sni_at_def slice_def Let_def)

lemma sni_scan_total: "\<forall>i \<in> set is. i + 10 < length data \<Longrightarrow> sni_scan data is \<noteq> None"
proof (induction "is")
  case (Cons i "is")
  then have "sni_at data i \<noteq> None" by (simp add: sni_at_total)
  with Cons show ?case by (auto split: option.splits)
qed simp

lemma sni_at_found:
  assumes "sni_at data i = Some (Some h)"
  shows "take 4 (drop i data) = [0, 0, 0, 0] \<and> i + 9 < length data \<and>
    i + 10 + length h \<le> length data \<and> unat (data ! (i + 9)) = length h \<and>
    as_bytes h = take (length h) (drop (i + 10) data)"
proof -
  from assms obtain name where
    s: "slice data (i + 9 + 1) (i + 9 + 1 + unat (data ! (i + 9))) = Some name"
    and u: "from_utf8 name = Some h" and w: "slice data i (i + 4) = Some [0, 0, 0, 0]"
    and l: "i + 9 < length data" "i + 9 + 1 + unat (data ! (i + 9)) \<le> length data"
    by (auto simp: sni_at_def Let_def split: option.splits if_splits)
  from s have n: "name = take (unat (data ! (i + 9))) (drop (i + 10) data)"
    by (auto simp: slice_def add.commute split: if_splits)
  have "length name = unat (data ! (i + 9))" using l by (simp add: n)
  moreover have "as_bytes h = name" by (rule from_utf8_Some [OF u])
  then have "length h = length name" by (metis as_bytes_simps(4))
  ultimately have len: "length h = unat (data ! (i + 9))" by simp
  have "as_bytes h = take (length h) (drop (i + 10) data)"
    by (simp only: \<open>as_bytes h = name\<close> n len)
  moreover have "take 4 (drop i data) = [0, 0, 0, 0]"
    using w by (auto simp: slice_def split: if_splits)
  ultimately show ?thesis using l len by simp
qed

lemma sni_scan_found: "sni_scan data is = Some (Some h) \<Longrightarrow> \<exists>i. sni_at data i = Some (Some h)"
  by (induction "is") (auto split: option.splits)

text \<open>
  C29: the scan for a server name never indexes out of bounds, whatever the bytes, and what it
  answers is a run of the input that follows four zero bytes and its own length.
\<close>

theorem sni_scan_safe:
  "extract_sni_from_tls data \<noteq> None \<and>
   (\<forall>h. extract_sni_from_tls data = Some (Some h) \<longrightarrow>
      (\<exists>i. take 4 (drop i data) = [0, 0, 0, 0] \<and> i + 10 + length h \<le> length data \<and>
         unat (data ! (i + 9)) = length h \<and> as_bytes h = take (length h) (drop (i + 10) data)))"
proof (intro conjI allI impI)
  show "extract_sni_from_tls data \<noteq> None"
  proof -
    have "sni_scan data [0 ..< length data - 10] \<noteq> None" by (rule sni_scan_total) auto
    then show ?thesis by (simp only: extract_sni_from_tls_def split: if_splits) simp
  qed
  fix h assume "extract_sni_from_tls data = Some (Some h)"
  then have "sni_scan data [0 ..< length data - 10] = Some (Some h)"
    by (auto simp: extract_sni_from_tls_def split: if_splits)
  from sni_scan_found [OF this] obtain i where "sni_at data i = Some (Some h)" by blast
  with sni_at_found [OF this] show "\<exists>i. take 4 (drop i data) = [0, 0, 0, 0] \<and>
      i + 10 + length h \<le> length data \<and> unat (data ! (i + 9)) = length h \<and>
      as_bytes h = take (length h) (drop (i + 10) data)" by blast
qed

text \<open>
  A TLS 1.2 client hello with a session id, one cipher suite and the server name \<open>a.b\<close> in the
  only extension, as RFC 6066 lays it out.
\<close>

definition hello_with_extension :: "u8 list \<Rightarrow> u8 list" where
  "hello_with_extension ext =
     [0x16, 3, 1, 0, 91, 1, 0, 0, 87, 3, 3] @ replicate 32 7 @ [32] @ replicate 32 9 @
     [0, 2, 0x13, 1, 1, 0] @ [0, 12] @ ext"

definition server_name_extension :: "u8 list" where
  "server_name_extension = [0, 0, 0, 8, 0, 6, 0, 0, 3] @ as_bytes ''a.b''"

text \<open>
  the scan does not find the server name of a well-formed hello: it looks for four zero
  bytes, but only the two of the extension's type are zero, the next two hold its length; and it
  expects the length of the name one byte later than it is. So HTTPS clients are sent to the
  placeholder \<open>unknown.host\<close>.
\<close>

theorem sni_missed:
  "extract_sni_from_tls (hello_with_extension server_name_extension) = Some None \<and>
   fst (parse_https_target_from_stream
      (sample_client Plain (arrives 0 (hello_with_extension server_name_extension))))
     = Done \<lparr>host = ''unknown.host'', port = 443\<rparr>"
  by code_simp

definition odd_hello :: "u8 list" where
  "odd_hello = 0x16 # replicate 50 1 @ [0, 0, 0, 0, 9, 9, 9, 9, 9, 3] @ as_bytes ''a.b'' @ [1]"

theorem sni_scan_safe_witness:
  "\<exists>i. i + 13 \<le> length odd_hello \<and> as_bytes ''a.b'' = take 3 (drop (i + 10) odd_hello)"
proof -
  have "extract_sni_from_tls odd_hello = Some (Some ''a.b'')" by code_simp
  with sni_scan_safe [of odd_hello] obtain i where "i + 10 + length ''a.b'' \<le> length odd_hello"
    "as_bytes ''a.b'' = take (length ''a.b'') (drop (i + 10) odd_hello)" by blast
  then show ?thesis by (intro exI [of _ i]) (simp add: eval_nat_numeral)
qed

end
