(* ===== verification/Listener.thy ===== *)
theory Listener
  imports Auth Targets Relay
begin

section \<open>The proxy listener (src/proxy/listener.rs)\<close>

text \<open>
  The life of one client connection: protocol detection, the TLS upgrade, authentication, a
  second detection, the target, the connection to it, the reply, and the tunnel; and the accept
  loop. The network is the argument \<open>dial\<close>, which says what becomes of a connection attempt;
  the schedule of the tunnel is the argument \<open>sched\<close>.
\<close>

subsection \<open>Detection\<close>

definition detect_client_protocol :: "(io_error, proxy_protocol) async" where
  "detect_client_protocol = await (timeout 5000 (peek 4)) (\<lambda>r.
     case r of
       None \<Rightarrow> ret TCP
     | Some res \<Rightarrow> (case res of
         Inl e \<Rightarrow> fail e
       | Inr bs \<Rightarrow> ret (detect_protocol (fill_buf 4 bs))))"

definition detect_again :: "('e, proxy_protocol) async" where
  "detect_again = await (timeout 5000 (peek_or_read 4)) (\<lambda>r.
     ret (case r of
            None \<Rightarrow> TCP
          | Some res \<Rightarrow> (case res of
              Inl e \<Rightarrow> TCP
            | Inr bs \<Rightarrow> detect_protocol (fill_buf 4 bs))))"

subsection \<open>Connecting to the target\<close>

text \<open>
  A connection attempt succeeds or fails after some milliseconds, or is never answered.
\<close>

datatype dial_answer = Connects nat endpoint | Refuses nat io_error | Unanswered

definition dial_wait :: "nat option \<Rightarrow> ('e, 'a) outcome \<Rightarrow> ('e, 'a) async" where
  "dial_wait delay r s =
     (case (delay, deadline s) of
        (None, None) \<Rightarrow> (Hangs, s)
      | (None, Some d) \<Rightarrow> (Elapsed, s\<lparr>clock := max (clock s) d\<rparr>)
      | (Some t, None) \<Rightarrow> (r, s\<lparr>clock := clock s + t\<rparr>)
      | (Some t, Some d) \<Rightarrow>
          if clock s + t \<le> d then (r, s\<lparr>clock := clock s + t\<rparr>)
          else (Elapsed, s\<lparr>clock := max (clock s) d\<rparr>))"

definition tcp_connect :: "(string \<Rightarrow> dial_answer) \<Rightarrow> string \<Rightarrow> (io_error, endpoint) async" where
  "tcp_connect dial addr s =
     (case dial addr of
        Connects t target \<Rightarrow> dial_wait (Some t) (Done target)
      | Refuses t e \<Rightarrow> dial_wait (Some t) (Failed e)
      | Unanswered \<Rightarrow> dial_wait None Hangs)
       (s\<lparr>dialled := dialled s @ [addr]\<rparr>)"

definition connect_target ::
  "(string \<Rightarrow> dial_answer) \<Rightarrow> proxy_target \<Rightarrow> (io_error \<times> error_type, endpoint) async" where
  "connect_target dial target = await (timeout 10000 (tcp_connect dial (target_address target))) (\<lambda>r.
     case r of
       None \<Rightarrow> fail (IoError TimedOut ''Connection timeout'', Timeout_error)
     | Some res \<Rightarrow> (case res of
         Inl e \<Rightarrow> fail (e, Connection_error)
       | Inr target_stream \<Rightarrow> ret target_stream))"

subsection \<open>The tunnel\<close>

text \<open>
  The two ends are handed to \<open>create_bidirectional_tunnel\<close>. What it took from the client and
  wrote to it is put back into the stream, what it wrote to the target is appended to
  \<open>upstream\<close>. A tunnel that is still open after the schedule has not returned.
\<close>

definition client_end :: "client_stream \<Rightarrow> endpoint" where
  "client_end s = \<lparr>ep_rx = map snd (rx s), ep_limit = tx_limit s, ep_shutdown = shut_error s\<rparr>"

definition run_tunnel ::
  "(direction \<times> nat) list \<Rightarrow> endpoint \<Rightarrow> (io_error, u64 \<times> u64) async" where
  "run_tunnel sched target s =
     (let t = tunnel_run sched (create_bidirectional_tunnel 1024 (client_end s) target);
          s' = s\<lparr>rx := drop (length (rx s) - length (src (c2t t))) (rx s),
                 tx := tx s @ dst (t2c t), tx_limit := dst_limit (t2c t),
                 upstream := upstream s @ dst (c2t t)\<rparr>
      in case tunnel_result t of
           None \<Rightarrow> (Hangs, s')
         | Some (Inl e) \<Rightarrow> (Failed e, s')
         | Some (Inr n) \<Rightarrow> (Done n, s'))"

subsection \<open>The handler\<close>

text \<open>
  The second half of \<open>async_handle_client\<close>, once the protocol is known; the whole of it answers
  the protocol it has found, which its caller sees through a mutable reference, and its result.
\<close>

definition serve_client ::
  "(string \<Rightarrow> dial_answer) \<Rightarrow> (direction \<times> nat) list \<Rightarrow> proxy_protocol \<Rightarrow>
   (io_error \<times> error_type, unit) async" where
  "serve_client dial sched protocol =
     await (map_err (\<lambda>e. (e, Handshake_error)) (parse_target_by_protocol protocol)) (\<lambda>target.
     await (connect_target dial target) (\<lambda>target_stream.
     await (map_err (\<lambda>e. (e, Response_error)) (send_success_response protocol)) (\<lambda>_.
     await (map_err (\<lambda>e. (e, Tunnel_error)) (run_tunnel sched target_stream)) (\<lambda>_.
     ret ()))))"

definition async_handle_client ::
  "(string \<Rightarrow> dial_answer) \<Rightarrow> (direction \<times> nat) list \<Rightarrow>
   ('e, proxy_protocol \<times> (io_error \<times> error_type + unit)) async" where
  "async_handle_client dial sched =
     await detect_again (\<lambda>protocol.
     await (attempt (serve_client dial sched protocol)) (\<lambda>result.
     ret (protocol, result)))"

definition report_result ::
  "proxy_protocol \<Rightarrow> io_error \<times> error_type + unit \<Rightarrow> ('e, unit) async" where
  "report_result protocol result =
     (case result of
        Inr _ \<Rightarrow> ret ()
      | Inl (e, error_type) \<Rightarrow>
          if error_type \<noteq> Tunnel_error
          then await (attempt (send_error_response protocol error_type)) (\<lambda>_. ret ())
          else ret ())"

definition handle_requests ::
  "(string \<Rightarrow> dial_answer) \<Rightarrow> (direction \<times> nat) list \<Rightarrow> ('e, unit) async" where
  "handle_requests dial sched =
     await (async_handle_client dial sched) (\<lambda>(protocol, result). report_result protocol result)"

definition handle_stream ::
  "(string \<Rightarrow> u8 list option) \<Rightarrow> (string \<Rightarrow> dial_answer) \<Rightarrow> (direction \<times> nat) list \<Rightarrow> app_state \<Rightarrow>
   proxy_protocol \<Rightarrow> ('e, unit) async" where
  "handle_stream b64 dial sched state protocol =
     (if require_creds state then
        await (attempt (authenticate_by_protocol b64 protocol state)) (\<lambda>r.
          case r of
            Inl e \<Rightarrow> ret ()
          | Inr authenticated \<Rightarrow> if authenticated then handle_requests dial sched else ret ())
      else handle_requests dial sched)"

definition into_tls :: "('e, unit) async" where
  "into_tls s = (Done (), s\<lparr>kind := Tls\<rparr>)"

definition handle_client ::
  "(string \<Rightarrow> u8 list option) \<Rightarrow> (string \<Rightarrow> dial_answer) \<Rightarrow> (direction \<times> nat) list \<Rightarrow> app_state \<Rightarrow>
   ('e, unit) async" where
  "handle_client b64 dial sched state =
     await (attempt detect_client_protocol) (\<lambda>r.
       case r of
         Inl e \<Rightarrow> ret ()
       | Inr protocol \<Rightarrow>
           if protocol = HTTPS then
             (case tls_acceptor state of
                None \<Rightarrow> ret ()
              | Some accept \<Rightarrow> await (attempt accept) (\<lambda>r.
                  case r of
                    Inl e \<Rightarrow> ret ()
                  | Inr _ \<Rightarrow> await into_tls (\<lambda>_. handle_stream b64 dial sched state protocol)))
           else handle_stream b64 dial sched state protocol)"

text \<open>
  The accept loop: \<open>None\<close> if binding the address fails, which panics, and else the tasks that
  are spawned, in order; the loop ends at the first error of \<open>accept\<close>.
\<close>

fun accept_loop :: "('c \<Rightarrow> 't) \<Rightarrow> (io_error + 'c) list \<Rightarrow> 't list" where
  "accept_loop handler (Inr c # cs) = handler c # accept_loop handler cs"
| "accept_loop handler _ = []"

definition run_proxy_server ::
  "io_error + unit \<Rightarrow> ('c \<Rightarrow> 't) \<Rightarrow> (io_error + 'c) list \<Rightarrow> 't list option" where
  "run_proxy_server bind handler accepts =
     (case bind of Inl e \<Rightarrow> None | Inr _ \<Rightarrow> Some (accept_loop handler accepts))"

subsection \<open>Detection of a client that has begun to send\<close>

lemma idle_eq_trans: "idle_eq s t \<Longrightarrow> idle_eq t u \<Longrightarrow> idle_eq s u"
  by (simp add: idle_eq_def)

lemma timeout_peek:
  assumes "rx s = (t, Byte b) # r" and "t \<le> clock s + d" and "0 < n"
  shows "\<exists>bs u. timeout d (peek n) s = (Done (Some (Inr (b # bs))), u) \<and> idle_eq s u"
proof -
  let ?s = "s\<lparr>deadline := Some (clock s + d)\<rparr>"
  have "due ?s t" "rx ?s = (t, Byte b) # r" using assms by (simp_all add: due_def)
  from peek_bytes [OF this assms(3)] obtain u k where
    u: "peek n ?s = (Done (take k (inbound (rx ?s))), u)" "idle_eq ?s u" and k: "0 < k" by blast
  from k assms(1) obtain bs where "take k (inbound (rx ?s)) = b # bs" by (cases k) auto
  with u show ?thesis
    by (intro exI [of _ bs] exI [of _ "u\<lparr>deadline := deadline s\<rparr>"])
       (simp add: timeout_def idle_eq_def)
qed

lemma detect_first_byte:
  "detect_protocol (fill_buf 4 (0x05 # bs)) = SOCKS5"
  "detect_protocol (fill_buf 4 (0x04 # bs)) = SOCKS4"
  "detect_protocol (fill_buf 4 (0x16 # bs)) = HTTPS"
  by (simp_all add: detect_protocol_def fill_buf_def starts_with_def)

definition first_byte_in_time :: "u8 \<Rightarrow> client_stream \<Rightarrow> bool" where
  "first_byte_in_time b s \<longleftrightarrow> (\<exists>t r. rx s = (t, Byte b) # r \<and> t \<le> clock s + 5000)"

lemma detect_client_first:
  assumes "first_byte_in_time b s" and "\<And>bs. detect_protocol (fill_buf 4 (b # bs)) = p"
  shows "\<exists>u. detect_client_protocol s = (Done p, u) \<and> idle_eq s u"
proof -
  from assms(1) obtain t r where "rx s = (t, Byte b) # r" "t \<le> clock s + 5000"
    by (auto simp: first_byte_in_time_def)
  from timeout_peek [OF this, of 4] obtain bs u where
    "timeout 5000 (peek 4) s = (Done (Some (Inr (b # bs))) :: (io_error, (io_error + u8 list) option) outcome, u)"
    "idle_eq s u" by auto
  with assms(2) show ?thesis
    by (intro exI [of _ u]) (simp add: detect_client_protocol_def await_def ret_def)
qed

lemma detect_again_first:
  assumes "first_byte_in_time b s" and "\<And>bs. detect_protocol (fill_buf 4 (b # bs)) = p"
    and "kind s = Plain"
  shows "\<exists>u. detect_again s = (Done p :: ('e, proxy_protocol) outcome, u) \<and> idle_eq s u"
proof -
  from assms(1) obtain t r where "rx s = (t, Byte b) # r" "t \<le> clock s + 5000"
    by (auto simp: first_byte_in_time_def)
  from timeout_peek [OF this, of 4] obtain bs u where
    p: "timeout 5000 (peek 4) s = (Done (Some (Inr (b # bs))) :: ('e, (io_error + u8 list) option) outcome, u)"
    and u: "idle_eq s u" by auto
  have "timeout 5000 (peek_or_read 4) s =
      (Done (Some (Inr (b # bs))) :: ('e, (io_error + u8 list) option) outcome, u)"
    using p assms(3) by (simp add: timeout_def peek_or_read_def)
  with assms(2) u show ?thesis
    by (intro exI [of _ u]) (simp add: detect_again_def await_def ret_def)
qed

text \<open>\<open>detect_client_protocol\<close> only lets time pass.\<close>

lemma timeout_clock: "clock s \<le> clock (snd (wait_rx s))"
  by (auto simp: wait_rx_def Let_def pass_time_def split: list.splits option.splits)

lemma peek_clock: "clock s \<le> clock (snd (peek n s))"
proof -
  obtain q u where w: "wait_rx s = (q, u)" by (cases "wait_rx s")
  with timeout_clock [of s] show ?thesis
    by (cases q) (auto simp: peek_def await_def ret_def fail_def split: rx_event.splits)
qed

lemma first_byte_later:
  "first_byte_in_time b s \<Longrightarrow> idle_eq s u \<Longrightarrow> clock s \<le> clock u \<Longrightarrow> first_byte_in_time b u"
  by (auto simp: first_byte_in_time_def idle_eq_def)

lemma detect_client_clock: "detect_client_protocol s = (r, u) \<Longrightarrow> clock s \<le> clock u"
  using peek_clock [of "s\<lparr>deadline := Some (clock s + 5000)\<rparr>" 4]
  by (cases "peek 4 (s\<lparr>deadline := Some (clock s + 5000)\<rparr>)")
     (auto simp: detect_client_protocol_def await_def timeout_def ret_def fail_def
       split: outcome.splits option.splits sum.splits)

subsection \<open>Whole sessions\<close>

text \<open>
  The state of a plain client without deadline, whose peer accepts everything and whose first
  byte arrives within five seconds.
\<close>

definition opens_with :: "u8 \<Rightarrow> client_stream \<Rightarrow> bool" where
  "opens_with b s \<longleftrightarrow> first_byte_in_time b s \<and> kind s = Plain \<and> steady s"

lemma detection:
  assumes "opens_with b s" and "\<And>bs. detect_protocol (fill_buf 4 (b # bs)) = p"
  obtains u where "detect_client_protocol s = (Done p, u)" "idle_eq s u" "opens_with b u"
proof -
  from assms obtain u where u: "detect_client_protocol s = (Done p, u)" "idle_eq s u"
    using detect_client_first [of b s p] by (auto simp: opens_with_def)
  moreover from assms(1) u have "opens_with b u"
    using first_byte_later [OF _ u(2) detect_client_clock [OF u(1)]]
    by (auto simp: opens_with_def steady_def idle_eq_def)
  ultimately show ?thesis by (rule that)
qed

lemma handle_client_plain:
  assumes "opens_with b s" and "\<And>bs. detect_protocol (fill_buf 4 (b # bs)) = p" and "p \<noteq> HTTPS"
  obtains u where "handle_client b64 dial sched state s = handle_stream b64 dial sched state p u"
    and "idle_eq s u" and "opens_with b u"
proof -
  from assms(1,2) obtain u where u: "detect_client_protocol s = (Done p, u)" "idle_eq s u"
    "opens_with b u" by (rule detection)
  then have "handle_client b64 dial sched state s = handle_stream b64 dial sched state p u"
    using assms(3) by (simp add: handle_client_def await_def attempt_def)
  with u show ?thesis by (intro that)
qed

lemma handle_requests_plain:
  assumes "opens_with b s" and "\<And>bs. detect_protocol (fill_buf 4 (b # bs)) = p"
  obtains u where "idle_eq s u" and "(handle_requests dial sched :: ('e, unit) async) s =
    await (attempt (serve_client dial sched p)) (report_result p) u"
proof -
  from assms obtain u where u: "detect_again s = (Done p :: ('e, proxy_protocol) outcome, u)" "idle_eq s u"
    using detect_again_first [of b s p] by (auto simp: opens_with_def)
  show ?thesis
    by (rule that [OF u(2)])
       (simp add: handle_requests_def async_handle_client_def await_assoc await_Done [of detect_again s, OF u(1)])
qed

lemma keeps_parse_dials: "dial_frame.keeps (parse_target_by_protocol p)"
proof -
  note i = dial_frame.keeps_intros dial_frame.keeps_if_cond
  have "dial_frame.keeps parse_http_target_from_stream" by (rule dial_frame.keeps_http_target)
  moreover have "dial_frame.keeps parse_https_target_from_stream"
    unfolding parse_https_target_from_stream_def by (intro i)
  moreover have "dial_frame.keeps parse_socks4_target"
    unfolding parse_socks4_target_def by (intro i)
  moreover have "dial_frame.keeps parse_socks5_target"
    unfolding parse_socks5_target_def socks5_ipv4_def socks5_domain_def socks5_ipv6_def by (intro i)
  moreover have "dial_frame.keeps parse_target" by (rule dial_frame.keeps_raw_target)
  ultimately show ?thesis by (cases p) (simp_all add: parse_target_by_protocol_def)
qed

text \<open>An attempt that is answered in time, and one that is not.\<close>

lemma connect_target_done:
  assumes "dial (target_address t) = Connects d target" and "d \<le> 10000"
  shows "\<exists>u. connect_target dial t s = (Done target, u) \<and>
    idle_eq (s\<lparr>dialled := dialled s @ [target_address t]\<rparr>) u"
  using assms
  by (simp add: connect_target_def await_def timeout_def tcp_connect_def dial_wait_def ret_def
      idle_eq_def)

definition dial_failure :: "dial_answer \<Rightarrow> (io_error \<times> error_type) option" where
  "dial_failure answer =
     (case answer of
        Connects d _ \<Rightarrow>
          if d \<le> 10000 then None else Some (IoError TimedOut ''Connection timeout'', Timeout_error)
      | Refuses d e \<Rightarrow>
          if d \<le> 10000 then Some (e, Connection_error)
          else Some (IoError TimedOut ''Connection timeout'', Timeout_error)
      | Unanswered \<Rightarrow> Some (IoError TimedOut ''Connection timeout'', Timeout_error))"

lemma connect_target_failed:
  assumes "dial_failure (dial (target_address t)) = Some e"
  shows "\<exists>u. connect_target dial t s = (Failed e, u) \<and>
    idle_eq (s\<lparr>dialled := dialled s @ [target_address t]\<rparr>) u"
  using assms
  by (auto simp: dial_failure_def connect_target_def await_def timeout_def tcp_connect_def
      dial_wait_def ret_def fail_def idle_eq_def split: dial_answer.splits if_splits)

lemma run_tunnel_done:
  assumes "map snd (rx s) = map Byte data @ [Fin]" and "steady s"
    and "target = \<lparr>ep_rx = map Byte answer @ [Fin], ep_limit = None, ep_shutdown = None\<rparr>"
    and "length data < length (steps_of C2T sched)" and "length answer < length (steps_of T2C sched)"
  shows "\<exists>n u. run_tunnel sched target s = (Done n, u) \<and> tx u = tx s @ answer \<and>
    upstream u = upstream s @ data \<and> dialled u = dialled s"
proof -
  have r: "tunnel_result (tunnel_run sched (create_bidirectional_tunnel 1024 (client_end s) target))
      = Some (Inr (of_nat (length data), of_nat (length answer)))"
    using assms
    by (intro tunnel_run_completes [of _ data "[]" _ answer "[]"]) (simp_all add: client_end_def steady_def)
  let ?t = "tunnel_run sched (create_bidirectional_tunnel 1024 (client_end s) target)"
  have d: "dst (c2t ?t) = data" "dst (t2c ?t) = answer"
    using tunnel_run_success [OF r] assms(1,3) by (simp_all add: client_end_def)
  have "run_tunnel sched target s = (Done (of_nat (length data), of_nat (length answer)),
      s\<lparr>rx := drop (length (rx s) - length (src (c2t ?t))) (rx s), tx := tx s @ dst (t2c ?t),
        tx_limit := dst_limit (t2c ?t), upstream := upstream s @ dst (c2t ?t)\<rparr>)"
    by (simp add: run_tunnel_def r Let_def)
  then show ?thesis
    by (intro exI conjI, assumption) (simp_all add: d)
qed

definition success_reply :: "proxy_protocol \<Rightarrow> u8 list" where
  "success_reply p =
     (case p of HTTP \<Rightarrow> http_connect_response | SOCKS4 \<Rightarrow> socks4_response True
      | SOCKS5 \<Rightarrow> socks5_response True | _ \<Rightarrow> [])"

lemma send_success_done:
  "steady s \<Longrightarrow> send_success_response p s = (Done (), s\<lparr>tx := tx s @ success_reply p\<rparr>)"
  by (cases p) (simp_all add: send_success_response_def success_reply_def ret_def write_all_def
      steady_def send_http_connect_response_def send_socks4_response_def send_socks5_response_def)

definition error_reply :: "proxy_protocol \<Rightarrow> error_type \<Rightarrow> u8 list" where
  "error_reply p e =
     (case p of
        HTTP \<Rightarrow>
          (case e of
             Handshake_error \<Rightarrow> as_bytes ''HTTP/1.1 400 Bad Request'' @ crlf2
           | Connection_error \<Rightarrow> as_bytes ''HTTP/1.1 502 Bad Gateway'' @ crlf2
           | Timeout_error \<Rightarrow> as_bytes ''HTTP/1.1 504 Gateway Timeout'' @ crlf2
           | _ \<Rightarrow> [])
      | SOCKS4 \<Rightarrow> socks4_response False
      | SOCKS5 \<Rightarrow> socks5_response False
      | _ \<Rightarrow> [])"

lemma send_error_done:
  "steady s \<Longrightarrow> send_error_response p e s = (Done (), s\<lparr>tx := tx s @ error_reply p e\<rparr>)"
  by (cases p; cases e) (simp_all add: send_error_response_def error_reply_def ret_def
      write_all_def steady_def send_socks4_response_def send_socks5_response_def)

lemma report_done: "report_result p (Inr ()) s = (Done (), s)"
  by (simp add: report_result_def ret_def)

lemma report_failed:
  assumes "steady s" and "et \<noteq> Tunnel_error"
  shows "report_result p (Inl (e, et)) s = (Done (), s\<lparr>tx := tx s @ error_reply p et\<rparr>)"
  using send_error_done [OF assms(1)] assms(2)
  by (simp add: report_result_def await_def attempt_def ret_def)

text \<open>From the target on, with a target that answers and closes, and with one that fails.\<close>

lemma serve_done:
  assumes "parse_target_by_protocol p s = (Done t, v)" and "steady v"
    and "map snd (rx v) = map Byte data @ [Fin]"
    and "dial (target_address t) =
      Connects d \<lparr>ep_rx = map Byte answer @ [Fin], ep_limit = None, ep_shutdown = None\<rparr>"
    and "d \<le> 10000" and "length data < length (steps_of C2T sched)"
    and "length answer < length (steps_of T2C sched)"
  shows "\<exists>u. serve_client dial sched p s = (Done (), u) \<and>
    tx u = tx v @ success_reply p @ answer \<and> upstream u = upstream v @ data \<and>
    dialled u = dialled v @ [target_address t]"
proof -
  let ?ep = "\<lparr>ep_rx = map Byte answer @ [Fin], ep_limit = None, ep_shutdown = None\<rparr>"
  from connect_target_done [of dial, OF assms(4,5), of v] obtain w where
    w: "connect_target dial t v = (Done ?ep, w)"
      "idle_eq (v\<lparr>dialled := dialled v @ [target_address t]\<rparr>) w" by blast
  from w(2) assms(2) have sw: "steady w" by (simp add: idle_eq_def steady_def)
  let ?x = "w\<lparr>tx := tx w @ success_reply p\<rparr>"
  have "map snd (rx ?x) = map Byte data @ [Fin]" "steady ?x"
    using w(2) assms(3) sw by (simp_all add: idle_eq_def steady_def)
  from run_tunnel_done [OF this refl assms(6,7)] obtain n u where
    u: "run_tunnel sched ?ep ?x = (Done n, u)" "tx u = tx ?x @ answer"
      "upstream u = upstream ?x @ data" "dialled u = dialled ?x" by blast
  have "serve_client dial sched p s = (Done (), u)"
    using assms(1) w(1) u(1) send_success_done [OF sw]
    by (simp add: serve_client_def await_def map_err_def ret_def)
  with u w(2) show ?thesis by (simp add: idle_eq_def)
qed

lemma serve_dial_failed:
  assumes "parse_target_by_protocol p s = (Done t, v)"
    and "dial_failure (dial (target_address t)) = Some e"
  shows "\<exists>u. serve_client dial sched p s = (Failed e, u) \<and>
    idle_eq (v\<lparr>dialled := dialled v @ [target_address t]\<rparr>) u"
  using connect_target_failed [of dial, OF assms(2), of v] assms(1)
  by (auto simp: serve_client_def await_def map_err_def)

lemma serve_parse_failed:
  assumes "parse_target_by_protocol p s = (Failed e, v)"
  shows "serve_client dial sched p s = (Failed (e, Handshake_error), v)"
  using assms by (simp add: serve_client_def await_def map_err_def)

text \<open>
  A client of a protocol whose request is a fixed exchange, without authentication: the whole of
  its session.
\<close>

lemma handled_after:
  assumes "opens_with b s" and "\<And>bs. detect_protocol (fill_buf 4 (b # bs)) = p"
    and "p \<noteq> HTTPS" and "\<not> require_creds state"
  obtains u where "idle_eq s u" and "(handle_client b64 dial sched state :: ('e, unit) async) s =
    await (attempt (serve_client dial sched p)) (report_result p) u"
proof -
  from assms(1-3) obtain v where v: "(handle_client b64 dial sched state :: ('e, unit) async) s
      = handle_stream b64 dial sched state p v" "idle_eq s v" "opens_with b v"
    by (rule handle_client_plain)
  from v(3) assms(2) obtain u where "idle_eq v u"
    "(handle_requests dial sched :: ('e, unit) async) v =
      await (attempt (serve_client dial sched p)) (report_result p) u"
    by (rule handle_requests_plain)
  with v idle_eq_trans [OF v(2)] assms(4) show ?thesis
    by (intro that [of u]) (simp_all add: handle_stream_def)
qed

lemma transcript_parse:
  assumes "transcript (parse_target_by_protocol p) i out r"
    and "steady u" and "delivers u i es"
  obtains v where "parse_target_by_protocol p u = (r, v)" "steady v" "map snd (rx v) = es"
    "tx v = tx u @ out" "dialled v = dialled u" "upstream v = upstream u"
proof -
  have "delivers u (i @ []) es" using assms(3) by simp
  with assms(1,2) obtain v where v: "parse_target_by_protocol p u = (r, v)" "steady v"
    "delivers v [] es" "tx v = tx u @ out" by (rule transcriptD)
  moreover from dial_frame.keepsD [OF keeps_parse_dials v(1)]
  have "dialled v = dialled u" "upstream v = upstream u" by (simp_all add: same_dials_def)
  ultimately show ?thesis by (intro that [of v]) (simp_all add: delivers_def)
qed

lemma session_done:
  assumes "opens_with b s" and "\<And>bs. detect_protocol (fill_buf 4 (b # bs)) = p"
    and "p \<noteq> HTTPS" and "\<not> require_creds state"
    and "transcript (parse_target_by_protocol p) i out (Done t)"
    and "delivers s i (map Byte data @ [Fin])"
    and "dial (target_address t) =
      Connects d \<lparr>ep_rx = map Byte answer @ [Fin], ep_limit = None, ep_shutdown = None\<rparr>"
    and "d \<le> 10000" and "length data < length (steps_of C2T sched)"
    and "length answer < length (steps_of T2C sched)"
  shows "\<exists>u. handle_client b64 dial sched state s = (Done () :: ('e, unit) outcome, u) \<and>
    tx u = tx s @ out @ success_reply p @ answer \<and> upstream u = upstream s @ data \<and>
    dialled u = dialled s @ [target_address t]"
proof -
  from handled_after [OF assms(1-4)] obtain u where u: "idle_eq s u"
    "(handle_client b64 dial sched state :: ('e, unit) async) s =
      await (attempt (serve_client dial sched p)) (report_result p) u" by blast
  from assms(1,6) u(1) have "steady u" "delivers u i (map Byte data @ [Fin])"
    by (simp_all add: idle_eq_def opens_with_def steady_def delivers_def)
  with assms(5) obtain v where v: "parse_target_by_protocol p u = (Done t, v)" "steady v"
    "map snd (rx v) = map Byte data @ [Fin]" "tx v = tx u @ out" "dialled v = dialled u"
    "upstream v = upstream u" by (rule transcript_parse)
  from serve_done [of p u t v data dial d answer sched, OF v(1-3) assms(7-10)] obtain w where
    "serve_client dial sched p u = (Done (), w)" "tx w = tx v @ success_reply p @ answer"
    "upstream w = upstream v @ data" "dialled w = dialled v @ [target_address t]" by blast
  with u v show ?thesis
    by (intro exI [of _ w]) (simp add: await_def attempt_def report_done idle_eq_def)
qed

lemma session_dial_failed:
  assumes "opens_with b s" and "\<And>bs. detect_protocol (fill_buf 4 (b # bs)) = p"
    and "p \<noteq> HTTPS" and "\<not> require_creds state"
    and "transcript (parse_target_by_protocol p) i out (Done t)" and "delivers s i es"
    and "dial_failure (dial (target_address t)) = Some (e, et)"
  shows "\<exists>u. handle_client b64 dial sched state s = (Done () :: ('e, unit) outcome, u) \<and>
    tx u = tx s @ out @ error_reply p et \<and> upstream u = upstream s \<and>
    dialled u = dialled s @ [target_address t]"
proof -
  from handled_after [OF assms(1-4)] obtain u where u: "idle_eq s u"
    "(handle_client b64 dial sched state :: ('e, unit) async) s =
      await (attempt (serve_client dial sched p)) (report_result p) u" by blast
  from assms(1,6) u(1) have "steady u" "delivers u i es"
    by (simp_all add: idle_eq_def opens_with_def steady_def delivers_def)
  with assms(5) obtain v where v: "parse_target_by_protocol p u = (Done t, v)" "steady v"
    "map snd (rx v) = es" "tx v = tx u @ out" "dialled v = dialled u"
    "upstream v = upstream u" by (rule transcript_parse)
  from serve_dial_failed [of p u t v dial, OF v(1) assms(7)] obtain w where
    w: "serve_client dial sched p u = (Failed (e, et), w)"
    "idle_eq (v\<lparr>dialled := dialled v @ [target_address t]\<rparr>) w" by blast
  from w(2) v(2) have sw: "steady w" by (simp add: idle_eq_def steady_def)
  have et: "et \<noteq> Tunnel_error"
    using assms(7) by (auto simp: dial_failure_def split: dial_answer.splits if_splits)
  from u w v report_failed [OF sw et, of p e] show ?thesis
    by (intro exI [of _ "w\<lparr>tx := tx w @ error_reply p et\<rparr>"])
       (simp add: await_def attempt_def idle_eq_def)
qed

text \<open>
  C3: a whole SOCKS5 session without authentication. The client sends a greeting, a \<open>CONNECT\<close>
  request and data and closes, in any segments, with its first byte within five seconds; the
  target is reached within ten seconds, answers and closes. Then the proxy dials exactly the
  requested address, the client receives \<open>05 00\<close>, the success reply and the target's bytes, and
  the target receives the client's data, under every schedule of the tunnel that is long enough.
\<close>

theorem socks5_session:
  assumes "opens_with 5 s" and "\<not> require_creds state"
    and "length methods < 256" and "encodable a"
    and "delivers s ([5, of_nat (length methods)] @ methods @ [5, 1, rsv] @ encode_address a @
      u16_be_bytes p) (map Byte data @ [Fin])"
    and "dial (target_address \<lparr>host = address_host a, port = p\<rparr>) =
      Connects d \<lparr>ep_rx = map Byte answer @ [Fin], ep_limit = None, ep_shutdown = None\<rparr>"
    and "d \<le> 10000" and "length data < length (steps_of C2T sched)"
    and "length answer < length (steps_of T2C sched)"
  shows "\<exists>u. handle_client b64 dial sched state s = (Done () :: (io_error, unit) outcome, u) \<and>
    tx u = tx s @ [5, 0] @ socks5_response True @ answer \<and> upstream u = upstream s @ data \<and>
    dialled u = dialled s @ [target_address \<lparr>host = address_host a, port = p\<rparr>]"
proof -
  have "transcript (parse_target_by_protocol SOCKS5)
    ([5, of_nat (length methods)] @ methods @ [5, 1, rsv] @ encode_address a @ u16_be_bytes p)
    [5, 0] (Done \<lparr>host = address_host a, port = p\<rparr>)"
    unfolding parse_target_by_protocol_def proxy_protocol.case
    by (rule socks5_request_parsed [OF assms(3,4)])
  from session_done [where p = SOCKS5 and dial = dial, OF assms(1) detect_first_byte(1) _ assms(2)
      this assms(5-9)]
  show ?thesis by (simp add: success_reply_def)
qed

definition sample_dial :: "string \<Rightarrow> dial_answer" where
  "sample_dial addr =
     (if addr = ''a:80'' then Connects 20 \<lparr>ep_rx = [Byte 9, Fin], ep_limit = None, ep_shutdown = None\<rparr>
      else if addr = ''10.0.0.1:80'' then Refuses 3 (IoError (OtherKind ''refused'') ''connection refused'')
      else Unanswered)"

definition open_state :: app_state where
  "open_state = app_state_new False None None None"

definition sample_socks5 :: client_stream where
  "sample_socks5 = sample_client Plain (arrives 3 [5, 1, 0] @ arrives 4 [5, 1, 0, 3, 1, 97, 0, 80] @
     arrives 7 [1, 2] @ [(8, Fin)])"

theorem socks5_session_witness:
  "\<exists>u. handle_client sample_b64 sample_dial
       [(C2T, 2), (C2T, 9), (T2C, 9), (C2T, 1), (T2C, 1)] open_state sample_socks5
     = (Done () :: (io_error, unit) outcome, u) \<and>
   tx u = [5, 0] @ socks5_response True @ [9] \<and> upstream u = [1, 2] \<and> dialled u = [''a:80'']"
proof -
  have e: "encodable (Domain ''a'')" "from_utf8 [97] = Some ''a''" "u16_be_bytes 80 = [0, 80]" "as_bytes ''a'' = [97]"
    "target_address \<lparr>host = ''a'', port = 80\<rparr> = ''a:80''" by code_simp+
  have "opens_with 5 sample_socks5"
    by (simp add: opens_with_def first_byte_in_time_def sample_socks5_def arrives_def)
  moreover have "delivers sample_socks5 ([5, of_nat (length [0])] @ [0] @ [5, 1, 0] @
      encode_address (Domain ''a'') @ u16_be_bytes 80) (map Byte [1, 2] @ [Fin])"
    by (simp add: delivers_def sample_socks5_def arrives_def e)
  ultimately have "\<exists>u. handle_client sample_b64 sample_dial
       [(C2T, 2), (C2T, 9), (T2C, 9), (C2T, 1), (T2C, 1)] open_state sample_socks5
     = (Done () :: (io_error, unit) outcome, u) \<and>
   tx u = tx sample_socks5 @ [5, 0] @ socks5_response True @ [9] \<and>
   upstream u = upstream sample_socks5 @ [1, 2] \<and>
   dialled u = dialled sample_socks5 @
     [target_address \<lparr>host = address_host (Domain ''a''), port = 80\<rparr>]"
    by (intro socks5_session [where d = 20 and methods = "[0]" and rsv = 0])
       (simp_all add: e open_state_def app_state_new_def sample_dial_def steps_of_def)
  then show ?thesis by (simp add: sample_socks5_def e)
qed

text \<open>
  C37: a SOCKS5 session whose target refuses the connection, or cannot be reached within ten
  seconds: the client gets the failure reply after \<open>05 00\<close>, and nothing more is sent anywhere.
\<close>

theorem socks5_session_dial_failure:
  assumes "opens_with 5 s" and "\<not> require_creds state"
    and "length methods < 256" and "encodable a"
    and "delivers s ([5, of_nat (length methods)] @ methods @ [5, 1, rsv] @ encode_address a @
      u16_be_bytes p) es"
    and "dial_failure (dial (target_address \<lparr>host = address_host a, port = p\<rparr>)) = Some (e, et)"
  shows "\<exists>u. handle_client b64 dial sched state s = (Done () :: (io_error, unit) outcome, u) \<and>
    tx u = tx s @ [5, 0] @ socks5_response False \<and> upstream u = upstream s \<and>
    dialled u = dialled s @ [target_address \<lparr>host = address_host a, port = p\<rparr>]"
proof -
  have "transcript (parse_target_by_protocol SOCKS5)
    ([5, of_nat (length methods)] @ methods @ [5, 1, rsv] @ encode_address a @ u16_be_bytes p)
    [5, 0] (Done \<lparr>host = address_host a, port = p\<rparr>)"
    unfolding parse_target_by_protocol_def proxy_protocol.case
    by (rule socks5_request_parsed [OF assms(3,4)])
  from session_dial_failed [where p = SOCKS5 and dial = dial, OF assms(1) detect_first_byte(1) _
      assms(2) this assms(5,6)]
  show ?thesis by (simp add: error_reply_def)
qed

definition sample_socks5_ip :: client_stream where
  "sample_socks5_ip = sample_client Plain (arrives 3 [5, 1, 0, 5, 1, 0, 1, 10, 0, 0, 1, 0, 80])"

theorem socks5_session_dial_failure_witness:
  "\<exists>u. handle_client sample_b64 sample_dial [] open_state sample_socks5_ip
     = (Done () :: (io_error, unit) outcome, u) \<and>
   tx u = [5, 0] @ socks5_response False \<and> upstream u = [] \<and> dialled u = [''10.0.0.1:80'']"
proof -
  have e: "encodable (IPv4 10 0 0 1)" "u16_be_bytes 80 = [0, 80]"
    "target_address \<lparr>host = address_host (IPv4 10 0 0 1), port = 80\<rparr> = ''10.0.0.1:80''" by code_simp+
  have "opens_with 5 sample_socks5_ip"
    by (simp add: opens_with_def first_byte_in_time_def sample_socks5_ip_def arrives_def)
  moreover have "delivers sample_socks5_ip ([5, of_nat (length [0])] @ [0] @ [5, 1, 0] @
      encode_address (IPv4 10 0 0 1) @ u16_be_bytes 80) []"
    by (simp add: delivers_def sample_socks5_ip_def arrives_def e)
  moreover have "dial_failure (sample_dial (target_address \<lparr>host = address_host (IPv4 10 0 0 1), port = 80\<rparr>))
      = Some (IoError (OtherKind ''refused'') ''connection refused'', Connection_error)"
    by (simp only: e) (simp add: sample_dial_def dial_failure_def)
  moreover have "\<not> require_creds open_state" by (simp add: open_state_def app_state_new_def)
  ultimately have "\<exists>u. handle_client sample_b64 sample_dial [] open_state sample_socks5_ip
     = (Done () :: (io_error, unit) outcome, u) \<and>
   tx u = tx sample_socks5_ip @ [5, 0] @ socks5_response False \<and>
   upstream u = upstream sample_socks5_ip \<and>
   dialled u = dialled sample_socks5_ip @
     [target_address \<lparr>host = address_host (IPv4 10 0 0 1), port = 80\<rparr>]"
    using e(1) by (intro socks5_session_dial_failure [where methods = "[0]" and rsv = 0]) simp_all
  then show ?thesis by (simp only: e) (simp add: sample_socks5_ip_def)
qed

subsection \<open>Credentials\<close>

lemma keeps_detect: "dial_frame.keeps detect_client_protocol"
  and keeps_input_detect: "\<And>s r u. detect_client_protocol s = (r, u) \<Longrightarrow> rx u = rx s"
proof -
  show "dial_frame.keeps detect_client_protocol"
    unfolding detect_client_protocol_def by (intro dial_frame.keeps_intros)
  fix s r u assume a: "detect_client_protocol s = (r, u)"
  have p: "rx (snd (peek n v)) = rx v" for n v
  proof -
    obtain q w where w: "wait_rx v = (q, w)" by (cases "wait_rx v")
    with wait_rx_frame [OF w] show ?thesis
      by (cases q) (auto simp: peek_def await_def ret_def fail_def split: rx_event.splits)
  qed
  show "rx u = rx s"
    using a p [of 4 "s\<lparr>deadline := Some (clock s + 5000)\<rparr>"]
    by (cases "peek 4 (s\<lparr>deadline := Some (clock s + 5000)\<rparr>)")
       (auto simp: detect_client_protocol_def await_def timeout_def ret_def fail_def
         split: outcome.splits option.splits sum.splits)
qed

lemma keeps_authenticate: "dial_frame.keeps (authenticate_by_protocol b64 p state)"
proof -
  note i = dial_frame.keeps_intros dial_frame.keeps_if_cond
  have io: "dial_frame.keeps (io m)" if "dial_frame.keeps m" for m :: "(io_error, 'a) async"
    using that unfolding io_def by (rule dial_frame.keeps_map_err)
  have u: "dial_frame.keeps (from_utf8_or_fail bs)" for bs
    unfolding from_utf8_or_fail_def by (intro i)
  have h: "dial_frame.keeps (authenticate_http_or_https b64 state)"
    unfolding authenticate_http_or_https_def Let_def send_http_auth_required_response_def
    by (intro i) (simp_all add: io_def i)
  have s4: "dial_frame.keeps (authenticate_socks4 state)"
    unfolding authenticate_socks4_def Let_def io_def by (intro i)
  have s5: "dial_frame.keeps (authenticate_socks5 state)"
    unfolding authenticate_socks5_def Let_def io_def by (intro i u)
  show ?thesis
    by (cases p) (simp_all add: authenticate_by_protocol_def h s4 s5 dial_frame.keeps_ret)
qed

text \<open>When credentials are required, whoever gets to the request has shown them.\<close>

lemma handle_stream_guard:
  assumes "require_creds state" and "dialled (snd (handle_stream b64 dial sched state p s)) \<noteq> dialled s"
  shows "shows_credentials b64 p state (inbound (rx s))"
proof (rule ccontr)
  assume no: "\<not> shows_credentials b64 p state (inbound (rx s))"
  obtain q u where a: "authenticate_by_protocol b64 p state s = (q, u)"
    by (cases "authenticate_by_protocol b64 p state s")
  have "q \<noteq> Done True"
    using accepted_shows_credentials [of b64 p state s u] a no by auto
  moreover have "dialled u = dialled s"
    using dial_frame.keepsD [OF keeps_authenticate a] by (simp add: same_dials_def)
  ultimately have "dialled (snd (handle_stream b64 dial sched state p s)) = dialled s"
    using a assms(1) by (cases q) (auto simp: handle_stream_def await_def attempt_def ret_def)
  with assms(2) show False ..
qed

text \<open>
  C1: no connection is opened for a client without credentials. When credentials are required
  and anything is dialled on behalf of a client, then the client has sent the configured
  credentials in the form of the protocol that was detected for it, on the plain connection, or, if
  this is HTTPS, inside the TLS session that the acceptor has set up on it; whatever the segmentation, the timing, the network and the
  errors. (The acceptor itself is assumed to open no connection.)
\<close>

theorem no_dial_without_credentials:
  assumes "require_creds state"
    and "\<And>accept s. tls_acceptor state = Some accept \<Longrightarrow> same_dials s (snd (accept s))"
    and "dialled (snd (handle_client b64 dial sched state s :: (io_error, unit) outcome \<times> client_stream))
      \<noteq> dialled s"
  shows "(\<exists>p u. detect_client_protocol s = (Done p, u) \<and> p \<noteq> HTTPS \<and>
       shows_credentials b64 p state (inbound (rx s))) \<or>
    (\<exists>accept u v. detect_client_protocol s = (Done HTTPS, u) \<and>
       tls_acceptor state = Some accept \<and> rx u = rx s \<and> accept u = (Done (), v) \<and>
       shows_credentials b64 HTTPS state (inbound (rx v)))"
proof -
  obtain q u where d: "detect_client_protocol s = (q, u)" by (cases "detect_client_protocol s")
  note u = keeps_input_detect [OF d]
  have du: "dialled u = dialled s"
    using dial_frame.keepsD [OF keeps_detect d] by (simp add: same_dials_def)
  have stream: "shows_credentials b64 p state (inbound (rx v))"
    if "dialled (snd (handle_stream b64 dial sched state p v :: (io_error, unit) outcome \<times> client_stream))
      \<noteq> dialled v" for p v
    using handle_stream_guard [OF assms(1)] that by blast
  from assms(3) d du obtain p where q: "q = Done p"
    by (cases q) (auto simp: handle_client_def await_def attempt_def ret_def)
  show ?thesis
  proof (cases "p = HTTPS")
    case False
    with assms(3) d q du have "dialled (snd (handle_stream b64 dial sched state p u
        :: (io_error, unit) outcome \<times> client_stream)) \<noteq> dialled u"
      by (simp add: handle_client_def await_def attempt_def)
    from stream [OF this] u have "shows_credentials b64 p state (inbound (rx s))" by auto
    with d q False show ?thesis by blast
  next
    case True
    with assms(3) d q du obtain accept where a: "tls_acceptor state = Some accept"
      by (cases "tls_acceptor state") (auto simp: handle_client_def await_def attempt_def ret_def)
    obtain r v where v: "accept u = (r, v)" by (cases "accept u")
    have dv: "dialled v = dialled s"
      using assms(2) [OF a, of u] v du by (simp add: same_dials_def)
    from assms(3) d q True a v dv have r: "r = Done ()"
      by (cases r) (auto simp: handle_client_def await_def attempt_def ret_def)
    from assms(3) d q True a v r dv have "dialled (snd (handle_stream b64 dial sched state HTTPS
        (v\<lparr>kind := Tls\<rparr>) :: (io_error, unit) outcome \<times> client_stream)) \<noteq> dialled (v\<lparr>kind := Tls\<rparr>)"
      by (simp add: handle_client_def await_def attempt_def into_tls_def)
    then have "shows_credentials b64 HTTPS state (inbound (rx v))"
      using stream [of HTTPS "v\<lparr>kind := Tls\<rparr>"] by (simp del: shows_credentials.simps)
    with a v r u d q True show ?thesis
      by (intro disjI2 exI [of _ accept] exI [of _ u] exI [of _ v] conjI) (simp_all only:)
  qed
qed

subsection \<open>HTTP sessions\<close>

text \<open>A plain client whose request arrives at once, within five seconds.\<close>

definition sends_at_once :: "nat \<Rightarrow> u8 list \<Rightarrow> (nat \<times> rx_event) list \<Rightarrow> client_stream \<Rightarrow> bool" where
  "sends_at_once t bs later s \<longleftrightarrow> steady s \<and> kind s = Plain \<and> lags s = [] \<and> clock s \<le> t \<and>
     t \<le> clock s + 5000 \<and> bs \<noteq> [] \<and> rx s = arrives t bs @ later \<and> arrives_after t later"

lemma sends_at_once_peek:
  assumes "sends_at_once t bs later s"
  shows "peek n s = (Done (take n bs), s\<lparr>clock := t\<rparr>)"
    and "timeout 5000 (peek n) s =
      (Done (Some (Inr (take n bs))) :: ('e, (io_error + u8 list) option) outcome, s\<lparr>clock := t\<rparr>)"
proof -
  show "peek n s = (Done (take n bs), s\<lparr>clock := t\<rparr>)"
    using assms by (intro peek_segment) (auto simp: sends_at_once_def steady_def due_def)
  let ?s = "s\<lparr>deadline := Some (clock s + 5000)\<rparr>"
  have "peek n ?s = (Done (take n bs), ?s\<lparr>clock := t\<rparr>)"
    using assms by (intro peek_segment) (auto simp: sends_at_once_def due_def)
  then show "timeout 5000 (peek n) s =
      (Done (Some (Inr (take n bs))) :: ('e, (io_error + u8 list) option) outcome, s\<lparr>clock := t\<rparr>)"
    using assms by (simp add: timeout_def sends_at_once_def steady_def)
qed

lemma sends_at_once_later:
  "sends_at_once t bs later s \<Longrightarrow> sends_at_once t bs later (s\<lparr>clock := t\<rparr>)"
  by (auto simp: sends_at_once_def steady_def)

lemma http_handled:
  assumes "sends_at_once t bs later s" and "detect_protocol (fill_buf 4 (take 4 bs)) = HTTP"
    and "require_creds state \<Longrightarrow>
      extract_proxy_auth_header (from_utf8_lossy (take 4096 bs)) = Some v \<and>
      validate_auth_header b64 v state = Inr ()"
  shows "(handle_client b64 dial sched state :: ('e, unit) async) s =
    await (attempt (serve_client dial sched HTTP)) (report_result HTTP) (s\<lparr>clock := t\<rparr>)"
proof -
  let ?s = "s\<lparr>clock := t\<rparr>"
  note later = sends_at_once_later [OF assms(1)]
  have d: "detect_client_protocol s = (Done HTTP, ?s)"
    using sends_at_once_peek(2) [where 'e = io_error, OF assms(1), of 4] assms(2)
    by (simp add: detect_client_protocol_def await_def ret_def)
  have k: "kind ?s = Plain" using assms(1) by (simp add: sends_at_once_def)
  have "timeout 5000 (peek_or_read 4) ?s =
      (Done (Some (Inr (take 4 bs))) :: ('e, (io_error + u8 list) option) outcome, ?s)"
    using sends_at_once_peek(2) [OF later, of 4] k by (simp add: timeout_def peek_or_read_def)
  then have a: "detect_again ?s = (Done HTTP :: ('e, proxy_protocol) outcome, ?s)"
    using assms(2) by (simp add: detect_again_def await_def ret_def)
  have "(handle_requests dial sched :: ('e, unit) async) ?s =
      await (attempt (serve_client dial sched HTTP)) (report_result HTTP) ?s"
    by (simp add: handle_requests_def async_handle_client_def await_assoc
        await_Done [of detect_again ?s, OF a])
  moreover have "authenticate_by_protocol b64 HTTP state ?s = (Done True, ?s)"
    if "require_creds state"
  proof -
    have "io (peek_or_read 4096) ?s = (Done (take 4096 bs), ?s)"
      using sends_at_once_peek(1) [OF later, of 4096] k by (simp add: peek_or_read_def)
    moreover have "take 4096 bs \<noteq> []" using assms(1) by (simp add: sends_at_once_def)
    ultimately show ?thesis
      using assms(3) [OF that]
      by (simp add: authenticate_by_protocol_def authenticate_http_or_https_def Let_def
          await_Done [of "io (peek_or_read 4096)" ?s "take 4096 bs" ?s] del: io_Done)
  qed
  ultimately have "(handle_stream b64 dial sched state HTTP :: ('e, unit) async) ?s =
      await (attempt (serve_client dial sched HTTP)) (report_result HTTP) ?s"
    by (cases "require_creds state") (simp_all add: handle_stream_def await_def attempt_def)
  with d show ?thesis by (simp add: handle_client_def await_def attempt_def)
qed

text \<open>A request line of three words, and what follows it.\<close>

definition request_bytes :: "string \<Rightarrow> string \<Rightarrow> string \<Rightarrow> string \<Rightarrow> u8 list" where
  "request_bytes m u v rest = as_bytes (m @ '' '' @ u @ '' '' @ v @ CHR 0x0D # CHR 0x0A # rest)"

definition http_target :: "string \<Rightarrow> string \<Rightarrow> io_error + proxy_target" where
  "http_target m u = (if m = ''CONNECT'' then parse_connect_target u else parse_http_target u)"

definition http_word :: "string \<Rightarrow> bool" where
  "http_word w \<longleftrightarrow> is_ascii w \<and> w \<noteq> [] \<and> list_all (\<lambda>c. \<not> ascii_ws c) w"

lemma http_parsed:
  assumes "sends_at_once t (request_bytes m u v rest) later s"
    and "length (request_bytes m u v rest) \<le> 8192" and "list_all http_word [m, u, v]"
  shows "parse_target_by_protocol HTTP (s\<lparr>clock := t\<rparr>) =
    from_result (http_target m u) (s\<lparr>clock := t, rx := later\<rparr>)"
proof -
  have "parse_http_target_from_stream (s\<lparr>clock := t\<rparr>) =
      from_result (if m = ''CONNECT'' then parse_connect_target u else parse_http_target u)
        (s\<lparr>clock := t, clock := t, rx := later\<rparr>)"
    using assms
    by (intro request_line_parsed [where v = v and rest = rest])
       (simp_all add: sends_at_once_def request_bytes_def http_word_def steady_def)
  then show ?thesis by (simp add: parse_target_by_protocol_def http_target_def)
qed

lemma http_session_run:
  assumes "sends_at_once t (request_bytes m u v rest) later s"
    and "length (request_bytes m u v rest) \<le> 8192" and "list_all http_word [m, u, v]"
    and "detect_protocol (fill_buf 4 (take 4 (request_bytes m u v rest))) = HTTP"
    and "require_creds state \<Longrightarrow>
      extract_proxy_auth_header (from_utf8_lossy (take 4096 (request_bytes m u v rest))) = Some h \<and>
      validate_auth_header b64 h state = Inr ()"
    and "http_target m u = Inr target" and "map snd later = map Byte data @ [Fin]"
    and "dial (target_address target) =
      Connects d \<lparr>ep_rx = map Byte answer @ [Fin], ep_limit = None, ep_shutdown = None\<rparr>"
    and "d \<le> 10000" and "length data < length (steps_of C2T sched)"
    and "length answer < length (steps_of T2C sched)"
  shows "\<exists>u. handle_client b64 dial sched state s = (Done () :: (io_error, unit) outcome, u) \<and>
    tx u = tx s @ http_connect_response @ answer \<and> upstream u = upstream s @ data \<and>
    dialled u = dialled s @ [target_address target]"
proof -
  let ?v = "s\<lparr>clock := t, rx := later\<rparr>"
  have "parse_target_by_protocol HTTP (s\<lparr>clock := t\<rparr>) = (Done target, ?v)"
    using http_parsed [OF assms(1-3)] assms(6) by (simp add: from_result_def ret_def)
  moreover have "steady ?v" using assms(1) by (simp add: sends_at_once_def steady_def)
  ultimately obtain w where
    w: "serve_client dial sched HTTP (s\<lparr>clock := t\<rparr>) = (Done (), w)"
    "tx w = tx ?v @ success_reply HTTP @ answer" "upstream w = upstream ?v @ data"
    "dialled w = dialled ?v @ [target_address target]"
    using serve_done [of HTTP "s\<lparr>clock := t\<rparr>" target ?v data dial d answer sched] assms(7-11) by auto
  have "handle_client b64 dial sched state s = (Done () :: (io_error, unit) outcome, w)"
    using http_handled [where 'e = io_error and dial = dial and sched = sched, OF assms(1,4,5)] w(1) by (simp add: await_def attempt_def report_done)
  with w show ?thesis by (simp add: success_reply_def)
qed


definition sample_connect :: "u8 list" where
  "sample_connect = request_bytes ''CONNECT'' ''a:80'' ''HTTP/1.1''
     (''Proxy-Authorization: Basic dTpw'' @ [CHR 0x0D, CHR 0x0A, CHR 0x0D, CHR 0x0A])"

definition sample_http :: client_stream where
  "sample_http = sample_client Plain (arrives 2 sample_connect @ arrives 30 [1, 2] @ [(31, Fin)])"

lemma sample_connect_facts:
  "length sample_connect \<le> 8192" "list_all http_word [''CONNECT'', ''a:80'', ''HTTP/1.1'']"
  "detect_protocol (fill_buf 4 (take 4 sample_connect)) = HTTP"
  "extract_proxy_auth_header (from_utf8_lossy (take 4096 sample_connect)) = Some ''Basic dTpw''"
  "http_target ''CONNECT'' ''a:80'' = Inr \<lparr>host = ''a'', port = 80\<rparr>"
  "target_address \<lparr>host = ''a'', port = 80\<rparr> = ''a:80''"
proof -
  show "length sample_connect \<le> 8192" by (simp add: sample_connect_def request_bytes_def)
  show "list_all http_word [''CONNECT'', ''a:80'', ''HTTP/1.1'']" by code_simp
  show "detect_protocol (fill_buf 4 (take 4 sample_connect)) = HTTP" by code_simp
  let ?r = "crlf_lines ([''CONNECT a:80 HTTP/1.1''] @ (''Proxy-Authorization: '' @ ''Basic dTpw'') #
    [''''])"
  have "sample_connect = as_bytes ?r" and asc: "is_ascii ?r" and "length (as_bytes ?r) \<le> 4096"
    by (simp_all add: sample_connect_def request_bytes_def crlf_lines_def)
  then have t: "take 4096 sample_connect = as_bytes ?r" by (simp only: take_all)
  have "list_all (\<lambda>l. CHR 0x0A \<notin> set l \<and>
      \<not> starts_with (to_lowercase l) ''proxy-authorization:'') [''CONNECT a:80 HTTP/1.1'']"
    "plain_value ''Basic dTpw''" by code_simp+
  then have "extract_proxy_auth_header (?r @ []) = Some ''Basic dTpw''" by (rule header_extracted)
  then show "extract_proxy_auth_header (from_utf8_lossy (take 4096 sample_connect)) = Some ''Basic dTpw''"
    by (simp only: t from_utf8_lossy_ascii [OF asc] append_Nil2)
  show t: "target_address \<lparr>host = ''a'', port = 80\<rparr> = ''a:80''" by code_simp
  have "parse_connect_target (target_address \<lparr>host = ''a'', port = 80\<rparr>) = Inr \<lparr>host = ''a'', port = 80\<rparr>"
    using parse_u16_dec_string [of 80] by (auto simp: connect_target_iff target_address_def)
  with t show "http_target ''CONNECT'' ''a:80'' = Inr \<lparr>host = ''a'', port = 80\<rparr>"
    by (simp add: http_target_def)
qed

lemma sample_http_sends:
  "sends_at_once 2 sample_connect (arrives 30 [1, 2] @ [(31, Fin)]) sample_http"
  by (simp add: sends_at_once_def sample_http_def arrives_after_arrives)
     (simp add: sample_connect_def request_bytes_def)

definition sample_sched :: "(direction \<times> nat) list" where
  "sample_sched = [(C2T, 2), (C2T, 9), (T2C, 9), (C2T, 1), (T2C, 1)]"

lemma sample_http_run:
  "\<exists>u. handle_client sample_b64 sample_dial sample_sched sample_state sample_http
     = (Done () :: (io_error, unit) outcome, u) \<and>
   tx u = tx sample_http @ http_connect_response @ [9] \<and>
   upstream u = upstream sample_http @ [1, 2] \<and>
   dialled u = dialled sample_http @ [target_address \<lparr>host = ''a'', port = 80\<rparr>]"
proof (rule http_session_run [where m = "''CONNECT''" and u = "''a:80''" and v = "''HTTP/1.1''"
      and rest = "''Proxy-Authorization: Basic dTpw'' @ [CHR 0x0D, CHR 0x0A, CHR 0x0D, CHR 0x0A]"
      and h = "''Basic dTpw''" and d = 20, folded sample_connect_def,
      OF sample_http_sends sample_connect_facts(1-3) _ sample_connect_facts(5)])
  show "extract_proxy_auth_header (from_utf8_lossy (take 4096 sample_connect)) = Some ''Basic dTpw'' \<and>
      validate_auth_header sample_b64 ''Basic dTpw'' sample_state = Inr ()"
    by (simp only: sample_connect_facts(4) sample_auth)
  show "sample_dial (target_address \<lparr>host = ''a'', port = 80\<rparr>) =
      Connects 20 \<lparr>ep_rx = map Byte [9] @ [Fin], ep_limit = None, ep_shutdown = None\<rparr>"
    by (simp only: sample_connect_facts(6)) (simp add: sample_dial_def)
qed (simp_all add: arrives_def sample_sched_def steps_of_def)


theorem no_dial_without_credentials_witness:
  "\<exists>p. shows_credentials sample_b64 p sample_state (inbound (rx sample_http))"
proof -
  from sample_http_run have "dialled (snd (handle_client sample_b64 sample_dial sample_sched
      sample_state sample_http :: (io_error, unit) outcome \<times> client_stream)) \<noteq> dialled sample_http"
    by (metis append_self_conv not_Cons_self2 snd_conv)
  from no_dial_without_credentials [OF _ _ this] show ?thesis
    by (auto simp: sample_state_def app_state_new_def simp del: shows_credentials.simps)
qed

subsection \<open>Sessions that lead nowhere\<close>

lemma wait_rx_Done: "wait_rx s = (Done ev, u) \<Longrightarrow> \<exists>t r. rx s = (t, ev) # r \<and> t \<le> clock u"
  by (auto simp: wait_rx_def Let_def split: list.splits option.splits if_splits)

lemma peek_Done_first:
  assumes "peek n s = (Done bs, u)" and "rx s = (t, Byte b) # r" and "0 < n"
  shows "\<exists>cs. bs = b # cs"
proof -
  from assms(1) obtain ev v where w: "wait_rx s = (Done ev, v)"
    and k: "(case ev of
       Byte b \<Rightarrow> (\<lambda>s. (Done (take n (ready_bytes (clock s) (rx s))), s))
     | Fin \<Rightarrow> ret [] | Broken e \<Rightarrow> fail e) v = (Done bs, u)"
    unfolding peek_def by (rule await_DoneE)
  from wait_rx_Done [OF w] assms(2) have ev: "ev = Byte b" "t \<le> clock v" by auto
  with k wait_rx_frame [OF w] assms(2,3) show ?thesis by (cases n) auto
qed

text \<open>On a plain stream the second detection always answers and consumes nothing.\<close>

lemma detect_again_plain:
  assumes "kind s = Plain"
  obtains p u where "detect_again s = (Done p :: ('e, proxy_protocol) outcome, u)"
    and "rx u = rx s" and "tx u = tx s" and "dialled u = dialled s" and "kind u = Plain"
    and "tx_limit u = tx_limit s" and "deadline u = deadline s"
    and "\<And>t b r. rx s = (t, Byte b) # r \<Longrightarrow>
      p = TCP \<or> (\<exists>bs. p = detect_protocol (fill_buf 4 (b # bs)))"
proof -
  let ?s = "s\<lparr>deadline := Some (clock s + 5000)\<rparr>"
  let ?p = "\<lambda>q. case q of Done bs \<Rightarrow> detect_protocol (fill_buf 4 bs) | _ \<Rightarrow> TCP"
  obtain q v where v: "peek 4 ?s = (q, v)" by (cases "peek 4 ?s")
  obtain w ev where w: "wait_rx ?s = (ev, w)" by (cases "wait_rx ?s")
  have vw: "v = w" using v w
    by (cases ev) (auto simp: peek_def await_def ret_def fail_def split: rx_event.splits)
  from wait_rx_frame [OF w] wait_rx_writes [OF w] vw
  have f: "rx v = rx s" "tx v = tx s" "dialled v = dialled s" "kind v = kind s" "tx_limit v = tx_limit s"
    by (simp_all add: same_writes_def)
  have "q \<noteq> Hangs" "q \<noteq> Panicked"
    using answersD [OF answers_peek, of ?s 4] v by auto
  then have d: "detect_again s = (Done (?p q) :: ('e, proxy_protocol) outcome, v\<lparr>deadline := deadline s\<rparr>)"
    using v assms
    by (cases q) (simp_all add: detect_again_def await_def timeout_def peek_or_read_def ret_def)
  moreover have "?p q = TCP \<or> (\<exists>bs. ?p q = detect_protocol (fill_buf 4 (b # bs)))"
    if "rx s = (t, Byte b) # r" for t b r
  proof (cases q)
    case (Done bs)
    with peek_Done_first [of 4 ?s bs v t b r] v that show ?thesis by auto
  qed simp_all
  ultimately show ?thesis using f assms by (intro that [of "?p q" "v\<lparr>deadline := deadline s\<rparr>"]) simp_all
qed

lemma serve_no_target:
  assumes "\<And>t. fst (parse_target_by_protocol p s) \<noteq> Done t"
  shows "dialled (snd (serve_client dial sched p s)) = dialled s"
proof -
  obtain q u where u: "parse_target_by_protocol p s = (q, u)" by (cases "parse_target_by_protocol p s")
  from dial_frame.keepsD [OF keeps_parse_dials u] have "dialled u = dialled s"
    by (simp add: same_dials_def)
  with assms u show ?thesis by (cases q) (auto simp: serve_client_def await_def map_err_def)
qed

lemma keeps_report: "dial_frame.keeps (report_result p r)"
proof -
  have "dial_frame.keeps (send_error_response p e)" for e
    by (cases p; cases e) (simp_all add: send_error_response_def send_socks4_response_def
        send_socks5_response_def dial_frame.keeps_write_all dial_frame.keeps_ret)
  then show ?thesis
    unfolding report_result_def
    by (cases r) (auto split: prod.splits intro!: dial_frame.keeps_intros)
qed

lemma requests_no_target:
  assumes "kind s = Plain" and "rx s = (t, Byte b) # r"
    and "\<And>p u x. rx u = rx s \<Longrightarrow> p = TCP \<or> (\<exists>bs. p = detect_protocol (fill_buf 4 (b # bs))) \<Longrightarrow>
      deadline u = deadline s \<Longrightarrow> tx_limit u = tx_limit s \<Longrightarrow>
      fst (parse_target_by_protocol p u) \<noteq> Done x"
  shows "dialled (snd ((handle_requests dial sched :: ('e, unit) async) s)) = dialled s"
proof -
  obtain p u where d: "detect_again s = (Done p :: ('e, proxy_protocol) outcome, u)"
    and f: "rx u = rx s" "dialled u = dialled s" "deadline u = deadline s" "tx_limit u = tx_limit s"
    and p: "p = TCP \<or> (\<exists>bs. p = detect_protocol (fill_buf 4 (b # bs)))"
    using detect_again_plain [OF assms(1)] assms(2) by metis
  obtain q v where v: "serve_client dial sched p u = (q, v)" by (cases "serve_client dial sched p u")
  have dv: "dialled v = dialled s"
    using serve_no_target [of p u dial sched] assms(3) [OF f(1) p f(3,4)] v f(2) by simp
  have rep: "dialled (snd ((report_result p x :: ('e, unit) async) v)) = dialled v" for x
    using keeps_report [of p x, where 'a = 'e] by (simp add: dial_frame.keeps_def same_dials_def)
  have "(handle_requests dial sched :: ('e, unit) async) s =
      await (attempt (serve_client dial sched p)) (report_result p) u"
    by (simp add: handle_requests_def async_handle_client_def await_assoc
        await_Done [of detect_again s, OF d])
  with v dv rep show ?thesis
    by (cases q) (simp_all add: await_def attempt_def)
qed

lemma raw_target_too_long:
  assumes "inbound (rx s) = a # b # r" and "4 < unat a"
  shows "fst (parse_target s) \<noteq> Done t"
proof -
  let ?s = "s\<lparr>deadline := Some (clock s + 5000)\<rparr>"
  obtain q u where q: "parse_target_body ?s = (q, u)" by (cases "parse_target_body ?s")
  have "q \<noteq> Done x" for x
  proof
    assume "q = Done x"
    with q obtain bs w where r: "read_exact 2 ?s = (Done bs, w)"
      and ok: "\<not> (unat (u16_from_be (bs ! 0) (bs ! 1)) = 0 \<or> unat (u16_from_be (bs ! 0) (bs ! 1)) > 1024)"
      by (auto simp: parse_target_body_def Let_def await_Done_iff split: if_splits)
    from read_exact_Done [OF r] assms(1) have "bs = [a, b]" by (auto simp: length_2_iff)
    with ok assms(2) show False by (simp add: unat_u16_from_be)
  qed
  with q show ?thesis
    by (cases q) (auto simp: parse_target_def await_def timeout_def from_result_def ret_def fail_def)
qed

text \<open>
  A raw client whose target cannot be read is dropped: its handler ends, and nothing is sent or
  dialled.
\<close>

lemma raw_target_fails:
  assumes "\<And>t. fst (parse_target s) \<noteq> Done t"
  obtains e u where "parse_target s = (Failed e, u)" and "only_reads s u"
proof -
  obtain q u where q: "parse_target s = (q, u)" by (cases "parse_target s")
  from timeout_completes [OF answers_parse_target_body, of 5000 s] obtain r v where
    "timeout 5000 parse_target_body s
      = (Done r :: (io_error, (io_error + proxy_target) option) outcome, v)"
    by (metis prod.collapse)
  with q assms have "\<exists>e. q = Failed e"
    by (auto simp: parse_target_def await_def from_result_def ret_def fail_def
        split: option.splits sum.splits)
  with q quiet.keepsD [OF quiet.keeps_raw_target q] that show ?thesis by blast
qed

lemma keeps_detect_again: "quiet.keeps (detect_again :: ('e, proxy_protocol) async)"
  unfolding detect_again_def by (intro quiet.keeps_read_intros)

lemma raw_requests_end:
  assumes "detect_again s = (Done TCP :: ('e, proxy_protocol) outcome, u)"
    and "\<And>t. fst (parse_target u) \<noteq> Done t"
  obtains v where "(handle_requests dial sched :: ('e, unit) async) s = (Done (), v)"
    and "only_reads s v"
proof -
  from assms(2) obtain e v where v: "parse_target u = (Failed e, v)" "only_reads u v"
    by (rule raw_target_fails)
  from quiet.keepsD [OF keeps_detect_again assms(1)] v(2) have "only_reads s v"
    by (rule quiet.frame_trans)
  moreover have "(handle_requests dial sched :: ('e, unit) async) s = (Done (), v)"
    using assms(1) v(1)
    by (simp add: handle_requests_def async_handle_client_def await_def attempt_def ret_def
        serve_client_def map_err_def parse_target_by_protocol_def report_result_def
        send_error_response_def)
  ultimately show ?thesis by (rule that [rotated])
qed

text \<open>
  The second detection always answers. It has taken the \<open>k\<close> bytes it has seen out of a TLS stream,
  and none out of a plain one.
\<close>

lemma peek_incomplete:
  assumes "peek n s = (q, u)" and "\<And>bs. q \<noteq> Done bs"
  shows "rx u = rx s"
proof -
  obtain r w where w: "wait_rx s = (r, w)" by (cases "wait_rx s")
  with assms show ?thesis using wait_rx_frame [OF w]
    by (cases r) (auto simp: peek_def await_def ret_def fail_def split: rx_event.splits)
qed

lemma peek_or_read_incomplete:
  assumes "peek_or_read n s = (q, u)" and "\<And>bs. q \<noteq> Done bs"
  shows "rx u = rx s"
proof (cases "kind s")
  case Plain
  with assms show ?thesis by (auto simp: peek_or_read_def intro: peek_incomplete)
next
  case Tls
  obtain r w where w: "peek n s = (r, w)" by (cases "peek n s")
  from Tls assms w show ?thesis using peek_incomplete [OF w]
    by (cases r) (auto simp: peek_or_read_def peer_addr_def read_def await_def ret_def fail_def
        split: option.splits)
qed

lemma peek_or_read_seen:
  assumes "peek_or_read n s = (Done bs, u)"
  shows "length bs \<le> n \<and> inbound (rx s) = bs @ inbound (drop (length bs) (rx s)) \<and>
    rx u = drop (if kind s = Tls then length bs else 0) (rx s)"
proof (cases "kind s")
  case Plain
  with assms peek_Done [of n s bs u] show ?thesis by (simp add: peek_or_read_def)
next
  case Tls
  with assms have "read n s = (Done bs, u)"
    by (auto simp: peek_or_read_def peer_addr_def await_def ret_def fail_def split: option.splits)
  from read_Done [OF this] Tls show ?thesis by simp
qed

lemma answers_peek_or_read: "answers (peek_or_read n)"
proof -
  have "answers peer_addr"
    by (simp add: answers_def deadline_frame.keeps_peer_addr)
       (simp add: peer_addr_def ret_def fail_def split: option.split)
  then have "answers (await peer_addr (\<lambda>_. read n))" by (intro answers_intros)
  with answers_peek show ?thesis
    by (simp add: answers_def deadline_frame.keeps_peek_or_read)
       (simp add: peek_or_read_def split: stream_kind.split)
qed

lemma detect_again_outcome:
  obtains p j k u where "detect_again s = (Done p :: ('e, proxy_protocol) outcome, u)"
    and "only_reads s u" and "rx u = drop k (rx s)" and "j \<le> 4" and "j \<le> length (inbound (rx s))"
    and "k = (if kind s = Tls then j else 0)"
    and "p = TCP \<and> j = 0 \<or> p = detect_protocol (fill_buf 4 (take j (inbound (rx s))))"
proof -
  let ?s = "s\<lparr>deadline := Some (clock s + 5000)\<rparr>"
  obtain q v where v: "peek_or_read 4 ?s = (q, v)" by (cases "peek_or_read 4 ?s")
  have "q \<noteq> Hangs" "q \<noteq> Panicked"
    using answersD [OF answers_peek_or_read, of ?s 4] v by auto
  with v have d: "detect_again s = (Done (case q of Done bs \<Rightarrow> detect_protocol (fill_buf 4 bs) | _ \<Rightarrow> TCP)
      :: ('e, proxy_protocol) outcome, v\<lparr>deadline := deadline s\<rparr>)"
    by (cases q) (simp_all add: detect_again_def await_def timeout_def ret_def)
  note r = quiet.keepsD [OF keeps_detect_again d]
  show ?thesis
  proof (cases "\<exists>bs. q = Done bs")
    case True
    then obtain bs where q: "q = Done bs" ..
    from peek_or_read_seen [OF v [unfolded q]]
    have b: "length bs \<le> 4" "inbound (rx s) = bs @ inbound (drop (length bs) (rx s))"
      "rx v = drop (if kind s = Tls then length bs else 0) (rx s)" by simp_all
    from b(2) have "take (length bs) (inbound (rx s)) = bs" "length bs \<le> length (inbound (rx s))"
      by (metis append_eq_conv_conj, metis le_add1 length_append)
    with b q show ?thesis by (intro that [OF d r, where j = "length bs"]) auto
  next
    case False
    with peek_or_read_incomplete [OF v] have "rx v = rx s" by simp
    moreover from False have "(case q of Done bs \<Rightarrow> detect_protocol (fill_buf 4 bs) | _ \<Rightarrow> TCP) = TCP"
      by (cases q) auto
    ultimately show ?thesis by (intro that [OF d r, where j = 0]) auto
  qed
qed

lemma inbound_front: "inbound es = front_bytes (map snd es)"
  by (induction es rule: inbound.induct) simp_all

text \<open>A client that sends no further byte, whether it stays, closes or breaks off.\<close>

lemma ended_requests:
  assumes "inbound (rx s) = []"
  obtains v where "(handle_requests dial sched :: ('e, unit) async) s = (Done (), v)"
    and "only_reads s v"
proof -
  obtain p j k u where d: "detect_again s = (Done p :: ('e, proxy_protocol) outcome, u)"
    and r: "rx u = drop k (rx s)" "j \<le> length (inbound (rx s))" "k = (if kind s = Tls then j else 0)"
    and p: "p = TCP \<and> j = 0 \<or> p = detect_protocol (fill_buf 4 (take j (inbound (rx s))))"
    by (rule detect_again_outcome)
  from r assms have u: "inbound (rx u) = []" by simp
  have "detect_protocol (fill_buf 4 []) = TCP" by code_simp
  with p assms have "p = TCP" by auto
  have "fst (parse_target u) \<noteq> Done t" for t
  proof
    let ?u = "u\<lparr>deadline := Some (clock u + 5000)\<rparr>"
    assume "fst (parse_target u) = Done t"
    then obtain bs w where "read_exact 2 ?u = (Done bs, w)"
      by (cases "parse_target_body ?u"; cases "fst (parse_target_body ?u)")
         (auto simp: parse_target_def parse_target_body_def await_Done_iff timeout_def await_def
           from_result_def ret_def fail_def map_err_def split: outcome.splits prod.splits)
    from read_exact_Done [OF this] u show False by auto
  qed
  with d \<open>p = TCP\<close> that show ?thesis using raw_requests_end by blast
qed

lemma socks5_request_is_no_greeting:
  assumes "inbound (rx s) = 5 # 1 # rsv # x # r" and "x \<noteq> 5"
  shows "fst (parse_socks5_target s) \<noteq> Done t"
proof
  assume "fst (parse_socks5_target s) = Done t"
  then obtain v where "parse_socks5_target s = (Done t, v)" by (cases "parse_socks5_target s") simp
  then obtain hs u1 ms u2 u3 rq u4 where
    1: "read_exact 2 s = (Done hs, u1)" and 2: "read_exact (unat (hs ! 1)) u1 = (Done ms, u2)"
    and 3: "write_all [5, 0] u2 = (Done (), u3)" and 4: "read_exact 4 u3 = (Done rq, u4)"
    and ok: "rq ! 0 = 5"
    by (auto simp: parse_socks5_target_def await_Done_iff split: if_splits)
  from read_exact_Done [OF 1] assms(1) have hs: "hs = [5, 1]" "inbound (rx u1) = rsv # x # r"
    by (auto simp: length_2_iff)
  with read_exact_Done [OF 2] have "inbound (rx u2) = x # r" by (auto simp: length_Suc_conv)
  with read_exact_Done [OF 4] write_all_Done [OF 3] have "hd rq = x" by (cases rq) auto
  with read_exact_Done [OF 4] ok assms(2) show False by (cases rq) auto
qed

lemma encoded_request: "\<exists>x r. encode_address a @ bs = x # r \<and> x \<noteq> 5"
  by (cases a) simp_all

text \<open>
  C31: a SOCKS5 client with user name and password is never served. It is authenticated, with
  the right credentials, as RFC 1929 says; but then the proxy parses its \<open>CONNECT\<close> request as a
  second greeting, and refuses it. Whatever the address, the timing and the network, nothing is
  dialled for it.
\<close>

theorem socks5_auth_unusable:
  assumes "opens_with 5 s" and "require_creds state"
    and "username state = Some user" and "password state = Some pass"
    and "2 \<in> set methods" and "length methods < 256" and "length user < 256" and "length pass < 256"
    and "from_utf8 (as_bytes user) = Some user" and "from_utf8 (as_bytes pass) = Some pass"
    and "encodable a"
    and "delivers s (([5, of_nat (length methods)] @ methods @ [1, of_nat (length user)] @ as_bytes user @
      [of_nat (length pass)] @ as_bytes pass) @ [5, 1, rsv] @ encode_address a @ u16_be_bytes p) es"
  shows "dialled (snd ((handle_client b64 dial sched state :: (io_error, unit) async) s)) = dialled s"
proof -
  let ?auth = "[5, of_nat (length methods)] @ methods @ [1, of_nat (length user)] @ as_bytes user @
      [of_nat (length pass)] @ as_bytes pass :: u8 list"
  let ?req = "[5, 1, rsv] @ encode_address a @ u16_be_bytes p"
  obtain x r where req: "?req = 5 # 1 # rsv # x # r" and x: "x \<noteq> 5"
    using encoded_request [of a "u16_be_bytes p"] by auto
  from assms(1) obtain v where v: "(handle_client b64 dial sched state :: (io_error, unit) async) s
      = handle_stream b64 dial sched state SOCKS5 v" "idle_eq s v" "opens_with 5 v"
    by (rule handle_client_plain [where p = SOCKS5]) (simp_all add: detect_first_byte)
  have ok: "validate_credentials user pass state" using assms(3,4) by (simp add: validate_credentials_iff)
  have "transcript (authenticate_by_protocol b64 SOCKS5 state) ?auth ([5, 2] @ [1, 0]) (Done True)"
    using socks5_auth_run [OF assms(2,5-10)] ok
    by (simp add: authenticate_by_protocol_def socks5_verdict_def)
  moreover have "steady v" "delivers v (?auth @ ?req) es"
    using v(2,3) assms(12) by (simp_all add: opens_with_def idle_eq_def delivers_def)
  ultimately obtain u where u: "authenticate_by_protocol b64 SOCKS5 state v = (Done True, u)"
    "steady u" "delivers u ?req es" "kind u = kind v" by (rule transcriptD)
  have du: "dialled u = dialled s"
    using dial_frame.keepsD [OF keeps_authenticate u(1)] v(2) by (simp add: same_dials_def idle_eq_def)
  have run: "handle_stream b64 dial sched state SOCKS5 v = (handle_requests dial sched :: (io_error, unit) async) u"
    using u(1) assms(2) by (simp add: handle_stream_def await_def attempt_def)
  from u(3) have ev: "map snd (rx u) = Byte 5 # Byte 1 # Byte rsv # Byte x # map Byte r @ es"
    unfolding req by (simp add: delivers_def)
  then obtain t w where rx: "rx u = (t, Byte 5) # w" by (cases "rx u") auto
  have "dialled (snd ((handle_requests dial sched :: (io_error, unit) async) u)) = dialled u"
  proof (rule requests_no_target [OF _ rx])
    show "kind u = Plain" using u(4) v(3) by (simp add: opens_with_def)
    fix p and z :: client_stream and y
    assume z: "rx z = rx u" "deadline z = deadline u" "tx_limit z = tx_limit u"
      and "p = TCP \<or> (\<exists>bs. p = detect_protocol (fill_buf 4 (5 # bs)))"
    then consider "p = TCP" | "p = SOCKS5" using detect_first_byte(1) by auto
    then show "fst (parse_target_by_protocol p z) \<noteq> Done y"
    proof cases
      case 1
      have "inbound (rx z) = 5 # 1 # drop 2 (inbound (rx z))"
        unfolding z(1) inbound_snd ev by simp
      then have "fst (parse_target z) \<noteq> Done y" by (rule raw_target_too_long) simp
      with 1 show ?thesis by (simp add: parse_target_by_protocol_def)
    next
      case 2
      have "inbound (rx z) = 5 # 1 # rsv # x # drop 4 (inbound (rx z))"
        unfolding z(1) inbound_snd ev by simp
      then have "fst (parse_socks5_target z) \<noteq> Done y"
        using x by (rule socks5_request_is_no_greeting)
      with 2 show ?thesis by (simp add: parse_target_by_protocol_def)
    qed
  qed
  with v(1) run du show ?thesis by simp
qed

definition sample_socks5_auth :: client_stream where
  "sample_socks5_auth = sample_client Plain (arrives 3 [5, 1, 2] @ arrives 5 [1, 1, 117, 1, 112] @
     arrives 9 [5, 1, 0, 3, 1, 97, 0, 80])"

theorem socks5_auth_unusable_witness:
  "dialled (snd ((handle_client sample_b64 sample_dial [] sample_state :: (io_error, unit) async)
     sample_socks5_auth)) = []"
proof -
  have e: "encodable (Domain ''a'')" "u16_be_bytes 80 = [0, 80]" "as_bytes ''a'' = [97]"
    "as_bytes ''u'' = [117]" "as_bytes ''p'' = [112]"
    "from_utf8 (as_bytes ''u'') = Some ''u''" "from_utf8 (as_bytes ''p'') = Some ''p''" by code_simp+
  have o: "opens_with 5 sample_socks5_auth"
    by (simp add: opens_with_def first_byte_in_time_def sample_socks5_auth_def arrives_def)
  have d: "delivers sample_socks5_auth (([5, of_nat (length [2])] @ [2] @ [1, of_nat (length ''u'')] @
      as_bytes ''u'' @ [of_nat (length ''p'')] @ as_bytes ''p'') @ [5, 1, 0] @
      encode_address (Domain ''a'') @ u16_be_bytes 80) []"
    by (simp only: e) (simp add: delivers_def sample_socks5_auth_def arrives_def e(3))
  have "dialled (snd ((handle_client sample_b64 sample_dial [] sample_state :: (io_error, unit) async)
     sample_socks5_auth)) = dialled sample_socks5_auth"
    by (rule socks5_auth_unusable [OF o _ _ _ _ _ _ _ e(6,7) e(1) d])
       (simp_all add: sample_state_def app_state_new_def)
  then show ?thesis by (simp add: sample_socks5_auth_def)
qed

subsection \<open>Clients that fall silent\<close>

lemma silent_wait:
  assumes "rx s = []" and "deadline s = Some d"
  shows "\<exists>u. wait_rx s = (Elapsed, u) \<and> idle_eq s u \<and> d \<le> clock u"
  using assms by (simp add: wait_rx_def Let_def idle_eq_def)

lemma silent_timeout:
  assumes "rx s = []"
  shows "\<exists>u. timeout d (peek n) s = (Done None :: ('e, (io_error + u8 list) option) outcome, u) \<and>
    idle_eq s u \<and> clock s + d \<le> clock u"
proof -
  let ?s = "s\<lparr>deadline := Some (clock s + d)\<rparr>"
  from silent_wait [of ?s] assms obtain u where
    u: "wait_rx ?s = (Elapsed, u)" "idle_eq ?s u" "clock s + d \<le> clock u" by auto
  then show ?thesis
    by (intro exI [of _ "u\<lparr>deadline := deadline s\<rparr>"])
       (simp add: timeout_def peek_def await_def idle_eq_def)
qed

lemma silent_read_exact:
  assumes "rx s = []" and "deadline s = Some d" and "0 < n"
  shows "\<exists>u. read_exact n s = (Elapsed, u) \<and> idle_eq s u \<and> d \<le> clock u"
proof -
  from silent_wait [OF assms(1,2)] obtain u where
    u: "wait_rx s = (Elapsed, u)" "idle_eq s u" "d \<le> clock u" by blast
  with assms(3) show ?thesis
    by (intro exI [of _ u]) (simp add: read_exact.simps [of n] read_def peek_def await_def)
qed

lemma silent_target:
  assumes "rx s = []"
  shows "\<exists>u. parse_target s = (Failed (IoError TimedOut ''Timeout reading target''), u) \<and>
    idle_eq s u \<and> clock s + 5000 \<le> clock u"
proof -
  let ?s = "s\<lparr>deadline := Some (clock s + 5000)\<rparr>"
  from silent_read_exact [of ?s "clock s + 5000" 2] assms obtain u where
    u: "read_exact 2 ?s = (Elapsed, u)" "idle_eq ?s u" "clock s + 5000 \<le> clock u" by auto
  from u(1) have "parse_target_body ?s = (Elapsed, u)"
    by (simp add: parse_target_body_def await_def map_err_def)
  with u show ?thesis
    by (intro exI [of _ "u\<lparr>deadline := deadline s\<rparr>"])
       (simp add: parse_target_def timeout_def await_def fail_def idle_eq_def)
qed

lemma silent_requests:
  assumes "rx s = []" and "kind s = Plain"
  shows "\<exists>u. (handle_requests dial sched :: ('e, unit) async) s = (Done (), u) \<and> idle_eq s u \<and>
    clock s + 10000 \<le> clock u"
proof -
  from silent_timeout [OF assms(1), of 5000 4] obtain u where
    u: "timeout 5000 (peek 4) s = (Done None :: ('e, (io_error + u8 list) option) outcome, u)"
    "idle_eq s u" "clock s + 5000 \<le> clock u" by blast
  have "timeout 5000 (peek_or_read 4) s = (Done None :: ('e, (io_error + u8 list) option) outcome, u)"
    using u(1) assms(2) by (simp add: timeout_def peek_or_read_def)
  then have d: "detect_again s = (Done TCP :: ('e, proxy_protocol) outcome, u)"
    by (simp add: detect_again_def await_def ret_def)
  from u(2) assms(1) have "rx u = []" by (simp add: idle_eq_def)
  from silent_target [OF this] obtain v where
    v: "parse_target u = (Failed (IoError TimedOut ''Timeout reading target''), v)" "idle_eq u v"
    "clock u + 5000 \<le> clock v" by blast
  have "(handle_requests dial sched :: ('e, unit) async) s = (Done (), v)"
    using d v(1)
    by (simp add: handle_requests_def async_handle_client_def await_def attempt_def ret_def
        serve_client_def map_err_def parse_target_by_protocol_def report_result_def
        send_error_response_def)
  with u v idle_eq_trans [OF u(2) v(2)] show ?thesis by (intro exI [of _ v]) simp
qed

text \<open>
  C22: a client that connects and stays silent does not keep its handler: it is dropped without a
  byte, after the five seconds of the detection if credentials are required, and after fifteen
  otherwise, and nothing is dialled for it.
\<close>

theorem silent_client_dropped:
  assumes "rx s = []" and "kind s = Plain"
  shows "\<exists>u. handle_client b64 dial sched state s = (Done () :: (io_error, unit) outcome, u) \<and>
    idle_eq s u \<and> clock s + (if require_creds state then 5000 else 15000) \<le> clock u"
proof -
  from silent_timeout [OF assms(1), of 5000 4] obtain u where
    u: "timeout 5000 (peek 4) s = (Done None :: (io_error, (io_error + u8 list) option) outcome, u)"
    "idle_eq s u" "clock s + 5000 \<le> clock u" by blast
  then have d: "detect_client_protocol s = (Done TCP, u)"
    by (simp add: detect_client_protocol_def await_def ret_def)
  have run: "handle_client b64 dial sched state s =
      (handle_stream b64 dial sched state TCP :: (io_error, unit) async) u"
    using d by (simp add: handle_client_def await_def attempt_def)
  show ?thesis
  proof (cases "require_creds state")
    case True
    then have "(handle_stream b64 dial sched state TCP :: (io_error, unit) async) u = (Done (), u)"
      by (simp add: handle_stream_def authenticate_by_protocol_def await_def attempt_def ret_def)
    with run u True show ?thesis by simp
  next
    case False
    have "rx u = []" "kind u = Plain" using u(2) assms by (simp_all add: idle_eq_def)
    from silent_requests [OF this] obtain v where
      "(handle_requests dial sched :: (io_error, unit) async) u = (Done (), v)" "idle_eq u v"
      "clock u + 10000 \<le> clock v" by blast
    with run u False idle_eq_trans [OF u(2)] show ?thesis
      by (intro exI [of _ v]) (simp add: handle_stream_def)
  qed
qed

theorem silent_client_dropped_witness:
  "\<exists>u. handle_client sample_b64 sample_dial [] open_state (sample_client Plain [])
     = (Done () :: (io_error, unit) outcome, u) \<and> 15000 \<le> clock u"
  using silent_client_dropped [of "sample_client Plain []" sample_b64 sample_dial "[]" open_state]
  by (auto simp: open_state_def app_state_new_def)

text \<open>
  C32: SOCKS4 authentication with the right user id throws the request away. The handler
  goes on exactly as it would for a client that has sent only what follows the request: up to
  there nothing was answered and nothing dialled. So a client that sends no further byte, as one
  that waits for the reply, is dropped without a byte and without a dial, whether it stays,
  closes or breaks off; one that repeats its request has the copy looked at.
\<close>

theorem socks4_auth_drops_request:
  assumes "opens_with 4 s" and "require_creds state" and "username state = Some user"
    and "length rest = 7" and "0 \<notin> set uid" and "from_utf8 uid = Some user"
    and "delivers s (4 # rest @ uid @ [0]) es"
  shows "\<exists>v. (handle_client b64 dial sched state :: (io_error, unit) async) s =
      handle_requests dial sched v \<and>
    steady v \<and> kind v = Plain \<and> delivers v [] es \<and> tx v = tx s \<and>
    dialled v = dialled s \<and> upstream v = upstream s \<and>
    (front_bytes es = [] \<longrightarrow> (\<exists>w. handle_client b64 dial sched state s = (Done () :: (io_error, unit) outcome, w) \<and>
       tx w = tx s \<and> dialled w = dialled s \<and> upstream w = upstream s))"
proof -
  from assms(1) obtain v where v: "(handle_client b64 dial sched state :: (io_error, unit) async) s
      = handle_stream b64 dial sched state SOCKS4 v" "idle_eq s v" "opens_with 4 v"
    by (rule handle_client_plain [where p = SOCKS4]) (simp_all add: detect_first_byte)
  have "transcript (authenticate_by_protocol b64 SOCKS4 state) (4 # rest @ uid @ [0]) [] (Done True)"
    using socks4_auth_run [OF assms(2,4-6)] assms(3) by (simp add: authenticate_by_protocol_def)
  moreover have "steady v" "delivers v ((4 # rest @ uid @ [0]) @ []) es"
    using v(2,3) assms(7) by (simp_all add: opens_with_def idle_eq_def delivers_def)
  ultimately obtain u where u: "authenticate_by_protocol b64 SOCKS4 state v = (Done True, u)"
    "steady u" "delivers u [] es" "tx u = tx v @ []" "kind u = kind v" by (rule transcriptD)
  have du: "dialled u = dialled s" "upstream u = upstream s"
    using dial_frame.keepsD [OF keeps_authenticate u(1)] v(2) by (simp_all add: same_dials_def idle_eq_def)
  have run: "(handle_client b64 dial sched state :: (io_error, unit) async) s = handle_requests dial sched u"
    using v(1) u(1) assms(2) by (simp add: handle_stream_def await_def attempt_def)
  have k: "kind u = Plain" "tx u = tx s"
    using u(4,5) v(2,3) by (simp_all add: opens_with_def idle_eq_def)
  have "\<exists>w. handle_client b64 dial sched state s = (Done () :: (io_error, unit) outcome, w) \<and>
       tx w = tx s \<and> dialled w = dialled s \<and> upstream w = upstream s" if e: "front_bytes es = []"
  proof -
    have "inbound (rx u) = []" using u(3) e by (simp add: delivers_def inbound_front)
    from ended_requests [OF this] obtain w where
      "(handle_requests dial sched :: (io_error, unit) async) u = (Done (), w)" "only_reads u w" .
    with run du k show ?thesis by (simp add: only_reads_def)
  qed
  with run u(2,3) k du show ?thesis by blast
qed

definition sample_socks4 :: client_stream where
  "sample_socks4 = sample_client Plain (arrives 3 [4, 1, 0, 80, 10, 0, 0, 1] @ arrives 4 [117, 0])"

theorem socks4_auth_drops_request_witness:
  "(\<exists>u. handle_client sample_b64 sample_dial [] sample_state sample_socks4
     = (Done () :: (io_error, unit) outcome, u) \<and> tx u = [] \<and> dialled u = [])"
proof -
  have o: "opens_with 4 sample_socks4"
    by (simp add: opens_with_def first_byte_in_time_def sample_socks4_def arrives_def)
  have f: "from_utf8 [117] = Some ''u''" by code_simp
  have d: "delivers sample_socks4 (4 # [1, 0, 80, 10, 0, 0, 1] @ [117] @ [0]) []"
    by (simp add: delivers_def sample_socks4_def arrives_def)
  have "username sample_state = Some ''u''" "require_creds sample_state"
    by (simp_all add: sample_state_def app_state_new_def)
  from socks4_auth_drops_request [OF o this(2,1) _ _ f d, of sample_b64 sample_dial "[]"]
  obtain w where "handle_client sample_b64 sample_dial [] sample_state sample_socks4
     = (Done () :: (io_error, unit) outcome, w)" "tx w = tx sample_socks4"
     "dialled w = dialled sample_socks4"
    by auto
  then show ?thesis by (simp add: sample_socks4_def)
qed

text \<open>
  C40: only the detection and the raw protocol have a timeout. A SOCKS5 client that stalls after
  its first byte keeps its handler for ever, with required credentials and without.
\<close>

theorem stalled_client_hangs:
  assumes "opens_with 5 s" and "map snd (rx s) = [Byte 5]"
  shows "fst ((handle_client b64 dial sched state :: (io_error, unit) async) s) = Hangs"
proof -
  have hangs: "\<exists>w. read_exact 2 v = (Hangs, w)" if "idle_eq s v" for v
  proof -
    from that assms have d: "deadline v = None" and r: "map snd (rx v) = [Byte 5]"
      by (simp_all add: idle_eq_def opens_with_def steady_def)
    have "exact_result 2 (rx v) = Hangs"
      using r by (simp add: exact_result_def inbound_snd stream_end_snd)
    with read_exact_result [OF d, of 2] show ?thesis by auto
  qed
  show ?thesis
  proof (cases "require_creds state")
    case True
    from assms(1) obtain v where v: "(handle_client b64 dial sched state :: (io_error, unit) async) s
        = handle_stream b64 dial sched state SOCKS5 v" "idle_eq s v"
      by (rule handle_client_plain [where p = SOCKS5]) (simp_all add: detect_first_byte)
    from hangs [OF v(2)] obtain w where "read_exact 2 v = (Hangs, w)" ..
    then have "authenticate_by_protocol b64 SOCKS5 state v = (Hangs, w)"
      by (simp add: authenticate_by_protocol_def authenticate_socks5_def io_def map_err_def await_def)
    with v(1) True show ?thesis by (simp add: handle_stream_def await_def attempt_def)
  next
    case False
    obtain u where u: "idle_eq s u" "(handle_client b64 dial sched state :: (io_error, unit) async) s =
        await (attempt (serve_client dial sched SOCKS5)) (report_result SOCKS5) u"
      by (rule handled_after [where p = SOCKS5, OF assms(1) detect_first_byte(1) _ False]) simp_all
    from hangs [OF u(1)] obtain v where "read_exact 2 u = (Hangs, v)" ..
    then have "parse_target_by_protocol SOCKS5 u = (Hangs, v)"
      by (simp add: parse_target_by_protocol_def parse_socks5_target_def await_def)
    with u(2) show ?thesis by (simp add: serve_client_def map_err_def await_def attempt_def)
  qed
qed

theorem stalled_client_hangs_witness:
  "fst ((handle_client sample_b64 sample_dial [] open_state :: (io_error, unit) async)
     (sample_client Plain (arrives 0 [5]))) = Hangs"
  by (rule stalled_client_hangs)
     (simp_all add: opens_with_def first_byte_in_time_def arrives_def open_state_def app_state_new_def)

subsection \<open>TLS\<close>

text \<open>
  a TLS client of a proxy without a certificate is dropped without an alert, an answer or a
  dial.
\<close>

theorem tls_without_certificate:
  assumes "opens_with 0x16 s" and "tls_acceptor state = None"
  shows "\<exists>u. handle_client b64 dial sched state s = (Done () :: (io_error, unit) outcome, u) \<and>
    idle_eq s u"
proof -
  from assms(1) obtain u where "detect_client_protocol s = (Done HTTPS, u)" "idle_eq s u"
    by (rule detection [where p = HTTPS]) (simp_all add: detect_first_byte)
  with assms(2) show ?thesis by (simp add: handle_client_def await_def attempt_def ret_def)
qed

theorem tls_without_certificate_witness:
  "\<exists>u. handle_client sample_b64 sample_dial [] open_state
       (sample_client Plain (arrives 0 (hello_with_extension server_name_extension)))
     = (Done () :: (io_error, unit) outcome, u) \<and> tx u = [] \<and> dialled u = []"
proof -
  let ?s = "sample_client Plain (arrives 0 (hello_with_extension server_name_extension))"
  have "\<exists>u. handle_client sample_b64 sample_dial [] open_state ?s
     = (Done () :: (io_error, unit) outcome, u) \<and> idle_eq ?s u"
    by (rule tls_without_certificate)
       (simp_all add: opens_with_def first_byte_in_time_def arrives_def hello_with_extension_def
         open_state_def app_state_new_def)
  then show ?thesis by (auto simp: idle_eq_def)
qed

text \<open>Inside TLS the second detection takes the four bytes it looks at out of the stream.\<close>

lemma arrives_append: "arrives t (as @ bs) = arrives t as @ arrives t bs"
  by (simp add: arrives_def)

lemma tls_detect_again:
  assumes "kind s = Tls" and "peer_error s = None" and "deadline s = None" and "lags s = []"
    and "clock s \<le> t" and "t \<le> clock s + 5000" and "length as = 4"
    and "rx s = arrives t (as @ bs) @ later" and "arrives_after t later"
  shows "detect_again s = (Done (detect_protocol as) :: ('e, proxy_protocol) outcome,
    s\<lparr>clock := t, rx := arrives t bs @ later\<rparr>)"
proof -
  let ?s = "s\<lparr>deadline := Some (clock s + 5000)\<rparr>"
  have ne: "as @ bs \<noteq> []" using assms(7) by auto
  have "peek 4 ?s = (Done as, ?s\<lparr>clock := t\<rparr>)"
    using peek_segment [of ?s t "as @ bs" later 4] assms ne by (simp add: due_def)
  from read_peek [OF this] have "read 4 ?s = (Done as, ?s\<lparr>clock := t, rx := arrives t bs @ later\<rparr>)"
    using assms(7,8) by (simp add: arrives_append) (simp add: arrives_def)
  then have "peek_or_read 4 ?s = (Done as, ?s\<lparr>clock := t, rx := arrives t bs @ later\<rparr>)"
    using assms(1,2) by (simp add: peek_or_read_def peer_addr_def await_def ret_def)
  then show ?thesis
    using assms(3,7) by (simp add: detect_again_def timeout_def await_def ret_def)
qed

text \<open>
  What is left of a \<open>CONNECT\<close> request after its first bytes were taken: less than four leave a
  raw request of an impossible length, and four a request line without a valid URL.
\<close>

lemma connect_tail:
  assumes "j \<le> 3" and "inbound es = as_bytes ''CONNECT '' @ r"
  shows "detect_protocol (fill_buf 4 (take j (inbound es))) = TCP"
    and "\<exists>a b r'. inbound (drop j es) = a # b # r' \<and> 4 < unat (a :: u8)"
proof -
  have c: "as_bytes ''CONNECT '' = [67, 79, 78, 78, 69, 67, 84, 32]" by code_simp
  have l: "j \<le> length (inbound es)" using assms by (simp add: c)
  from assms(1) consider "j = 0" | "j = 1" | "j = 2" | "j = 3" by linarith
  then show "detect_protocol (fill_buf 4 (take j (inbound es))) = TCP"
    unfolding assms(2) c by cases (simp_all add: fill_buf_def, code_simp+)
  from assms(1) consider "j = 0" | "j = 1" | "j = 2" | "j = 3" by linarith
  then show "\<exists>a b r'. inbound (drop j es) = a # b # r' \<and> 4 < unat (a :: u8)"
    unfolding inbound_drop [OF l] assms(2) c by cases simp_all
qed

lemma tls_connect_requests:
  assumes "kind s = Tls" and "steady s"
    and "delivers s (request_bytes ''CONNECT'' x y rest) es" and "http_word x" and "http_word y"
    and "\<not> starts_with x ''http://''"
  obtains j p w u where "detect_again s = (Done p :: ('e, proxy_protocol) outcome, w)"
    and "rx w = drop j (rx s)" and "j \<le> 4"
    and "(handle_requests dial sched :: ('e, unit) async) s = (Done (), u)"
    and "dialled u = dialled s" and "upstream u = upstream s"
    and "tx u = tx s @ (if j = 4 then error_reply HTTP Handshake_error else [])"
proof -
  let ?rest = "'' '' @ x @ '' '' @ y @ CHR 0x0D # CHR 0x0A # rest"
  obtain p j k w where d: "detect_again s = (Done p :: ('e, proxy_protocol) outcome, w)"
    and r: "only_reads s w" "rx w = drop k (rx s)" "j \<le> 4" "k = (if kind s = Tls then j else 0)"
    and p: "p = TCP \<and> j = 0 \<or> p = detect_protocol (fill_buf 4 (take j (inbound (rx s))))"
    by (rule detect_again_outcome)
  have k: "k = j" using r(4) assms(1) by simp
  have bytes: "inbound (rx s) = as_bytes ''CONNECT '' @ as_bytes (x @ '' '' @ y @ CHR 0x0D # CHR 0x0A # rest)
      @ front_bytes es"
    using assms(3) by (simp add: delivers_def inbound_front request_bytes_def front_bytes_append)
  show ?thesis
  proof (cases "j = 4")
    case False
    with r(3) have j: "j \<le> 3" by simp
    from connect_tail(1) [OF j bytes] p have tcp: "p = TCP" by auto
    from connect_tail(2) [OF j bytes] obtain a b r' where "inbound (rx w) = a # b # r'" "4 < unat a"
      unfolding r(2) k by blast
    then have "fst (parse_target w) \<noteq> Done t" for t by (rule raw_target_too_long)
    from raw_requests_end [OF d [unfolded tcp] this] obtain u where
      u: "(handle_requests dial sched :: ('e, unit) async) s = (Done (), u)" "only_reads s u" .
    from False u(2) show ?thesis
      by (intro that [OF d _ r(3) u(1)]) (simp_all add: r(2) k only_reads_def)
  next
    case True
    have "take 4 (inbound (rx s)) = as_bytes ''CONN''" unfolding bytes by simp
    moreover have "detect_protocol (fill_buf 4 (as_bytes ''CONN'')) = HTTP" by code_simp
    ultimately have http: "p = HTTP" using p True by auto
    have "delivers w (as_bytes (''ECT'' @ ?rest)) es"
      using assms(3) unfolding delivers_def r(2) k True
      by (simp add: drop_map [symmetric] request_bytes_def)
    moreover have "deadline w = None" using r(1) assms(2) by (simp add: only_reads_def steady_def)
    moreover have "list_all (\<lambda>w. is_ascii w \<and> w \<noteq> [] \<and> list_all (\<lambda>c. \<not> ascii_ws c) w) [''ECT'', x, y]"
      using assms(4,5) by (simp add: http_word_def ascii_ws_def)
    ultimately have "fst (parse_http_target_from_stream w) = Failed (invalid_data ''Invalid HTTP URL'')"
      using request_line_result [of w "''ECT''" x y rest es] assms(6)
      by (simp add: parse_http_target_def)
    then obtain v where v: "parse_http_target_from_stream w = (Failed (invalid_data ''Invalid HTTP URL''), v)"
      by (cases "parse_http_target_from_stream w") simp
    have q: "only_reads s v"
      using quiet.frame_trans [OF r(1)] quiet.keepsD [OF quiet.keeps_http_target v] by blast
    then have sv: "steady v" using assms(2) by (simp add: only_reads_def steady_def)
    from v have "parse_target_by_protocol HTTP w = (Failed (invalid_data ''Invalid HTTP URL''), v)"
      by (simp add: parse_target_by_protocol_def)
    from serve_parse_failed [OF this] report_failed [OF sv, of Handshake_error HTTP]
    have h: "(handle_requests dial sched :: ('e, unit) async) s =
        (Done (), v\<lparr>tx := tx v @ error_reply HTTP Handshake_error\<rparr>)"
      using d http
      by (simp add: handle_requests_def async_handle_client_def await_def attempt_def ret_def)
    from True q show ?thesis
      by (intro that [OF d _ r(3) h]) (simp_all add: r(2) k only_reads_def)
  qed
qed

text \<open>The first segment comes within the five seconds of the detection and holds \<open>n\<close> bytes.\<close>

definition first_segment :: "nat \<Rightarrow> client_stream \<Rightarrow> bool" where
  "first_segment n s \<longleftrightarrow> peer_error s = None \<and> lags s = [] \<and>
     (\<exists>t bs later. clock s \<le> t \<and> t \<le> clock s + 5000 \<and> n \<le> length bs \<and>
        rx s = arrives t bs @ later \<and> arrives_after t later)"

lemma first_segment_taken:
  assumes "kind s = Tls" and "deadline s = None" and "first_segment 4 s"
    and "detect_again s = (Done p :: ('e, proxy_protocol) outcome, w)" and "rx w = drop j (rx s)"
    and "j \<le> 4"
  shows "j = 4"
proof -
  from assms(3) obtain t bs later where b: "peer_error s = None" "lags s = []" "clock s \<le> t"
    "t \<le> clock s + 5000" "4 \<le> length bs" "rx s = arrives t bs @ later" "arrives_after t later"
    by (auto simp: first_segment_def)
  have "rx s = arrives t (take 4 bs @ drop 4 bs) @ later" using b(6) by simp
  from tls_detect_again [OF assms(1) b(1) assms(2) b(2-4) _ this b(7), where 'e = 'e] b(5) assms(4)
  have "rx w = arrives t (drop 4 bs) @ later" by auto
  with b(5,6) assms(5,6) have "length (rx s) - j = length (rx s) - 4" "4 \<le> length (rx s)"
    by (auto simp: arrives_def dest: arg_cong [where f = length])
  with assms(6) show ?thesis by linarith
qed

text \<open>
  C33: on a server without required credentials, \<open>CONNECT\<close> over TLS never works, whatever the
  segments of the request, the timing and what follows it. The handler ends and nothing
  is dialled. The second detection takes up to four bytes out of the TLS stream; if it gets four,
  the request line begins with \<open>ECT\<close> and the client is answered \<open>400 Bad Request\<close>, and otherwise
  it gets no byte. It gets the 400 if the first segment comes within five seconds and holds
  four bytes.
\<close>

theorem tls_connect_rejected:
  assumes "opens_with 0x16 s" and "\<not> require_creds state" and "tls_acceptor state = Some accept"
    and "\<And>u. idle_eq s u \<Longrightarrow> accept u = (Done (), v)"
    and "steady v" and "delivers v (request_bytes ''CONNECT'' x y rest) es"
    and "http_word x" and "http_word y" and "\<not> starts_with x ''http://''"
  shows "\<exists>u. handle_client b64 dial sched state s = (Done () :: (io_error, unit) outcome, u) \<and>
    dialled u = dialled v \<and> upstream u = upstream v \<and>
    (tx u = tx v \<or> tx u = tx v @ error_reply HTTP Handshake_error) \<and>
    (first_segment 4 v \<longrightarrow> tx u = tx v @ error_reply HTTP Handshake_error)"
proof -
  let ?v = "v\<lparr>kind := Tls\<rparr>"
  from assms(1) obtain u where u: "detect_client_protocol s = (Done HTTPS, u)" "idle_eq s u"
    by (rule detection [where p = HTTPS]) (simp_all add: detect_first_byte)
  have run: "handle_client b64 dial sched state s =
      (handle_requests dial sched :: (io_error, unit) async) ?v"
    using u(1) assms(2,3) assms(4) [OF u(2)]
    by (simp add: handle_client_def handle_stream_def await_def attempt_def into_tls_def)
  have v: "kind ?v = Tls" "steady ?v" "delivers ?v (request_bytes ''CONNECT'' x y rest) es"
    using assms(5,6) by (simp_all add: steady_def delivers_def)
  obtain j p w z where z: "detect_again ?v = (Done p :: (io_error, proxy_protocol) outcome, w)"
    "rx w = drop j (rx ?v)" "j \<le> 4"
    "(handle_requests dial sched :: (io_error, unit) async) ?v = (Done (), z)"
    "dialled z = dialled ?v" "upstream z = upstream ?v"
    "tx z = tx ?v @ (if j = 4 then error_reply HTTP Handshake_error else [])"
    by (rule tls_connect_requests [OF v assms(7-9)])
  have "j = 4" if "first_segment 4 v"
    using that assms(5) first_segment_taken [OF v(1) _ _ z(1-3)]
    by (simp add: first_segment_def steady_def)
  with run z show ?thesis by (intro exI [of _ z]) (auto split: if_splits)
qed

definition sample_accept :: "(io_error, unit) async" where
  "sample_accept s = (Done (), sample_client Plain
     (arrives 9 (request_bytes ''CONNECT'' ''a:80'' ''HTTP/1.1'' [CHR 0x0D, CHR 0x0A])))"

theorem tls_connect_rejected_witness:
  "\<exists>u. handle_client sample_b64 sample_dial [] (app_state_new False None None (Some sample_accept))
       (sample_client Plain (arrives 0 (hello_with_extension server_name_extension)))
     = (Done () :: (io_error, unit) outcome, u) \<and>
     tx u = error_reply HTTP Handshake_error \<and> dialled u = []"
proof -
  let ?s = "sample_client Plain (arrives 0 (hello_with_extension server_name_extension))"
  let ?v = "sample_client Plain
     (arrives 9 (request_bytes ''CONNECT'' ''a:80'' ''HTTP/1.1'' [CHR 0x0D, CHR 0x0A]))"
  have w: "http_word ''a:80''" "http_word ''HTTP/1.1''" by code_simp+
  have o: "opens_with 22 ?s"
    by (simp add: opens_with_def first_byte_in_time_def arrives_def hello_with_extension_def)
  have d: "delivers ?v (request_bytes ''CONNECT'' ''a:80'' ''HTTP/1.1'' [CHR 0x0D, CHR 0x0A]) []"
    by (simp add: delivers_def arrives_def)
  have f: "first_segment 4 ?v"
    unfolding first_segment_def
  proof (intro conjI exI)
    show "rx ?v = arrives 9 (request_bytes ''CONNECT'' ''a:80'' ''HTTP/1.1'' [CHR 0x0D, CHR 0x0A]) @ []"
      by simp
  qed (simp_all add: request_bytes_def)
  have "\<exists>u. handle_client sample_b64 sample_dial [] (app_state_new False None None (Some sample_accept)) ?s
     = (Done () :: (io_error, unit) outcome, u) \<and> dialled u = dialled ?v \<and> upstream u = upstream ?v \<and>
     (tx u = tx ?v \<or> tx u = tx ?v @ error_reply HTTP Handshake_error) \<and>
     (first_segment 4 ?v \<longrightarrow> tx u = tx ?v @ error_reply HTTP Handshake_error)"
    by (rule tls_connect_rejected [where accept = sample_accept, OF o _ _ _ _ d w])
       (simp_all add: app_state_new_def sample_accept_def starts_with_def)
  with f show ?thesis by auto
qed

text \<open>
  With required credentials the authentication reads first. A request over TLS that comes in one
  segment and holds the right credentials is taken out of the stream whole, without an answer;
  the handler goes on as for a client that has sent only what follows.
\<close>

theorem tls_auth_drops_request:
  assumes "opens_with 0x16 s" and "require_creds state" and "tls_acceptor state = Some accept"
    and "\<And>u. idle_eq s u \<Longrightarrow> accept u = (Done (), v)"
    and "deadline v = None" and "peer_error v = None" and "lags v = []" and "clock v \<le> t"
    and "rx v = arrives t req @ later" and "arrives_after t later" and "req \<noteq> []" and "length req \<le> 4096"
    and "extract_proxy_auth_header (from_utf8_lossy req) = Some h"
    and "validate_auth_header b64 h state = Inr ()"
  shows "handle_client b64 dial sched state s =
    (handle_requests dial sched :: (io_error, unit) async) (v\<lparr>kind := Tls, clock := t, rx := later\<rparr>)"
proof -
  let ?v = "v\<lparr>kind := Tls\<rparr>"
  from assms(1) obtain u where u: "detect_client_protocol s = (Done HTTPS, u)" "idle_eq s u"
    by (rule detection [where p = HTTPS]) (simp_all add: detect_first_byte)
  have "read 4096 ?v = (Done req, ?v\<lparr>clock := t, rx := later\<rparr>)"
    by (rule read_segment) (use assms(5-12) in simp_all)
  then have "peek_or_read 4096 ?v = (Done req, ?v\<lparr>clock := t, rx := later\<rparr>)"
    using assms(6) by (simp add: peek_or_read_def peer_addr_def await_def ret_def)
  then have "authenticate_by_protocol b64 HTTPS state ?v = (Done True, ?v\<lparr>clock := t, rx := later\<rparr>)"
    using assms(11,13,14)
    by (simp add: authenticate_by_protocol_def authenticate_http_or_https_def io_def map_err_def
        await_def Let_def ret_def)
  with u(1) assms(2,3) assms(4) [OF u(2)] show ?thesis
    by (simp add: handle_client_def handle_stream_def await_def attempt_def into_tls_def)
qed

subsection \<open>The accept loop\<close>

text \<open>
  the server serves every connection accepted before the first error of \<open>accept\<close>, in order,
  and none after it: a single failing \<open>accept\<close>, a passing condition like an exhausted descriptor
  table included, ends the server.
\<close>

theorem accept_error_ends_server:
  "run_proxy_server (Inr ()) handler (map Inr cs @ Inl e # later) = Some (map handler cs)"
  by (simp add: run_proxy_server_def) (induction cs, simp_all)

end
