(* ===== verification/Handshake.thy ===== *)
theory Handshake
  imports Protocol
begin

section \<open>The handshake with an upstream proxy (src/proxy/relay.rs, src/utils.rs, src/error.rs)\<close>

text \<open>
  \<open>handShake\<close> asks an upstream proxy for a tunnel by \<open>CONNECT\<close> and reads the head of its
  answer. The buffer comes from a pool, a crate: its contents are the argument \<open>pooled\<close>. The
  number of bytes that one \<open>write\<close> accepts is the argument \<open>room\<close>.
\<close>

subsection \<open>Errors and socket calls\<close>

text \<open>The contexts of the errors are kept without the peer address in their text.\<close>

datatype anyhow_error = Message string | Context string io_error

datatype proxy_error =
    ConnectionRefused
  | IPv6NotSupported
  | InternalError
  | BadRequest
  | Proxy_Timeout
  | PayloadTooLarge
  | BadGateway anyhow_error
  | Disconnected anyhow_error

definition write_once :: "nat \<Rightarrow> u8 list \<Rightarrow> (io_error, nat) async" where
  "write_once room bs s =
     (case tx_limit s of
        None \<Rightarrow>
          let n = min room (length bs) in (Done n, s\<lparr>tx := tx s @ take n bs\<rparr>)
      | Some (k, e) \<Rightarrow>
          if k = 0 \<and> bs \<noteq> [] then (Failed e, s)
          else let n = min k (min room (length bs)) in
            (Done n, s\<lparr>tx := tx s @ take n bs, tx_limit := Some (k - n, e)\<rparr>))"

definition write_to_stream :: "nat \<Rightarrow> u8 list \<Rightarrow> (proxy_error, unit) async" where
  "write_to_stream room buf =
     await (map_err (\<lambda>e. Disconnected (Context ''failed to write to stream'' e)) (write_once room buf))
       (\<lambda>_. ret ())"

definition read_from_stream :: "nat \<Rightarrow> (proxy_error, u8 list) async" where
  "read_from_stream n =
     map_err (\<lambda>e. Disconnected (Context ''failed to read from stream'' e)) (read n)"

subsection \<open>The head of the answer\<close>

text \<open>\<open>windows(4).position(..)\<close>: the first place where the empty line ends the head.\<close>

fun find_window :: "u8 list \<Rightarrow> u8 list \<Rightarrow> nat option" where
  "find_window w [] = (if w = [] then Some 0 else None)"
| "find_window w (b # bs) =
     (if take (length w) (b # bs) = w then Some 0 else map_option Suc (find_window w bs))"

definition body_start :: "u8 list \<Rightarrow> nat option" where
  "body_start buffer =
     (let len = length buffer in
      if len > 4 then
        (if drop (len - 4) buffer = crlf2 then Some len
         else map_option (\<lambda>index. index + 4) (find_window crlf2 buffer))
      else None)"

text \<open>
  The loop: one round per read of up to 256 bytes. A read at the end of the stream answers no
  bytes, and the loop goes round again; \<open>fuel\<close> bounds the rounds, and a run that uses it up has
  not returned.
\<close>

fun read_head :: "nat \<Rightarrow> u8 list \<Rightarrow> (proxy_error, nat \<times> u8 list) async" where
  "read_head 0 buffer = (\<lambda>s. (Hangs, s))"
| "read_head (Suc fuel) buffer = await (read_from_stream 256) (\<lambda>bs.
     case body_start (buffer @ bs) of
       Some index \<Rightarrow> ret (index, buffer @ bs)
     | None \<Rightarrow> read_head fuel (buffer @ bs))"

definition connect_request :: "proxy_target \<Rightarrow> u8 list" where
  "connect_request target =
     as_bytes ''CONNECT '' @ as_bytes (host target) @ as_bytes '':'' @
     as_bytes (dec_string (unat (port target))) @ as_bytes '' HTTP/1.1'' @ crlf2"

definition handShake ::
  "nat \<Rightarrow> nat \<Rightarrow> u8 list \<Rightarrow> proxy_target \<Rightarrow> (proxy_error, u8 list) async" where
  "handShake fuel room pooled target =
     await (write_to_stream room (pooled @ connect_request target)) (\<lambda>_.
     await (read_head fuel []) (\<lambda>(index, buffer).
     if starts_with buffer (as_bytes ''HTTP/1.1 200 OK'') then
       (if index \<le> length buffer then ret []
        else panic)
     else fail (BadGateway (Message ''invalid response from proxy server''))))"

subsection \<open>The end of the head\<close>

text \<open>Some run of bytes is the empty line.\<close>

definition has_head :: "u8 list \<Rightarrow> bool" where
  "has_head bs \<longleftrightarrow> 4 < length bs \<and> (\<exists>i. take 4 (drop i bs) = crlf2)"

lemma length_crlf2 [simp]: "length crlf2 = 4"
  by (simp add: crlf2_def)

lemma find_window_Some: "find_window w bs = Some i \<Longrightarrow> take (length w) (drop i bs) = w"
  by (induction bs arbitrary: i) (auto split: if_splits)

lemma find_window_None:
  "w \<noteq> [] \<Longrightarrow> find_window w bs = None \<longleftrightarrow> (\<forall>i. take (length w) (drop i bs) \<noteq> w)"
proof (induction bs)
  case (Cons b bs)
  have "(\<forall>i. take (length w) (drop i (b # bs)) \<noteq> w) \<longleftrightarrow>
      take (length w) (b # bs) \<noteq> w \<and> (\<forall>i. take (length w) (drop i bs) \<noteq> w)"
    by (metis drop0 drop_Suc_Cons not0_implies_Suc)
  with Cons show ?case by simp
qed auto

lemma body_start_None: "body_start bs = None \<longleftrightarrow> \<not> has_head bs"
proof -
  have "find_window crlf2 bs \<noteq> None" if "drop (length bs - 4) bs = crlf2"
    using that find_window_None [of crlf2 bs]
    by (metis length_crlf2 list.size(3) take_all_iff order_refl zero_neq_numeral)
  moreover have "crlf2 \<noteq> []" by (simp add: crlf2_def)
  from find_window_None [OF this, of bs]
  have "find_window crlf2 bs = None \<longleftrightarrow> (\<forall>i. take 4 (drop i bs) \<noteq> crlf2)"
    by (simp only: length_crlf2)
  ultimately show ?thesis
    by (auto simp: body_start_def has_head_def Let_def)
qed

lemma window_bound:
  assumes "take 4 (drop i bs) = crlf2"
  shows "i + 4 \<le> length bs"
proof -
  have "length (take 4 (drop i bs)) = length crlf2" by (simp only: assms)
  then show ?thesis by simp
qed

lemma body_start_bound:
  assumes "body_start bs = Some i"
  shows "i \<le> length bs"
proof -
  have "j + 4 \<le> length bs" if "find_window crlf2 bs = Some j" for j
    using find_window_Some [OF that] by (intro window_bound) simp
  with assms show ?thesis
    by (auto simp: body_start_def Let_def split: if_splits)
qed

lemma has_head_prefix: "has_head bs \<Longrightarrow> has_head (bs @ cs)"
proof -
  assume h: "has_head bs"
  then obtain i where i: "take 4 (drop i bs) = crlf2" by (auto simp: has_head_def)
  with window_bound [OF i] have "take 4 (drop i (bs @ cs)) = crlf2" by simp
  with h show ?thesis by (auto simp: has_head_def)
qed

text \<open>
  With the whole head to come, in any segments, a round per byte is enough; what is read is a
  prefix of what comes that holds the head.
\<close>

lemma read_head_returns:
  assumes "has_head (buffer @ inbound (rx s))" and "\<not> has_head buffer"
    and "deadline s = None" and "length (inbound (rx s)) < fuel"
  shows "\<exists>index bs u r. read_head fuel buffer s = (Done (index, buffer @ bs), u) \<and>
    inbound (rx s) = bs @ r \<and> has_head (buffer @ bs) \<and> index \<le> length (buffer @ bs) \<and>
    tx u = tx s \<and> rx u = drop (length bs) (rx s)"
  using assms
proof (induction fuel arbitrary: buffer s)
  case 0
  then show ?case by simp
next
  case (Suc fuel)
  have "inbound (rx s) \<noteq> []" using Suc.prems(1,2) by auto
  then obtain t b r where rx: "rx s = (t, Byte b) # r" by (cases "rx s" rule: inbound.cases) auto
  from read_bytes [OF due_None [OF Suc.prems(3)] rx, of 256] obtain u k where
    rd: "read 256 s = (Done (take k (inbound (rx s))), u)"
    and eq: "idle_eq (s\<lparr>rx := drop k (rx s)\<rparr>) u"
    and k: "0 < k" "k \<le> length (inbound (rx s))" by auto
  let ?bs = "take k (inbound (rx s))"
  have rf: "read_from_stream 256 s = (Done ?bs, u)" using rd by (simp add: read_from_stream_def)
  have u: "rx u = drop k (rx s)" "tx u = tx s" "deadline u = None"
    using eq Suc.prems(3) by (simp_all add: idle_eq_def)
  have app: "inbound (rx s) = ?bs @ inbound (rx u)"
    using k(2) by (simp add: u inbound_drop)
  show ?case
  proof (cases "body_start (buffer @ ?bs)")
    case (Some index)
    then have "has_head (buffer @ ?bs)" using body_start_None [of "buffer @ ?bs"] by auto
    with Some rf app u k(2) body_start_bound [OF Some] show ?thesis
      by (intro exI [of _ index] exI [of _ ?bs] exI [of _ u] exI [of _ "inbound (rx u)"])
         (simp add: await_def ret_def min_absorb2)
  next
    case None
    then have nh: "\<not> has_head (buffer @ ?bs)" by (simp add: body_start_None)
    have "has_head ((buffer @ ?bs) @ inbound (rx u))"
      using Suc.prems(1) app by simp
    moreover have "length (inbound (rx u)) < fuel"
      using Suc.prems(4) k by (simp add: u inbound_drop)
    ultimately obtain index cs v r where
      ih: "read_head fuel (buffer @ ?bs) u = (Done (index, (buffer @ ?bs) @ cs), v)"
      "inbound (rx u) = cs @ r" "has_head ((buffer @ ?bs) @ cs)" "index \<le> length ((buffer @ ?bs) @ cs)"
      "tx v = tx u" "rx v = drop (length cs) (rx u)"
      using Suc.IH [OF _ nh u(3)] by blast
    have "read_head (Suc fuel) buffer s = (Done (index, buffer @ ?bs @ cs), v)"
      using rf None ih(1) by (simp add: await_def)
    moreover have "rx v = drop (length (?bs @ cs)) (rx s)"
      using ih(6) u(1) k(2) by (simp add: add.commute min_absorb2)
    moreover have "inbound (rx s) = (?bs @ cs) @ r" using app ih(2) by simp
    ultimately show ?thesis using ih(3-5) u(2)
      by (intro exI [of _ index] exI [of _ "?bs @ cs"] exI [of _ v] exI [of _ r]) simp
  qed
qed

subsection \<open>Properties\<close>

lemma status_line_before_head:
  assumes "starts_with (buf @ r) (as_bytes ''HTTP/1.1 200 OK'')" and "has_head buf"
  shows "starts_with buf (as_bytes ''HTTP/1.1 200 OK'')"
proof -
  let ?ok = "as_bytes ''HTTP/1.1 200 OK''"
  from assms(2) obtain i where i: "take 4 (drop i buf) = crlf2" by (auto simp: has_head_def)
  from window_bound [OF i] have l: "i + 4 \<le> length buf" .
  have "hd (take 4 (drop i buf)) = 13" unfolding i by (simp add: crlf2_def)
  then have cr: "buf ! i = 13" using l by (simp add: hd_drop_conv_nth)
  have len: "length ?ok = 15" by simp
  have no: "list_all (\<lambda>b. b \<noteq> 13) ?ok" by code_simp
  have "15 \<le> i"
  proof (rule ccontr)
    assume "\<not> 15 \<le> i"
    then have lt: "i < length ?ok" using len by simp
    have "take (length ?ok) (buf @ r) = ?ok" using assms(1) by (simp only: starts_with_def)
    then have "?ok ! i = (buf @ r) ! i" using lt by (metis nth_take)
    also have "\<dots> = 13" using cr l by (simp add: nth_append)
    finally have "13 \<in> set ?ok" using lt by (metis nth_mem)
    with no show False by (simp only: list_all_iff) blast
  qed
  with l len have "length ?ok \<le> length buf" by simp
  then have "take (length ?ok) (buf @ r) = take (length ?ok) buf" by simp
  with assms(1) show ?thesis by (simp only: starts_with_def)
qed

definition handshake_result :: "u8 list \<Rightarrow> (proxy_error, u8 list) outcome" where
  "handshake_result answer =
     (if starts_with answer (as_bytes ''HTTP/1.1 200 OK'') then Done []
      else Failed (BadGateway (Message ''invalid response from proxy server'')))"

lemma starts_with_more: "starts_with s p \<Longrightarrow> starts_with (s @ t) p"
  by (auto simp: starts_with_iff)

lemma not_head_Nil: "\<not> has_head []"
  by (simp add: has_head_def)

text \<open>
  C23: the handshake returns once the upstream proxy has sent a whole head, in any segments: it
  succeeds exactly on the status line \<open>HTTP/1.1 200 OK\<close>, and what it returns is always empty,
  although up to 256 bytes behind the head may have been read with it: these bytes of the tunnel
  are lost. What it has sent is the request behind whatever the pooled buffer held, cut off at
  what one \<open>write\<close> accepts. It never slices out of range.
\<close>

theorem handshake_completes:
  assumes "deadline s = None" and "tx_limit s = None" and "has_head (inbound (rx s))"
    and "length (inbound (rx s)) < fuel"
  shows "\<exists>u k. handShake fuel room pooled target s = (handshake_result (inbound (rx s)), u) \<and>
    tx u = tx s @ take room (pooled @ connect_request target) \<and>
    rx u = drop k (rx s) \<and> has_head (take k (inbound (rx s)))"
proof -
  let ?req = "pooled @ connect_request target"
  let ?s = "s\<lparr>tx := tx s @ take room ?req\<rparr>"
  have w: "write_to_stream room ?req s = (Done (), ?s)"
    using assms(2)
    by (simp add: write_to_stream_def write_once_def Let_def await_def map_err_def ret_def min_def)
  have "has_head ([] @ inbound (rx ?s))" "deadline ?s = None" "length (inbound (rx ?s)) < fuel"
    using assms by simp_all
  from read_head_returns [OF this(1) not_head_Nil this(2,3)] obtain index bs u r where
    "read_head fuel [] ?s = (Done (index, [] @ bs), u)" "inbound (rx ?s) = bs @ r"
    "has_head ([] @ bs)" "index \<le> length ([] @ bs)" "tx u = tx ?s" "rx u = drop (length bs) (rx ?s)"
    by blast
  then have h: "read_head fuel [] ?s = (Done (index, bs), u)" "inbound (rx s) = bs @ r"
    "has_head bs" "index \<le> length bs" "tx u = tx ?s" "rx u = drop (length bs) (rx s)" by simp_all
  have "starts_with bs (as_bytes ''HTTP/1.1 200 OK'') \<longleftrightarrow>
      starts_with (inbound (rx s)) (as_bytes ''HTTP/1.1 200 OK'')"
    unfolding h(2)
    by (rule iffI) (rule starts_with_more, assumption, rule status_line_before_head [OF _ h(3)])
  with w h(1,4) have "handShake fuel room pooled target s = (handshake_result (inbound (rx s)), u)"
    by (simp add: handShake_def handshake_result_def await_def ret_def fail_def)
  with h show ?thesis
    by (intro exI [of _ u] exI [of _ "length bs"]) simp
qed

lemma read_head_spins:
  assumes "map snd (rx s) = map Byte bs @ Fin # es" and "\<not> has_head (buffer @ bs)"
    and "deadline s = None"
  shows "fst (read_head fuel buffer s) = Hangs"
  using assms
proof (induction fuel arbitrary: buffer bs s)
  case 0
  then show ?case by simp
next
  case (Suc fuel)
  show ?case
  proof (cases bs)
    case Nil
    with Suc.prems(1) obtain t r where rx: "rx s = (t, Fin) # r" by auto
    from read_fin [OF Suc.prems(3) rx, of 256] obtain u where
      u: "read 256 s = (Done [], u)" "idle_eq s u" by blast
    have "body_start buffer = None" using Suc.prems(2) Nil by (simp add: body_start_None)
    then have "read_head (Suc fuel) buffer s = read_head fuel buffer u"
      using u(1) by (simp add: read_from_stream_def await_def map_err_def)
    moreover have "fst (read_head fuel buffer u) = Hangs"
      using Suc.IH [of u "[]" buffer] Suc.prems u(2) Nil by (simp add: idle_eq_def)
    ultimately show ?thesis by simp
  next
    case (Cons b cs)
    with Suc.prems(1) obtain t r where rx: "rx s = (t, Byte b) # r" by auto
    from read_bytes [OF due_None [OF Suc.prems(3)] rx, of 256] obtain u k where
      rd: "read 256 s = (Done (take k (inbound (rx s))), u)"
      and eq: "idle_eq (s\<lparr>rx := drop k (rx s)\<rparr>) u" and k: "k \<le> length (inbound (rx s))" by auto
    have inb: "inbound (rx s) = bs"
    proof -
      have "delivers s bs (Fin # es)" using Suc.prems(1) by (simp add: delivers_def)
      from delivers_inbound [OF this] have "take (length bs) (inbound (rx s)) = bs" by simp
      moreover have "length (inbound (rx s)) \<le> length bs"
      proof -
        have "inbound (rx s) = concat (map (\<lambda>ev. case ev of Byte b \<Rightarrow> [b] | _ \<Rightarrow> [])
            (takeWhile (\<lambda>ev. \<exists>b. ev = Byte b) (map Byte bs @ Fin # es)))"
          unfolding inbound_snd Suc.prems(1) ..
        also have "takeWhile (\<lambda>ev. \<exists>b. ev = Byte b) (map Byte bs @ Fin # es) = map Byte bs"
          by (subst takeWhile_append2) auto
        also have "concat (map (\<lambda>ev. case ev of Byte b \<Rightarrow> [b] | _ \<Rightarrow> []) (map Byte bs)) = bs"
          by (induction bs) auto
        finally show ?thesis by simp
      qed
      ultimately show ?thesis by simp
    qed
    have rxu: "rx u = drop k (rx s)" "deadline u = None"
      using eq Suc.prems(3) by (simp_all add: idle_eq_def)
    have "map snd (rx u) = map Byte (drop k bs) @ Fin # es"
      using Suc.prems(1) k inb by (simp add: rxu drop_map [symmetric])
    moreover have "\<not> has_head ((buffer @ take k bs) @ drop k bs)" using Suc.prems(2) by simp
    ultimately have "fst (read_head fuel (buffer @ take k bs) u) = Hangs"
      using rxu(2) by (rule Suc.IH)
    moreover have "body_start (buffer @ take k bs) = None"
      using Suc.prems(2) has_head_prefix [of "buffer @ take k bs" "drop k bs"]
      by (auto simp: body_start_None)
    ultimately show ?thesis
      using rd inb by (simp add: read_from_stream_def await_def map_err_def)
  qed
qed

text \<open>
  C34: if the upstream proxy closes the connection before it has sent a whole head, the handshake
  does not return, with any number of rounds: every further read answers no bytes at once, and
  the loop, which does not look at their number, spins.
\<close>

theorem handshake_spins_at_eof:
  assumes "map snd (rx s) = map Byte bs @ Fin # es" and "\<not> has_head bs"
    and "deadline s = None" and "tx_limit s = None"
  shows "fst (handShake fuel room pooled target s) = Hangs"
proof -
  let ?req = "pooled @ connect_request target"
  let ?s = "s\<lparr>tx := tx s @ take room ?req\<rparr>"
  have w: "write_to_stream room ?req s = (Done (), ?s)"
    using assms(4)
    by (simp add: write_to_stream_def write_once_def Let_def await_def map_err_def ret_def min_def)
  have "fst (read_head fuel [] ?s) = Hangs"
    using assms(1-3) by (intro read_head_spins [of _ bs es]) simp_all
  then obtain u where "read_head fuel [] ?s = (Hangs, u)" by (cases "read_head fuel [] ?s") simp
  with w show ?thesis by (simp add: handShake_def await_def)
qed

theorem handshake_spins_at_eof_witness:
  "fst (handShake 1000000 4096 [] \<lparr>host = ''a'', port = 80\<rparr>
     (sample_client Plain (arrives 0 (as_bytes ''HTTP'') @ [(1, Fin)]))) = Hangs"
  by (rule handshake_spins_at_eof [where bs = "as_bytes ''HTTP''" and es = "[]"])
     (simp_all add: arrives_def has_head_def)

definition sample_answer :: "u8 list" where
  "sample_answer = as_bytes ''HTTP/1.1 200 OK'' @ crlf2 @ [1, 2, 3]"

theorem handshake_completes_witness:
  "\<exists>u k. handShake 100 4096 [] \<lparr>host = ''a'', port = 80\<rparr> (sample_client Plain (arrives 0 sample_answer))
     = (Done [], u) \<and> tx u = as_bytes ''CONNECT a:80 HTTP/1.1'' @ crlf2"
proof -
  let ?s = "sample_client Plain (arrives 0 sample_answer)"
  have i: "inbound (rx ?s) = sample_answer"
    by (simp add: arrives_def sample_answer_def crlf2_def)
  have "take 4 (drop 15 sample_answer) = crlf2" by code_simp
  then have h: "has_head (inbound (rx ?s))"
    unfolding i has_head_def by (intro conjI exI [of _ 15]) (simp_all add: sample_answer_def)
  have r: "handshake_result (inbound (rx ?s)) = Done []"
    unfolding i by (simp add: handshake_result_def sample_answer_def starts_with_def)
  have q: "take 4096 ([] @ connect_request \<lparr>host = ''a'', port = 80\<rparr>) = as_bytes ''CONNECT a:80 HTTP/1.1'' @ crlf2"
  proof -
    have "dec_string 80 = ''80''" by code_simp
    then show ?thesis by (simp add: connect_request_def)
  qed
  have "length (inbound (rx ?s)) < 100" unfolding i by (simp add: sample_answer_def)
  from handshake_completes [OF _ _ h this, of 4096 "[]" "\<lparr>host = ''a'', port = 80\<rparr>"]
  obtain u k where "handShake 100 4096 [] \<lparr>host = ''a'', port = 80\<rparr> ?s = (Done [], u)"
    "tx u = as_bytes ''CONNECT a:80 HTTP/1.1'' @ crlf2"
    unfolding r q by auto
  then show ?thesis by (intro exI conjI)
qed

end
