(* ===== verification/Startup.thy ===== *)
theory Startup
  imports Auth
begin

section \<open>Startup (src/main.rs, src/utils.rs, src/app_state.rs)\<close>

text \<open>
  From the command line to the state of the server. The argument parser, the PEM parser, the
  TLS configuration and the file system are arguments or results of crates: \<open>args_accepted\<close>
  states the constraints that the declaration of \<open>Args\<close> asks of the parser, and \<open>pem\<close> collects
  the functions of the others.
\<close>

subsection \<open>Arguments\<close>

record args =
  no_creds :: bool
  arg_username :: "string option"
  arg_password :: "string option"
  proxy_port :: u32
  tls_certificate :: "string option"
  tls_private_key :: "string option"

definition args_accepted :: "args \<Rightarrow> bool" where
  "args_accepted a \<longleftrightarrow>
     (no_creds a \<or> arg_username a \<noteq> None) \<and>
     (no_creds a \<or> arg_password a \<noteq> None) \<and>
     (tls_private_key a \<noteq> None \<longrightarrow> tls_certificate a \<noteq> None)"

subsection \<open>Certificates and keys\<close>

text \<open>
  \<open>open_file\<close> answers the contents of a file; \<open>certs\<close> parses them all or fails; \<open>pkcs8\<close> and
  \<open>rsa\<close> answer the first key of their kind, which may be malformed, or none; \<open>configure\<close> builds
  the acceptor from a certificate chain and a key.
\<close>

datatype 'k private_key_der = Pkcs8 'k | Pkcs1 'k

record ('c, 'k) pem =
  open_file :: "string \<Rightarrow> io_error + u8 list"
  certs :: "u8 list \<Rightarrow> io_error + 'c list"
  pkcs8 :: "u8 list \<Rightarrow> (io_error + 'k) option"
  rsa :: "u8 list \<Rightarrow> (io_error + 'k) option"
  configure :: "'c list \<Rightarrow> 'k private_key_der \<Rightarrow> string + (io_error, unit) async"

datatype setup_error = SetupIo io_error | SetupMsg string | SetupTls string

definition load_certs :: "('c, 'k) pem \<Rightarrow> string \<Rightarrow> setup_error + 'c list" where
  "load_certs p path =
     (case open_file p path of
        Inl e \<Rightarrow> Inl (SetupIo e)
      | Inr cert_file \<Rightarrow> (case certs p cert_file of Inl e \<Rightarrow> Inl (SetupIo e) | Inr cs \<Rightarrow> Inr cs))"

definition load_private_key :: "('c, 'k) pem \<Rightarrow> string \<Rightarrow> setup_error + 'k private_key_der" where
  "load_private_key p path =
     (case open_file p path of
        Inl e \<Rightarrow> Inl (SetupIo e)
      | Inr key_file \<Rightarrow>
          (case pkcs8 p key_file of
             Some (Inl e) \<Rightarrow> Inl (SetupIo e)
           | Some (Inr key) \<Rightarrow> Inr (Pkcs8 key)
           | None \<Rightarrow>
               (case open_file p path of
                  Inl e \<Rightarrow> Inl (SetupIo e)
                | Inr key_file \<Rightarrow>
                    (case rsa p key_file of
                       Some (Inl e) \<Rightarrow> Inl (SetupIo e)
                     | Some (Inr key) \<Rightarrow> Inr (Pkcs1 key)
                     | None \<Rightarrow> Inl (SetupMsg ''No usable private key found'')))))"

definition create_tls_acceptor ::
  "('c, 'k) pem \<Rightarrow> string \<Rightarrow> string \<Rightarrow> setup_error + (io_error, unit) async" where
  "create_tls_acceptor p cert_path key_path =
     (case load_certs p cert_path of
        Inl e \<Rightarrow> Inl e
      | Inr cs \<Rightarrow>
          (case load_private_key p key_path of
             Inl e \<Rightarrow> Inl e
           | Inr key \<Rightarrow>
               (case configure p cs key of Inl e \<Rightarrow> Inl (SetupTls e) | Inr acceptor \<Rightarrow> Inr acceptor)))"

subsection \<open>main\<close>

text \<open>
  The listening address is parsed back from its text; \<open>SocketAddr\<close> takes four decimal bytes and
  a 16-bit port, of which the first part is fixed here.
\<close>

definition listen_addr :: "u32 \<Rightarrow> string" where
  "listen_addr p = ''0.0.0.0:'' @ dec_string (unat p)"

definition parse_listen_addr :: "string \<Rightarrow> u16 option" where
  "parse_listen_addr addr =
     (if starts_with addr ''0.0.0.0:'' then parse_u16 (drop 8 addr) else None)"

text \<open>
  The server is started on a port with a state, the arguments are refused, or an \<open>unwrap\<close>
  panics.
\<close>

datatype startup = Usage | Startup_Panic | Serve u16 app_state

definition main :: "('c, 'k) pem \<Rightarrow> args \<Rightarrow> startup" where
  "main p a =
     (if \<not> args_accepted a then Usage
      else
        let serve = (\<lambda>tls.
              let state = app_state_new (\<not> no_creds a) (arg_username a) (arg_password a) tls
              in case parse_listen_addr (listen_addr (proxy_port a)) of
                   None \<Rightarrow> Startup_Panic
                 | Some q \<Rightarrow> Serve q state)
        in case (tls_certificate a, tls_private_key a) of
             (Some cert_path, Some key_path) \<Rightarrow>
               (case create_tls_acceptor p cert_path key_path of
                  Inl e \<Rightarrow> Startup_Panic
                | Inr acceptor \<Rightarrow> serve (Some acceptor))
           | _ \<Rightarrow> serve None)"

subsection \<open>Properties\<close>

lemma parse_digits_bound: "parse_digits acc ds = Some n \<Longrightarrow> acc < 65536 \<Longrightarrow> n < 65536"
  by (induction acc ds rule: parse_digits.induct) (auto split: option.splits if_splits)

lemma parse_dec_string_large: "\<not> n < 65536 \<Longrightarrow> parse_digits 0 (dec_string n) = None"
proof (induction n rule: dec_string.induct)
  case (1 n)
  then have n: "\<not> n < 10" by simp
  show ?case
  proof (cases "n div 10 < 65536")
    case True
    then have "parse_digits 0 (dec_string (n div 10)) = Some (n div 10)" by (rule parse_dec_string)
    moreover have "n div 10 * 10 + n mod 10 = n" by simp
    ultimately show ?thesis using n "1.prems"
      by (simp add: dec_string.simps [of n] parse_digits_append)
  next
    case False
    with "1.IH" [OF n] n show ?thesis
      by (simp add: dec_string.simps [of n] parse_digits_append)
  qed
qed

lemma listen_addr_parses:
  "parse_listen_addr (listen_addr p) = (if unat p < 65536 then Some (of_nat (unat p)) else None)"
proof -
  have "CHR ''+'' \<notin> set (dec_string (unat p))"
    by (rule dec_string_no) (simp add: digit_val_def Let_def)
  then have "\<not> starts_with (dec_string (unat p)) ''+''"
    by (auto simp: starts_with_iff)
  then have "parse_u16 (dec_string (unat p)) =
      (if unat p < 65536 then Some (of_nat (unat p)) else None)"
    by (simp add: parse_u16_def parse_dec_string parse_dec_string_large)
  moreover have "starts_with (listen_addr p) ''0.0.0.0:''" "drop 8 (listen_addr p) = dec_string (unat p)"
    unfolding listen_addr_def by (rule starts_with_append) simp
  ultimately show ?thesis by (simp add: parse_listen_addr_def)
qed

text \<open>
  C30: the state that the server is started with. If it starts at all, it requires credentials
  unless \<open>--no-creds\<close> was given, then both the user name and the password are configured, so
  that the checks of credentials never run on a missing one, and the port is the requested one.
\<close>

theorem startup_state:
  assumes "main p a = Serve q state"
  shows "unat q = unat (proxy_port a) \<and> require_creds state = (\<not> no_creds a) \<and>
    (no_creds a \<or> username state \<noteq> None \<and> password state \<noteq> None) \<and>
    username state = arg_username a \<and> password state = arg_password a"
proof -
  from assms obtain tls where s: "state = app_state_new (\<not> no_creds a) (arg_username a) (arg_password a) tls"
    and q: "parse_listen_addr (listen_addr (proxy_port a)) = Some q" and ok: "args_accepted a"
    by (auto simp: main_def Let_def split: if_splits option.splits sum.splits)
  from q have "unat (proxy_port a) < 65536" "q = of_nat (unat (proxy_port a))"
    by (simp_all only: listen_addr_parses option.inject split: if_splits) simp_all
  then have "unat q = unat (proxy_port a)" by (simp only: unat_of_nat_u16)
  with s ok show ?thesis by (auto simp: app_state_new_def args_accepted_def)
qed

definition sample_pem :: "(unit, nat) pem" where
  "sample_pem = \<lparr>open_file = (\<lambda>path. if path = ''key.pem'' then Inr [1] else Inl (IoError (OtherKind ''NotFound'') path)),
     certs = (\<lambda>_. Inr [()]), pkcs8 = (\<lambda>_. None), rsa = (\<lambda>_. Some (Inr 7)),
     configure = (\<lambda>_ _. Inr (ret ()))\<rparr>"

definition sample_args :: "u32 \<Rightarrow> args" where
  "sample_args p = \<lparr>no_creds = False, arg_username = Some ''u'', arg_password = Some ''p'', proxy_port = p,
     tls_certificate = Some ''cert.pem'', tls_private_key = None\<rparr>"

theorem startup_state_witness:
  "\<exists>state. main sample_pem (sample_args 8080) = Serve 8080 state \<and> require_creds state \<and>
     username state = Some ''u''"
proof -
  let ?state = "app_state_new True (Some ''u'') (Some ''p'') None"
  have m: "main sample_pem (sample_args 8080) = Serve 8080 ?state"
    by (simp add: main_def sample_args_def args_accepted_def listen_addr_parses)
  from startup_state [OF m] m show ?thesis
    by (intro exI [of _ ?state]) (simp add: sample_args_def)
qed

text \<open>
  the port argument has 32 bits and no range, so that a port above 65535 is accepted by the
  parser and then ends the program in a panic, never in a usage error; every other port is fine.
\<close>

theorem port_out_of_range_panics:
  assumes "args_accepted a" and "tls_private_key a = None"
  shows "main p a = (if unat (proxy_port a) < 65536
    then Serve (of_nat (unat (proxy_port a)))
      (app_state_new (\<not> no_creds a) (arg_username a) (arg_password a) None)
    else Startup_Panic)"
  using assms by (simp add: main_def listen_addr_parses Let_def split: option.splits)

theorem port_out_of_range_panics_witness: "main sample_pem (sample_args 70000) = Startup_Panic"
  using port_out_of_range_panics [of "sample_args 70000" sample_pem]
  by (simp add: sample_args_def args_accepted_def)

text \<open>
  TLS needs both files, but only a key without a certificate is refused: a certificate without
  a key is accepted and silently ignored, the file is not even opened, and the server runs
  without TLS.
\<close>

theorem certificate_without_key_ignored:
  assumes "tls_private_key a = None" and "main p a = Serve q state"
  shows "tls_acceptor state = None \<and> main p' a = Serve q state"
  using assms
  by (auto simp: main_def app_state_new_def Let_def split: if_splits option.splits)

theorem certificate_without_key_ignored_witness:
  "\<exists>state. main sample_pem (sample_args 8080) = Serve 8080 state \<and> tls_acceptor state = None"
proof -
  let ?state = "app_state_new True (Some ''u'') (Some ''p'') None"
  have m: "main sample_pem (sample_args 8080) = Serve 8080 ?state"
    by (simp add: main_def sample_args_def args_accepted_def listen_addr_parses)
  moreover have "tls_private_key (sample_args 8080) = None" by (simp add: sample_args_def)
  ultimately show ?thesis using certificate_without_key_ignored [OF _ m] by auto
qed

end
