(* ===== verification/Spec2Isabelle.thy ===== *)
theory Spec2Isabelle
  imports Prelude Rust_Str Net_Stream Frames Protocol Port_Allocator Connection Relay Poll_IO
    Tunnel_Manager Auth Targets Listener Handshake Startup
begin

text \<open>
  \<^bold>\<open>A model of crabby_proxy.\<close>

  \<^bold>\<open>The program.\<close> crabby_proxy is a proxy server that speaks HTTP, HTTPS, SOCKS4, SOCKS5 and a
  raw length-prefixed protocol on one port. \<open>main.rs\<close> reads the command line, builds the TLS
  acceptor and the shared state and starts the listener. \<open>proxy/listener.rs\<close> accepts
  connections; for each it guesses the protocol from the first four bytes, upgrades to TLS where
  that is asked, authenticates the client where credentials are required, guesses the protocol
  again, reads the target, connects to it, answers, and relays bytes both ways
  (\<open>stream.rs\<close>) until both directions end. \<open>proxy/relay.rs\<close> is the client side of a CONNECT
  handshake with an upstream proxy. \<open>connection.rs\<close> keeps connections that wait for an approval
  and those that are active; \<open>tunnel/\<close> keeps reverse tunnels and the pool of ports they listen
  on. The listener calls neither: the shared state holds the approvals, and the tunnels stand alone.

  \<^bold>\<open>Theories and code.\<close>

  \<^item> \<^bold>\<open>Prelude\<close>: machine integers as words, list lemmas, the fact collections
    \<open>op_defs\<close> and \<open>inv_intros\<close>, and the locale \<open>op_machine\<close>: an invariant that every operation
    keeps holds after any list of operations. The allocator, the connection manager, a relay
    direction and a tunnel interpret it.
  \<^item> \<^bold>\<open>Rust_Str\<close>: the functions of the standard library that the code calls on strings. A
    \<open>String\<close> is the list of its UTF-8 code units.
  \<^item> \<^bold>\<open>Net_Stream\<close>: asynchronous code (\<open>peek_or_read\<close>, \<open>read_nul\<close> and the socket calls). An
    \<open>async fn\<close> is a function from the client stream to an outcome and the stream after it; the
    outcome is a value, an error, a panic, the expiry of an enclosing timeout, or that the call
    never returns. The stream holds timed events of the peer, the clock, the deadline of the
    enclosing timeout, and what was written and dialled. \<open>segmentation_free\<close> and transcripts are
    how results are stated for all segmentations of the same bytes.
  \<^item> \<^bold>\<open>Frames\<close>: the locales \<open>read_frame\<close> and \<open>stream_frame\<close>: a relation between the stream before
    and after that the socket calls respect is respected by all code built from them; interpreted
    for code that only reads, for what is dialled, written, read, and for deadlines.
  \<^item> \<^bold>\<open>Protocol\<close>: \<open>proxy/protocol.rs\<close>, the protocol detection of \<open>listener.rs\<close> and the
    replies of \<open>utils.rs\<close>.
  \<^item> \<^bold>\<open>Port_Allocator\<close>: \<open>tunnel/port_allocator.rs\<close>, its invariant, the abstract pool it
    refines, and the locale \<open>port_pool\<close> of what the tunnel manager relies on.
  \<^item> \<^bold>\<open>Connection\<close>: \<open>connection.rs\<close>. Each operation also answers the events on the decision
    channels, so that a sender that is dropped unused can be seen.
  \<^item> \<^bold>\<open>Relay\<close>: \<open>TunnelStream::relay_with_logging\<close> and \<open>create_bidirectional_tunnel\<close> of
    \<open>stream.rs\<close>, one round of a loop at a time, under any schedule of the two directions.
  \<^item> \<^bold>\<open>Poll_IO\<close>: the poll functions of \<open>ClientStream\<close> and \<open>TunnelStream\<close> and the two copies of
    the relay loop, poll by poll. The locales \<open>byte_reader\<close> and \<open>byte_writer\<close> state what
    \<open>AsyncRead\<close> and \<open>AsyncWrite\<close> promise; delegation keeps them (sublocales), and over them the
    loop refines the rounds of \<^bold>\<open>Relay\<close> and returns.
  \<^item> \<^bold>\<open>Tunnel_Manager\<close>: \<open>tunnel/manager.rs\<close> and \<open>tunnel/error.rs\<close>; the spawned tasks are an
    inductive step relation, and the reachable states an inductive predicate. \<open>abort\<close> only moves
    a task from \<open>live\<close> to \<open>aborted\<close>, where it may still bind or accept until it stops, as
    \<open>JoinHandle::abort\<close> does not wait for the task.
  \<^item> \<^bold>\<open>Auth\<close>: \<open>app_state.rs\<close> and the authentication functions of \<open>listener.rs\<close>.
  \<^item> \<^bold>\<open>Targets\<close>: the parsers of \<open>listener.rs\<close> that find the target of a request.
  \<^item> \<^bold>\<open>Listener\<close>: \<open>handle_client\<close>, \<open>async_handle_client\<close> and \<open>run_proxy_server\<close>.
  \<^item> \<^bold>\<open>Handshake\<close>: \<open>proxy/relay.rs\<close>, the stream helpers of \<open>utils.rs\<close>, and \<open>error.rs\<close>.
  \<^item> \<^bold>\<open>Startup\<close>: \<open>main.rs\<close>, \<open>AppState::new\<close> and the certificate functions of \<open>utils.rs\<close>.

  \<^bold>\<open>What the theorems show.\<close>

  \<^item> Safety of access: nothing is dialled for a client that has not sent the configured
    credentials in the form of its protocol; the checks accept exactly these.
  \<^item> Whole sessions: for SOCKS5 and HTTP, the address dialled, the exact bytes each side
    receives, and the replies when the target cannot be reached.
  \<^item> Parsers: encoded requests parse to what they encode, with exact consumption; results do not
    depend on segmentation; the scan for a server name stays in bounds; the raw parser always
    answers.
  \<^item> Relaying: each writer has a prefix of what the opposite reader delivers at every moment,
    exactly all of it on success; a tunnel between ends that close completes; the same for the
    loop at the level of polls.
  \<^item> Ports and tunnels: no port is leased twice, none is lost, the counter does not wrap; in
    every reachable state a listed tunnel has a leased port and one recorded task, and every
    listener that was not aborted is the recorded task of the listed tunnel of its port. A listed
    tunnel may be without a listener, and an aborted listener may still hold its port.
  \<^item> Approval: a connection is active only after an approval; a decision channel gets at most one
    event.
  \<^item> Handshake and startup: the verdict on the answer of the upstream proxy in any segments; the
    configuration with which a server starts.
  \<^item> Where the code does not do what it means to, theorems state what it does: a SOCKS5
    client that authenticates is never connected, a SOCKS4 client that authenticates has its
    request thrown away, a TLS client loses the start of its request (all of it where it
    authenticates), a closed port is free before its listener has stopped, the upstream handshake spins at an early end of the stream, a stalled SOCKS client
    holds its handler, a shutdown of the tunnel manager keeps the ports leased, failed approval
    calls lose the request.

  \<^bold>\<open>Parameters.\<close> Code outside the repository is an argument: the base64 decoder, the answers of
  the network to a connection attempt, the acceptor of TLS streams, the order in which a hash map
  is drained, the schedule of the two directions of a tunnel, the contents of a pooled buffer,
  the number of bytes one write accepts, the PEM parser and the TLS configuration, and all
  fresh identifiers and times. A TLS stream is the stream of its plain text.

  \<^bold>\<open>Bounds and fuel.\<close> The loops that read lines and null-terminated strings consume a byte per
  round and are total functions with a measure. The loop that reads the head of an upstream
  answer has fuel, since it does not end at the end of the stream: one round for every byte is
  enough to return once the head has come, which is proved, and a run that uses up its fuel has
  the outcome of a call that does not return. Tunnels run along a schedule: one poll more than
  there are bytes, in each direction, is enough. The poll loop needs at most three polls
  for a byte, two for the end, and one for each pending poll.

  \<^bold>\<open>Not modelled.\<close> \<open>config.rs\<close> and the admin server of \<open>main.rs\<close> are commented out.
  \<open>MultiProtocolProxy\<close> binds a listener and is never used. Logging, the notification channel of
  the shared state (never used) and the runtime's flags are left out. The count of relayed bytes
  wraps at 64 bits in the model, as in a release build. \<open>relay_with_tunnel_stream\<close> of
  \<open>stream.rs\<close> forwards to the loop and has no definition of its own.
\<close>

end
